(* ===== verification/Prelude.thy ===== *)
theory Prelude
  imports Complex_Main "HOL-Library.Char_ord" "HOL-Library.List_Lexorder" "HOL-Library.Sublist"
begin

text \<open>
  Shared vocabulary of the development: Go strings are byte strings, so they are HOL strings
  (lists of 8-bit \<open>char\<close>), and \<open>byte c\<close> reads the value of one byte. The named theorem
  collections gather the facts that the component theories pass to \<open>simp\<close>:
  \<open>go_defs\<close> (definitions of library routines that proofs usually unfold) and
  \<open>byte_simps\<close> (byte values of the literals).
\<close>

named_theorems go_defs
named_theorems byte_simps

type_synonym gostring = string

abbreviation byte :: "char \<Rightarrow> nat" where
  "byte c \<equiv> of_char c"

text \<open>Frequently used bytes.\<close>

abbreviation NL :: char where "NL \<equiv> CHR 0x0A"
abbreviation CR :: char where "CR \<equiv> CHR 0x0D"
abbreviation ESC :: char where "ESC \<equiv> CHR 0x1B"
abbreviation BEL :: char where "BEL \<equiv> CHR 0x07"
abbreviation BACKSLASH :: char where "BACKSLASH \<equiv> CHR 0x5C"
abbreviation TICK :: char where "TICK \<equiv> CHR 0x60"
abbreviation SQUOTE :: char where "SQUOTE \<equiv> CHR 0x27"
abbreviation DQUOTE :: char where "DQUOTE \<equiv> CHR 0x22"

lemma byte_eq_iff: "c = d \<longleftrightarrow> byte c = byte d"
  by simp

section \<open>Prefixes\<close>

text \<open>\<open>strip_prefix p s\<close> is the rest of \<open>s\<close> after the prefix \<open>p\<close>, if \<open>s\<close> has it.\<close>

fun strip_prefix :: "'a list \<Rightarrow> 'a list \<Rightarrow> 'a list option" where
  "strip_prefix [] s = Some s"
| "strip_prefix (p # ps) [] = None"
| "strip_prefix (p # ps) (c # cs) = (if p = c then strip_prefix ps cs else None)"

lemma strip_prefix_Some_iff: "strip_prefix p s = Some r \<longleftrightarrow> s = p @ r"
  by (induction p s rule: strip_prefix.induct) auto

lemma strip_prefix_append [simp]: "strip_prefix p (p @ r) = Some r"
  by (simp add: strip_prefix_Some_iff)

lemma strip_prefix_None_iff: "strip_prefix p s = None \<longleftrightarrow> (\<forall>r. s \<noteq> p @ r)"
  by (metis strip_prefix_Some_iff option.exhaust option.distinct(1))

lemma strip_prefix_length:
  "strip_prefix p s = Some r \<Longrightarrow> p \<noteq> [] \<Longrightarrow> length r < length s"
  by (auto simp: strip_prefix_Some_iff)

section \<open>Lists\<close>

lemma concat_map_eq_if_all:
  "(\<And>x. x \<in> set xs \<Longrightarrow> f x = g x) \<Longrightarrow> concat (map f xs) = concat (map g xs)"
  by (metis map_cong)

lemma take_append_drop_nth:
  "i < length s \<Longrightarrow> s = take i s @ s ! i # drop (Suc i) s"
  by (simp add: id_take_nth_drop)

lemma sum_list_map_snoc [simp]: "sum_list (map f (xs @ [x])) = sum_list (map f xs) + (f x :: nat)"
  by simp

section \<open>Errors\<close>

text \<open>Sequencing of fallible steps, and how a successful outcome splits.\<close>

abbreviation try_bind :: "'e + 'a \<Rightarrow> ('a \<Rightarrow> 'e + 'b) \<Rightarrow> 'e + 'b" where
  "try_bind m f \<equiv> (case m of Inl e \<Rightarrow> Inl e | Inr x \<Rightarrow> f x)"

lemma try_bind_Inr: "try_bind m f = Inr y \<longleftrightarrow> (\<exists>x. m = Inr x \<and> f x = Inr y)"
  by (cases m) simp_all

lemma guard_Inr: "(if P then Inl e else m) = Inr y \<longleftrightarrow> \<not> P \<and> m = Inr y"
  by simp

end
