(* ===== verification/Go_Strings.thy ===== *)
theory Go_Strings
  imports Prelude
begin

text \<open>
  The routines of Go's \<open>strings\<close> and \<open>strconv\<close> packages that the program uses, on byte
  strings: \<open>TrimSpace\<close>, \<open>TrimRight\<close>, \<open>TrimSuffix\<close>, \<open>HasPrefix\<close>, \<open>Split\<close>, \<open>Cut\<close>,
  \<open>ReplaceAll\<close>, \<open>Contains\<close>, \<open>Join\<close>, \<open>ParseUint\<close>, \<open>ParseInt\<close>, \<open>Atoi\<close>, \<open>ParseBool\<close>,
  \<open>Itoa\<close>. \<open>TrimSpace\<close> removes Unicode white space; each white-space rune has one UTF-8
  encoding, so at either end it is a matter of stripping one of finitely many byte strings.
\<close>

section \<open>White space\<close>

definition ascii_space :: "char \<Rightarrow> bool" where
  "ascii_space c \<longleftrightarrow> c \<in> set [CHR 0x09, CHR 0x0A, CHR 0x0B, CHR 0x0C, CHR 0x0D, CHR 0x20]"

text \<open>UTF-8 encodings of the runes of \<open>unicode.IsSpace\<close>.\<close>

definition space_encodings :: "gostring list" where
  "space_encodings =
     [[CHR 0x09], [CHR 0x0A], [CHR 0x0B], [CHR 0x0C], [CHR 0x0D], [CHR 0x20],
      [CHR 0xC2, CHR 0x85], [CHR 0xC2, CHR 0xA0],
      [CHR 0xE1, CHR 0x9A, CHR 0x80],
      [CHR 0xE2, CHR 0x80, CHR 0x80], [CHR 0xE2, CHR 0x80, CHR 0x81], [CHR 0xE2, CHR 0x80, CHR 0x82],
      [CHR 0xE2, CHR 0x80, CHR 0x83], [CHR 0xE2, CHR 0x80, CHR 0x84], [CHR 0xE2, CHR 0x80, CHR 0x85],
      [CHR 0xE2, CHR 0x80, CHR 0x86], [CHR 0xE2, CHR 0x80, CHR 0x87], [CHR 0xE2, CHR 0x80, CHR 0x88],
      [CHR 0xE2, CHR 0x80, CHR 0x89], [CHR 0xE2, CHR 0x80, CHR 0x8A],
      [CHR 0xE2, CHR 0x80, CHR 0xA8], [CHR 0xE2, CHR 0x80, CHR 0xA9], [CHR 0xE2, CHR 0x80, CHR 0xAF],
      [CHR 0xE2, CHR 0x81, CHR 0x9F], [CHR 0xE3, CHR 0x80, CHR 0x80]]"

fun first_strip :: "'a list list \<Rightarrow> 'a list \<Rightarrow> 'a list option" where
  "first_strip [] s = None"
| "first_strip (e # es) s = (case strip_prefix e s of Some r \<Rightarrow> Some r | None \<Rightarrow> first_strip es s)"

fun trim_left_with :: "'a list list \<Rightarrow> 'a list \<Rightarrow> 'a list" where
  "trim_left_with es s =
     (case first_strip es s of
        None \<Rightarrow> s
      | Some r \<Rightarrow> if length r < length s then trim_left_with es r else s)"

declare trim_left_with.simps [simp del]

definition trim_left_space :: "gostring \<Rightarrow> gostring" where
  "trim_left_space s = trim_left_with space_encodings s"

definition trim_right_space :: "gostring \<Rightarrow> gostring" where
  "trim_right_space s = rev (trim_left_with (map rev space_encodings) (rev s))"

definition trim_space :: "gostring \<Rightarrow> gostring" where
  "trim_space s = trim_right_space (trim_left_space s)"

lemma first_strip_None_iff: "first_strip es s = None \<longleftrightarrow> (\<forall>e \<in> set es. strip_prefix e s = None)"
  by (induction es) (auto split: option.splits)

lemma first_strip_Some: "first_strip es s = Some r \<Longrightarrow> \<exists>e \<in> set es. s = e @ r"
  by (induction es) (auto split: option.splits simp: strip_prefix_Some_iff)

lemma trim_left_with_suffix: "\<exists>p. s = p @ trim_left_with es s"
proof (induction es s rule: trim_left_with.induct)
  case (1 es s)
  show ?case
  proof (cases "first_strip es s")
    case None
    then show ?thesis by (simp add: trim_left_with.simps [of es s])
  next
    case (Some r)
    then obtain e where e: "s = e @ r" by (blast dest: first_strip_Some)
    show ?thesis
    proof (cases "length r < length s")
      case True
      with 1 Some obtain p where "r = p @ trim_left_with es r" by blast
      with e have "s = (e @ p) @ trim_left_with es r" by simp
      moreover have "trim_left_with es s = trim_left_with es r"
        using Some True by (simp add: trim_left_with.simps [of es s])
      ultimately show ?thesis by metis
    next
      case False
      with Some show ?thesis by (simp add: trim_left_with.simps [of es s])
    qed
  qed
qed

lemma trim_left_with_fixed:
  assumes "\<forall>e \<in> set es. e \<noteq> []"
  shows "first_strip es (trim_left_with es s) = None"
  using assms
proof (induction es s rule: trim_left_with.induct)
  case (1 es s)
  show ?case
  proof (cases "first_strip es s")
    case None
    then show ?thesis by (simp add: trim_left_with.simps [of es s])
  next
    case (Some r)
    then obtain e where "e \<in> set es" "s = e @ r" by (blast dest: first_strip_Some)
    with 1(2) have "length r < length s" by auto
    with Some 1 show ?thesis by (simp add: trim_left_with.simps [of es s])
  qed
qed

lemma trim_left_with_id: "first_strip es s = None \<Longrightarrow> trim_left_with es s = s"
  by (simp add: trim_left_with.simps)

lemma space_encodings_nonempty: "\<forall>e \<in> set space_encodings. e \<noteq> []"
  by (simp add: space_encodings_def)

lemma trim_left_space_suffix: "\<exists>p. s = p @ trim_left_space s"
  by (simp add: trim_left_space_def trim_left_with_suffix)

lemma trim_right_space_prefix: "\<exists>q. s = trim_right_space s @ q"
proof -
  obtain p where "rev s = p @ trim_left_with (map rev space_encodings) (rev s)"
    using trim_left_with_suffix by blast
  then have "s = rev (p @ trim_left_with (map rev space_encodings) (rev s))"
    by (metis rev_rev_ident)
  then show ?thesis by (auto simp: trim_right_space_def)
qed

lemma trim_space_sublist: "\<exists>p q. s = p @ trim_space s @ q"
  by (metis trim_left_space_suffix trim_right_space_prefix trim_space_def)

lemma length_trim_space: "length (trim_space s) \<le> length s"
  using trim_space_sublist [of s] by (metis length_append le_add1 le_add2 le_trans)

text \<open>
  Trimming is idempotent: what the right trim leaves is a prefix of the left-trimmed string,
  so no white space can appear at its left end again.
\<close>

lemma trim_space_idem [simp]: "trim_space (trim_space s) = trim_space s"
proof -
  let ?l = "trim_left_space s" and ?t = "trim_space s"
  obtain q where q: "?l = ?t @ q"
    using trim_right_space_prefix [of ?l] by (auto simp: trim_space_def)
  have "first_strip space_encodings ?l = None"
    using space_encodings_nonempty by (simp add: trim_left_space_def trim_left_with_fixed)
  then have "first_strip space_encodings ?t = None"
    unfolding first_strip_None_iff q by (auto simp: strip_prefix_None_iff)
  then have l: "trim_left_space ?t = ?t"
    by (simp add: trim_left_space_def trim_left_with_id)
  have "first_strip (map rev space_encodings) (rev ?t) = None"
    using space_encodings_nonempty
    by (simp add: trim_space_def trim_right_space_def trim_left_with_fixed)
  then have "trim_right_space ?t = ?t"
    by (simp add: trim_right_space_def trim_left_with_id)
  with l show ?thesis by (simp add: trim_space_def [of ?t])
qed

text \<open>Printable ASCII other than the blank neither starts nor ends a white-space rune.\<close>

definition graphic :: "char \<Rightarrow> bool" where
  "graphic c \<longleftrightarrow> 0x21 \<le> byte c \<and> byte c < 0x7F"

lemma first_strip_graphic:
  assumes "graphic c" "\<forall>e \<in> set es. e \<noteq> [] \<and> \<not> graphic (hd e)"
  shows "first_strip es (c # s) = None"
  unfolding first_strip_None_iff
proof
  fix e assume "e \<in> set es"
  with assms obtain d e' where "e = d # e'" "\<not> graphic d" by (cases e) auto
  with assms(1) show "strip_prefix e (c # s) = None" by auto
qed

lemma trim_space_Nil [simp]: "trim_space [] = []"
  using length_trim_space [of "[]"] by simp

lemma trim_space_graphic:
  assumes "s \<noteq> []" "graphic (hd s)" "graphic (last s)"
  shows "trim_space s = s"
proof -
  have "first_strip space_encodings s = None"
    using first_strip_graphic [of "hd s" space_encodings "tl s"] assms
    by (simp add: space_encodings_def graphic_def)
  then have l: "trim_left_space s = s"
    by (simp add: trim_left_space_def trim_left_with_id)
  have "rev s = last s # tl (rev s)"
    using assms(1) by (metis hd_rev list.collapse rev_is_Nil_conv)
  moreover have "first_strip (map rev space_encodings) (last s # tl (rev s)) = None"
    by (rule first_strip_graphic [OF assms(3)]) (simp add: space_encodings_def graphic_def)
  ultimately have "trim_right_space s = s"
    by (metis trim_right_space_def trim_left_with_id rev_rev_ident)
  with l show ?thesis by (simp add: trim_space_def)
qed

lemma trim_space_all_graphic: "\<forall>c \<in> set s. graphic c \<Longrightarrow> trim_space s = s"
  by (cases "s = []") (auto intro: trim_space_graphic)

text \<open>The case of an ASCII byte.\<close>

definition upper_char :: "char \<Rightarrow> char" where
  "upper_char c = (if 0x61 \<le> byte c \<and> byte c \<le> 0x7A then char_of (byte c - 0x20) else c)"

definition lower_char :: "char \<Rightarrow> char" where
  "lower_char c = (if 0x41 \<le> byte c \<and> byte c \<le> 0x5A then char_of (byte c + 0x20) else c)"

section \<open>Prefixes, suffixes, searching\<close>

definition has_prefix :: "gostring \<Rightarrow> gostring \<Rightarrow> bool" where
  "has_prefix s p \<longleftrightarrow> strip_prefix p s \<noteq> None"

definition trim_prefix :: "gostring \<Rightarrow> gostring \<Rightarrow> gostring" where
  "trim_prefix s p = (case strip_prefix p s of Some r \<Rightarrow> r | None \<Rightarrow> s)"

definition has_suffix :: "gostring \<Rightarrow> gostring \<Rightarrow> bool" where
  "has_suffix s p \<longleftrightarrow> strip_prefix (rev p) (rev s) \<noteq> None"

definition trim_suffix :: "gostring \<Rightarrow> gostring \<Rightarrow> gostring" where
  "trim_suffix s p = (case strip_prefix (rev p) (rev s) of Some r \<Rightarrow> rev r | None \<Rightarrow> s)"

text \<open>\<open>strings.TrimRight(s, "/")\<close> with a one-byte cutset.\<close>

definition trim_right_char :: "char \<Rightarrow> gostring \<Rightarrow> gostring" where
  "trim_right_char c s = rev (dropWhile (\<lambda>d. d = c) (rev s))"

fun contains_str :: "gostring \<Rightarrow> gostring \<Rightarrow> bool" where
  "contains_str [] sub = (sub = [])"
| "contains_str (c # cs) sub = (has_prefix (c # cs) sub \<or> contains_str cs sub)"

fun index_of :: "gostring \<Rightarrow> gostring \<Rightarrow> nat option" where
  "index_of [] sub = (if sub = [] then Some 0 else None)"
| "index_of (c # cs) sub =
     (if has_prefix (c # cs) sub then Some 0 else map_option Suc (index_of cs sub))"

text \<open>\<open>strings.Cut(s, c)\<close> for a one-byte separator.\<close>

fun cut_at :: "char \<Rightarrow> gostring \<Rightarrow> (gostring \<times> gostring) option" where
  "cut_at c [] = None"
| "cut_at c (d # ds) =
     (if d = c then Some ([], ds) else map_option (\<lambda>(a, b). (d # a, b)) (cut_at c ds))"

text \<open>\<open>strings.Split(s, c)\<close>: never empty.\<close>

fun split_on :: "char \<Rightarrow> gostring \<Rightarrow> gostring list" where
  "split_on c [] = [[]]"
| "split_on c (d # ds) =
     (if d = c then [] # split_on c ds
      else (case split_on c ds of [] \<Rightarrow> [[d]] | p # ps \<Rightarrow> (d # p) # ps))"

fun join_with :: "gostring \<Rightarrow> gostring list \<Rightarrow> gostring" where
  "join_with sep [] = []"
| "join_with sep [x] = x"
| "join_with sep (x # y # ys) = x @ sep @ join_with sep (y # ys)"

text \<open>\<open>strings.ReplaceAll(s, old, new)\<close>; every call in the program has a non-empty \<open>old\<close>.\<close>

function replace_all :: "gostring \<Rightarrow> gostring \<Rightarrow> gostring \<Rightarrow> gostring" where
  "replace_all old new [] = []"
| "replace_all old new (c # cs) =
     (if old = [] then c # cs
      else (case strip_prefix old (c # cs) of
              Some r \<Rightarrow> new @ replace_all old new r
            | None \<Rightarrow> c # replace_all old new cs))"
  by pat_completeness auto
termination
  by (relation "measure (\<lambda>(_, _, s). length s)") (auto dest: strip_prefix_length)

lemma has_prefix_iff: "has_prefix s p \<longleftrightarrow> (\<exists>r. s = p @ r)"
  by (auto simp: has_prefix_def strip_prefix_None_iff)

lemma has_prefix_prefix: "has_prefix s p \<longleftrightarrow> prefix p s"
  by (simp add: has_prefix_iff prefix_def)

lemma contains_str_sublist: "contains_str s sub \<longleftrightarrow> sublist sub s"
proof (induction s)
  case Nil
  then show ?case by simp
next
  case (Cons c cs)
  then show ?case by (simp add: has_prefix_prefix sublist_Cons_right del: Nil_is_append_conv)
qed

lemma trim_prefix_append [simp]: "trim_prefix (p @ r) p = r"
  by (simp add: trim_prefix_def)

lemma trim_suffix_append [simp]: "trim_suffix (r @ p) p = r"
  by (simp add: trim_suffix_def)

lemma trim_suffix_cases: "s = trim_suffix s p @ p \<or> trim_suffix s p = s"
proof (cases "strip_prefix (rev p) (rev s)")
  case (Some r)
  then have "rev s = rev p @ r" by (simp add: strip_prefix_Some_iff)
  then have "s = rev r @ p" by (metis rev_append rev_rev_ident)
  then show ?thesis by simp
qed (simp add: trim_suffix_def)

lemma length_trim_suffix: "length (trim_suffix s p) \<le> length s"
  using trim_suffix_cases [of s p] by (metis length_append le_add1 order_refl)

lemma trim_suffix_prefix: "prefix (trim_suffix s p) s"
  using trim_suffix_cases [of s p] by (metis prefixI prefix_order.order_refl)

lemma cut_at_Some: "cut_at c s = Some (a, b) \<Longrightarrow> s = a @ c # b \<and> c \<notin> set a"
  by (induction c s arbitrary: a b rule: cut_at.induct) (auto split: if_splits)

lemma cut_at_None_iff: "cut_at c s = None \<longleftrightarrow> c \<notin> set s"
  by (induction c s rule: cut_at.induct) auto

lemma cut_at_append: "c \<notin> set a \<Longrightarrow> cut_at c (a @ c # b) = Some (a, b)"
  by (induction a) auto

lemma split_on_nonempty [simp]: "split_on c s \<noteq> []"
  by (induction s) (auto split: list.splits)

lemma join_split_on: "join_with [c] (split_on c s) = s"
proof (induction s)
  case (Cons d ds)
  obtain p ps where "split_on c ds = p # ps" by (cases "split_on c ds") auto
  with Cons show ?case by (cases ps) auto
qed simp

lemma split_on_no_sep: "p \<in> set (split_on c s) \<Longrightarrow> c \<notin> set p"
  by (induction s arbitrary: p) (auto split: if_splits list.splits)

lemma replace_all_single:
  "replace_all [a] new s = concat (map (\<lambda>c. if c = a then new else [c]) s)"
  by (induction s) (auto split: option.splits)

lemma replace_all_no_first: "a \<notin> set s \<Longrightarrow> replace_all (a # as) new s = s"
  by (induction s) (auto split: option.splits)

end
