(* ===== verification/Protocol.thy ===== *)
theory Protocol
  imports Go_Strings
begin

text \<open>
  Package \<open>internal/protocol\<close>: the events of the wrapper-to-daemon stream and the reply.
  A time is its distance in nanoseconds from Go's zero time, so \<open>IsZero\<close> is \<open>= 0\<close>; a Go map
  is the list of its entries in some iteration order (keys distinct).
\<close>

type_synonym time = int
type_synonym duration = int

abbreviation millisecond :: duration where "millisecond \<equiv> 1000000"
abbreviation second :: duration where "second \<equiv> 1000000000"

definition protocol_version :: int where
  "protocol_version = 2"

definition event_start :: gostring where "event_start = ''start''"
definition event_output :: gostring where "event_output = ''output''"
definition event_exit :: gostring where "event_exit = ''exit''"

definition stream_stdout :: gostring where "stream_stdout = ''stdout''"
definition stream_stderr :: gostring where "stream_stderr = ''stderr''"
definition stream_system :: gostring where "stream_system = ''system''"

lemmas protocol_names =
  protocol_version_def event_start_def event_output_def event_exit_def
  stream_stdout_def stream_stderr_def stream_system_def

record event =
  ev_version :: int
  ev_type :: gostring
  ev_run_id :: gostring
  ev_timestamp :: time
  ev_channel_id :: gostring
  ev_name :: gostring
  ev_command :: "gostring list"
  ev_shell :: bool
  ev_hostname :: gostring
  ev_working_directory :: gostring
  ev_environment :: "(gostring \<times> gostring) list"
  ev_stream :: gostring
  ev_data :: gostring
  ev_exit_code :: "int option"
  ev_error :: gostring

text \<open>The zero value, from which composite literals start.\<close>

definition zero_event :: event where
  "zero_event =
     \<lparr>ev_version = 0, ev_type = [], ev_run_id = [], ev_timestamp = 0, ev_channel_id = [],
      ev_name = [], ev_command = [], ev_shell = False, ev_hostname = [],
      ev_working_directory = [], ev_environment = [], ev_stream = [], ev_data = [],
      ev_exit_code = None, ev_error = []\<rparr>"

record stream_response =
  rs_run_id :: gostring
  rs_accepted :: bool
  rs_dropped_bytes :: int
  rs_error :: gostring

definition zero_response :: stream_response where
  "zero_response = \<lparr>rs_run_id = [], rs_accepted = False, rs_dropped_bytes = 0, rs_error = []\<rparr>"

end
