(* ===== verification/Go_Strconv.thy ===== *)
theory Go_Strconv
  imports Go_Strings
begin

text \<open>
  The routines of Go's \<open>strconv\<close> that the program uses: \<open>ParseUint(s, 10, 64)\<close>,
  \<open>ParseInt(s, 10, 64)\<close> (and \<open>Atoi\<close>, which agrees with it where \<open>int\<close> has 64 bits),
  \<open>ParseInt(s, 0, 64)\<close>,
  \<open>ParseBool\<close>, \<open>Itoa\<close> and \<open>FormatInt\<close>. A parse error is \<open>None\<close>: the program never looks at
  which error it was.
\<close>

definition is_digit :: "char \<Rightarrow> bool" where
  "is_digit c \<longleftrightarrow> 0x30 \<le> byte c \<and> byte c \<le> 0x39"

definition digit_val :: "char \<Rightarrow> nat" where
  "digit_val c = byte c - 0x30"

definition digits_val :: "gostring \<Rightarrow> nat" where
  "digits_val s = foldl (\<lambda>n c. 10 * n + digit_val c) 0 s"

definition parse_uint64 :: "gostring \<Rightarrow> nat option" where
  "parse_uint64 s =
     (if s \<noteq> [] \<and> list_all is_digit s \<and> digits_val s < 2 ^ 64 then Some (digits_val s) else None)"

definition parse_int64 :: "gostring \<Rightarrow> int option" where
  "parse_int64 s =
     (case s of
        [] \<Rightarrow> None
      | c # cs \<Rightarrow>
          (let neg = (c = CHR ''-'');
               ds = (if c = CHR ''+'' \<or> c = CHR ''-'' then cs else s)
           in case parse_uint64 ds of
                None \<Rightarrow> None
              | Some n \<Rightarrow>
                  if \<not> neg \<and> 2 ^ 63 \<le> n then None
                  else if neg \<and> 2 ^ 63 < n then None
                  else Some (if neg then - int n else int n)))"

text \<open>Base 0: a prefix chooses the base, and underscores may separate digits.\<close>

text \<open>Digits of a base up to 16, and their value.\<close>

definition base_digit_val :: "char \<Rightarrow> nat" where
  "base_digit_val c = (if is_digit c then digit_val c else byte (lower_char c) - 0x61 + 10)"

definition is_base_digit :: "nat \<Rightarrow> char \<Rightarrow> bool" where
  "is_base_digit base c \<longleftrightarrow>
     (is_digit c \<or> 0x61 \<le> byte (lower_char c) \<and> byte (lower_char c) \<le> 0x7A) \<and> base_digit_val c < base"

definition base_value :: "nat \<Rightarrow> gostring \<Rightarrow> int" where
  "base_value base ds = foldl (\<lambda>n c. int base * n + int (base_digit_val c)) 0 ds"

text \<open>\<open>underscoreOK\<close>: an underscore stands between digits, or between the base prefix and a digit.\<close>

fun underscores_between :: "bool \<Rightarrow> char \<Rightarrow> gostring \<Rightarrow> bool" where
  "underscores_between hex saw [] = (saw \<noteq> CHR ''_'')"
| "underscores_between hex saw (c # cs) =
     (if is_digit c \<or> hex \<and> is_base_digit 16 c then underscores_between hex CHR ''0'' cs
      else if c = CHR ''_'' then saw = CHR ''0'' \<and> underscores_between hex CHR ''_'' cs
      else saw \<noteq> CHR ''_'' \<and> underscores_between hex CHR ''!'' cs)"

definition underscore_ok :: "gostring \<Rightarrow> bool" where
  "underscore_ok s0 =
     (let s = (if s0 \<noteq> [] \<and> (hd s0 = CHR ''-'' \<or> hd s0 = CHR ''+'') then tl s0 else s0) in
      if 2 \<le> length s \<and> hd s = CHR ''0'' \<and> lower_char (s ! 1) \<in> set ''box''
      then underscores_between (lower_char (s ! 1) = CHR ''x'') CHR ''0'' (drop 2 s)
      else underscores_between False CHR ''^'' s)"

definition split_base :: "gostring \<Rightarrow> nat \<times> gostring" where
  "split_base s =
     (if s = [] \<or> hd s \<noteq> CHR ''0'' then (10, s)
      else if 3 \<le> length s \<and> lower_char (s ! 1) = CHR ''b'' then (2, drop 2 s)
      else if 3 \<le> length s \<and> lower_char (s ! 1) = CHR ''o'' then (8, drop 2 s)
      else if 3 \<le> length s \<and> lower_char (s ! 1) = CHR ''x'' then (16, drop 2 s)
      else (8, drop 1 s))"

definition parse_uint_base0 :: "gostring \<Rightarrow> int option" where
  "parse_uint_base0 s =
     (case split_base s of
        (base, t) \<Rightarrow>
          (let ds = filter (\<lambda>c. c \<noteq> CHR ''_'') t in
           if s = [] \<or> \<not> list_all (is_base_digit base) ds \<or> 2 ^ 64 \<le> base_value base ds then None
           else if CHR ''_'' \<in> set t \<and> \<not> underscore_ok s then None
           else Some (base_value base ds)))"

definition parse_int_base0 :: "gostring \<Rightarrow> int option" where
  "parse_int_base0 s =
     (let neg = (s \<noteq> [] \<and> hd s = CHR ''-'');
          t = (if s \<noteq> [] \<and> (hd s = CHR ''-'' \<or> hd s = CHR ''+'') then tl s else s)
      in case parse_uint_base0 t of
           None \<Rightarrow> None
         | Some n \<Rightarrow>
             if (if neg then 2 ^ 63 < n else 2 ^ 63 \<le> n) then None else Some (if neg then - n else n))"

definition parse_bool :: "gostring \<Rightarrow> bool option" where
  "parse_bool s =
     (if s \<in> set [''1'', ''t'', ''T'', ''TRUE'', ''true'', ''True''] then Some True
      else if s \<in> set [''0'', ''f'', ''F'', ''FALSE'', ''false'', ''False''] then Some False
      else None)"

definition digit_char :: "nat \<Rightarrow> char" where
  "digit_char d = ''0123456789'' ! d"

fun format_nat :: "nat \<Rightarrow> gostring" where
  "format_nat n = (if n < 10 then [digit_char n] else format_nat (n div 10) @ [digit_char (n mod 10)])"

declare format_nat.simps [simp del]

definition format_int :: "int \<Rightarrow> gostring" where
  "format_int i = (if i < 0 then CHR ''-'' # format_nat (nat (- i)) else format_nat (nat i))"

section \<open>Facts\<close>

lemma is_digit_graphic: "is_digit c \<Longrightarrow> graphic c"
  by (simp add: is_digit_def graphic_def)

lemma digits_val_Nil [simp]: "digits_val [] = 0"
  by (simp add: digits_val_def)

lemma digits_val_snoc [simp]: "digits_val (s @ [c]) = 10 * digits_val s + digit_val c"
  by (simp add: digits_val_def)

lemma digit_val_less: "is_digit c \<Longrightarrow> digit_val c < 10"
  by (auto simp: is_digit_def digit_val_def)

lemma digits_val_less: "list_all is_digit s \<Longrightarrow> digits_val s < 10 ^ length s"
proof (induction s rule: rev_induct)
  case (snoc c s)
  then have "digits_val s + 1 \<le> 10 ^ length s" "digit_val c < 10"
    by (auto simp: digit_val_less)
  then have "10 * digits_val s + digit_val c < 10 * 10 ^ length s" by linarith
  then show ?case by simp
qed simp

lemma byte_digit_char: "d < 10 \<Longrightarrow> byte (digit_char d) = 0x30 + d"
proof -
  assume "d < 10"
  moreover have "\<forall>d \<in> set [0..<10]. byte (digit_char d) = 0x30 + d" by code_simp
  ultimately show ?thesis by simp
qed

lemma is_digit_digit_char [simp]: "d < 10 \<Longrightarrow> is_digit (digit_char d)"
  by (simp add: is_digit_def byte_digit_char)

lemma digit_val_digit_char [simp]: "d < 10 \<Longrightarrow> digit_val (digit_char d) = d"
  by (simp add: digit_val_def byte_digit_char)

lemma format_nat_nonempty [simp]: "format_nat n \<noteq> []"
  by (subst format_nat.simps) simp

lemma format_nat_digits: "list_all is_digit (format_nat n)"
proof (induction n rule: format_nat.induct)
  case (1 n)
  then show ?case by (cases "n < 10") (auto simp: format_nat.simps [of n])
qed

lemma digits_val_format_nat [simp]: "digits_val (format_nat n) = n"
proof (induction n rule: format_nat.induct)
  case (1 n)
  show ?case
  proof (cases "n < 10")
    case True
    then show ?thesis using digits_val_snoc [of "[]"] by (simp add: format_nat.simps [of n])
  next
    case False
    with 1 show ?thesis by (simp add: format_nat.simps [of n])
  qed
qed

lemma parse_uint64_format_nat: "n < 2 ^ 64 \<Longrightarrow> parse_uint64 (format_nat n) = Some n"
  by (simp add: parse_uint64_def format_nat_digits)

lemma parse_int64_format_int:
  assumes "- (2 ^ 63) \<le> i" "i < 2 ^ 63"
  shows "parse_int64 (format_int i) = Some i"
proof (cases "i < 0")
  case True
  have le: "nat (- i) \<le> 2 ^ 63" using assms(1) by (simp add: nat_le_iff)
  then have "parse_uint64 (format_nat (nat (- i))) = Some (nat (- i))"
    by (intro parse_uint64_format_nat) simp
  moreover have "\<not> 2 ^ 63 < nat (- i)" using le by simp
  ultimately show ?thesis using True by (simp add: format_int_def parse_int64_def)
next
  case False
  obtain c cs where c: "format_nat (nat i) = c # cs" by (cases "format_nat (nat i)") auto
  then have "is_digit c" using format_nat_digits [of "nat i"] by simp
  then have "c \<noteq> CHR ''+''" "c \<noteq> CHR ''-''" by (auto simp: is_digit_def)
  moreover have lt: "nat i < 2 ^ 63" using assms(2) False by (simp add: nat_less_iff)
  moreover from lt have "parse_uint64 (c # cs) = Some (nat i)"
    unfolding c [symmetric] by (intro parse_uint64_format_nat) simp
  ultimately show ?thesis
    using False by (simp add: format_int_def parse_int64_def c Let_def)
qed

text \<open>A decimal number without leading zeros means the same in base 0.\<close>

lemma lower_char_digit [simp]: "is_digit c \<Longrightarrow> lower_char c = c"
  by (simp add: is_digit_def lower_char_def)

lemma base_digit_decimal: "is_digit c \<Longrightarrow> is_base_digit 10 c"
  using digit_val_less [of c] by (simp add: is_base_digit_def base_digit_val_def)

lemma base_value_snoc [simp]: "base_value b (ds @ [c]) = int b * base_value b ds + int (base_digit_val c)"
  by (simp add: base_value_def)

lemma base_value_decimal: "list_all is_digit ds \<Longrightarrow> base_value 10 ds = int (digits_val ds)"
  by (induction ds rule: rev_induct) (simp_all add: base_value_def [of _ "[]"] base_digit_val_def)

lemma hd_format_nat: "hd (format_nat n) = CHR ''0'' \<longleftrightarrow> n = 0"
proof (induction n rule: format_nat.induct)
  case (1 n)
  show ?case
  proof (cases "n < 10")
    case True
    then have "digit_val (digit_char n) = n" by simp
    moreover have zero: "digit_val (CHR ''0'') = 0" "digit_char 0 = CHR ''0''"
      by (simp_all add: digit_val_def digit_char_def)
    ultimately have "digit_char n = CHR ''0'' \<longleftrightarrow> n = 0" by metis
    then show ?thesis using True by (simp add: format_nat.simps [of n])
  next
    case False
    moreover have "n div 10 \<noteq> 0" using False by (simp add: div_eq_0_iff)
    ultimately show ?thesis using 1 by (simp add: format_nat.simps [of n])
  qed
qed

lemma parse_uint_base0_format: "n < 2 ^ 64 \<Longrightarrow> parse_uint_base0 (format_nat n) = Some (int n)"
proof (cases "n = 0")
  case True
  then show ?thesis by (simp add: format_nat.simps [of 0] digit_char_def parse_uint_base0_def split_base_def base_value_def)
next
  case False
  assume n: "n < 2 ^ 64"
  have no: "filter (\<lambda>c. c \<noteq> CHR ''_'') (format_nat n) = format_nat n" "CHR ''_'' \<notin> set (format_nat n)"
    using format_nat_digits [of n] by (auto simp: list_all_iff is_digit_def intro!: filter_True)
  have "list_all (is_base_digit 10) (format_nat n)"
    using format_nat_digits [of n] by (auto simp: list_all_iff intro: base_digit_decimal)
  moreover have "base_value 10 (format_nat n) = int n"
    by (simp add: base_value_decimal format_nat_digits)
  moreover have "split_base (format_nat n) = (10, format_nat n)"
    using False by (simp add: split_base_def hd_format_nat)
  moreover have "\<not> 2 ^ 64 \<le> int n" using n by simp
  ultimately show ?thesis by (simp add: parse_uint_base0_def no)
qed

lemma parse_int_base0_format:
  assumes "- (2 ^ 63) \<le> i" "i < 2 ^ 63"
  shows "parse_int_base0 (format_int i) = Some i"
proof (cases "i < 0")
  case True
  then have "parse_uint_base0 (format_nat (nat (- i))) = Some (- i)"
    using parse_uint_base0_format [of "nat (- i)"] assms(1) by (simp add: nat_less_iff)
  then show ?thesis using True assms(1) by (simp add: format_int_def parse_int_base0_def)
next
  case False
  obtain c cs where c: "format_nat (nat i) = c # cs" by (cases "format_nat (nat i)") auto
  then have "is_digit c" using format_nat_digits [of "nat i"] by simp
  then have "c \<noteq> CHR ''+''" "c \<noteq> CHR ''-''" by (auto simp: is_digit_def)
  moreover have "parse_uint_base0 (c # cs) = Some i"
    using parse_uint_base0_format [of "nat i"] assms(2) False unfolding c by (simp add: nat_less_iff)
  ultimately show ?thesis using False assms(2) by (simp add: format_int_def parse_int_base0_def c Let_def)
qed

end
