(* ===== verification/Go_Time.thy ===== *)
theory Go_Time
  imports Protocol Go_Strconv
begin

text \<open>
  Package \<open>time\<close>, as far as the program prints durations: \<open>Time.Sub\<close> (saturating),
  \<open>Duration.Round\<close> (half away from zero, saturating) and \<open>Duration.String\<close>.
\<close>

definition max_duration :: duration where "max_duration = 2 ^ 63 - 1"
definition min_duration :: duration where "min_duration = - (2 ^ 63)"

definition time_sub :: "time \<Rightarrow> time \<Rightarrow> duration" where
  "time_sub t u =
     (let d = t - u in
      if d < min_duration then min_duration else if max_duration < d then max_duration else d)"

text \<open>Go's remainder truncates towards zero; \<open>r\<close> is its absolute value.\<close>

definition duration_round :: "duration \<Rightarrow> duration \<Rightarrow> duration" where
  "duration_round d m =
     (if m \<le> 0 then d
      else if d < 0 then
        (let r = (- d) mod m in
         if r + r < m then d + r
         else if min_duration \<le> d - m + r then d - m + r else min_duration)
      else
        (let r = d mod m in
         if r + r < m then d - r
         else if d + m - r \<le> max_duration then d + m - r else max_duration))"

text \<open>Fraction digits without trailing zeros, and the integral part that is left.\<close>

fun fmt_frac :: "nat \<Rightarrow> nat \<Rightarrow> bool \<Rightarrow> gostring \<Rightarrow> gostring \<times> nat" where
  "fmt_frac v 0 print acc = (if print then CHR ''.'' # acc else acc, v)"
| "fmt_frac v (Suc prec) print acc =
     (let digit = v mod 10; print = (print \<or> digit \<noteq> 0)
      in fmt_frac (v div 10) prec print (if print then digit_char digit # acc else acc))"

definition fmt_unit :: "nat \<Rightarrow> nat \<Rightarrow> gostring \<Rightarrow> gostring" where
  "fmt_unit u prec unit =
     (case fmt_frac u prec False [] of (fr, v) \<Rightarrow> format_nat v @ fr @ unit)"

definition duration_string :: "duration \<Rightarrow> gostring" where
  "duration_string d =
     (let u = nat \<bar>d\<bar>;
          body =
            (if u = 0 then ''0s''
             else if u < 1000 then fmt_unit u 0 ''ns''
             else if u < 1000000 then fmt_unit u 3 ([CHR 0xC2, CHR 0xB5] @ ''s'')
             else if u < 1000000000 then fmt_unit u 6 ''ms''
             else
               (case fmt_frac u 9 False [] of
                  (fr, secs) \<Rightarrow>
                    (let mins = secs div 60; hours = mins div 60;
                         sec_part = format_nat (secs mod 60) @ fr @ ''s''
                     in if mins = 0 then sec_part
                        else if hours = 0 then format_nat (mins mod 60) @ ''m'' @ sec_part
                        else format_nat hours @ ''h'' @ format_nat (mins mod 60) @ ''m'' @ sec_part)))
      in if d < 0 then CHR ''-'' # body else body)"

lemma duration_round_near:
  assumes "0 < m" "min_duration + m \<le> d" "d \<le> max_duration - m"
  shows "m dvd duration_round d m" "2 * \<bar>duration_round d m - d\<bar> \<le> m"
proof -
  define q where "q = d div m"
  define q' where "q' = (- d) div m"
  have e: "d mod m = d - m * q" "(- d) mod m = - d - m * q'"
    by (simp_all add: q_def q'_def minus_mult_div_eq_mod [symmetric])
  have "d - d mod m = m * q" "d + m - d mod m = m * (q + 1)"
    "d + (- d) mod m = m * (- q')" "d - m + (- d) mod m = m * (- q' - 1)"
    by (simp_all add: e algebra_simps)
  then have "m dvd d - d mod m" "m dvd d + m - d mod m" "m dvd d + (- d) mod m" "m dvd d - m + (- d) mod m"
    by (metis dvd_triv_left)+
  then show "m dvd duration_round d m"
    using assms pos_mod_bound [OF assms(1)] pos_mod_sign [OF assms(1), of d] pos_mod_sign [OF assms(1), of "- d"]
    by (simp add: duration_round_def Let_def)
  define r where "r = d mod m"
  define r' where "r' = (- d) mod m"
  have b: "0 \<le> r" "r < m" "0 \<le> r'" "r' < m" using assms(1) by (simp_all add: r_def r'_def)
  show "2 * \<bar>duration_round d m - d\<bar> \<le> m"
  proof (cases "d < 0")
    case True
    then have "duration_round d m - d = (if r' + r' < m then r' else r' - m)"
      using assms b(3) by (simp add: duration_round_def Let_def r'_def [symmetric])
    moreover have "2 * \<bar>r'\<bar> \<le> m" if "r' + r' < m" using that b by (simp add: abs_if)
    moreover have "2 * \<bar>r' - m\<bar> \<le> m" if "\<not> r' + r' < m" using that b by (simp add: abs_if)
    ultimately show ?thesis by (cases "r' + r' < m") simp_all
  next
    case False
    then have "duration_round d m - d = (if r + r < m then - r else m - r)"
      using assms b(1) by (simp add: duration_round_def Let_def r_def [symmetric])
    moreover have "2 * \<bar>- r\<bar> \<le> m" if "r + r < m" using that b by (simp add: abs_if)
    moreover have "2 * \<bar>m - r\<bar> \<le> m" if "\<not> r + r < m" using that b by (simp add: abs_if)
    ultimately show ?thesis by (cases "r + r < m") simp_all
  qed
qed

text \<open>Evaluation with numerals.\<close>

lemma fmt_frac_numeral:
  "fmt_frac v (numeral k) print acc =
     (let digit = v mod 10; print = (print \<or> digit \<noteq> 0)
      in fmt_frac (v div 10) (pred_numeral k) print (if print then digit_char digit # acc else acc))"
  by (subst numeral_eq_Suc) (simp only: fmt_frac.simps(2))

lemmas duration_eval =
  duration_string_def duration_round_def time_sub_def max_duration_def min_duration_def
  fmt_unit_def fmt_frac_numeral format_nat.simps digit_char_def

end
