(* ===== verification/Go_Utf8.thy ===== *)
theory Go_Utf8
  imports Go_Strings
begin

text \<open>
  Go's \<open>unicode/utf8\<close> on byte strings: \<open>RuneStart\<close>, \<open>DecodeRuneInString\<close> (an invalid
  encoding decodes as the replacement rune U+FFFD of width one), \<open>EncodeRune\<close>, \<open>ValidString\<close>.
  The lemmas say where a valid string can be cut: exactly before a rune start.
\<close>

definition rune_start :: "char \<Rightarrow> bool" where
  "rune_start c \<longleftrightarrow> \<not> (0x80 \<le> byte c \<and> byte c < 0xC0)"

abbreviation rune_error :: nat where "rune_error \<equiv> 0xFFFD"

definition in_range :: "nat \<Rightarrow> nat \<Rightarrow> char \<Rightarrow> bool" where
  "in_range lo hi c \<longleftrightarrow> lo \<le> byte c \<and> byte c \<le> hi"

abbreviation cont :: "char \<Rightarrow> bool" where
  "cont c \<equiv> in_range 0x80 0xBF c"

text \<open>Continuation-byte payload.\<close>

definition low6 :: "char \<Rightarrow> nat" where
  "low6 c = byte c mod 0x40"

text \<open>The range the second byte must lie in, given the first byte of a 3- or 4-byte rune.\<close>

definition second_ok :: "char \<Rightarrow> char \<Rightarrow> bool" where
  "second_ok a b =
     (if byte a = 0xE0 then in_range 0xA0 0xBF b
      else if byte a = 0xED then in_range 0x80 0x9F b
      else if byte a = 0xF0 then in_range 0x90 0xBF b
      else if byte a = 0xF4 then in_range 0x80 0x8F b
      else cont b)"

definition decode_rune :: "gostring \<Rightarrow> nat \<times> nat" where
  "decode_rune s =
     (case s of
        [] \<Rightarrow> (rune_error, 0)
      | a # r \<Rightarrow>
          if byte a < 0x80 then (byte a, 1)
          else if in_range 0xC2 0xDF a then
            (case r of
               b # _ \<Rightarrow> if cont b then ((byte a mod 0x20) * 0x40 + low6 b, 2) else (rune_error, 1)
             | _ \<Rightarrow> (rune_error, 1))
          else if in_range 0xE0 0xEF a then
            (case r of
               b # c # _ \<Rightarrow>
                 if second_ok a b \<and> cont c
                 then ((byte a mod 0x10) * 0x1000 + low6 b * 0x40 + low6 c, 3)
                 else (rune_error, 1)
             | _ \<Rightarrow> (rune_error, 1))
          else if in_range 0xF0 0xF4 a then
            (case r of
               b # c # d # _ \<Rightarrow>
                 if second_ok a b \<and> cont c \<and> cont d
                 then ((byte a mod 8) * 0x40000 + low6 b * 0x1000 + low6 c * 0x40 + low6 d, 4)
                 else (rune_error, 1)
             | _ \<Rightarrow> (rune_error, 1))
          else (rune_error, 1))"

abbreviation rune_size :: "gostring \<Rightarrow> nat" where
  "rune_size s \<equiv> snd (decode_rune s)"

lemma rune_size_bounds: "s \<noteq> [] \<Longrightarrow> 1 \<le> rune_size s \<and> rune_size s \<le> 4 \<and> rune_size s \<le> length s"
  by (auto simp: decode_rune_def split: list.splits if_splits)

lemma rune_size_pos: "s \<noteq> [] \<Longrightarrow> 0 < rune_size s"
  using rune_size_bounds [of s] by simp

lemma second_ok_cont: "second_ok a b \<Longrightarrow> cont b"
  by (auto simp: second_ok_def in_range_def split: if_splits)

lemma cont_not_rune_start: "cont c \<longleftrightarrow> \<not> rune_start c"
  by (auto simp: in_range_def rune_start_def)

lemma rune_size_cases_ex:
  "s \<noteq> [] \<Longrightarrow>
     rune_size s = 1
     \<or> (\<exists>a b r. s = a # b # r \<and> rune_size s = 2 \<and> cont b)
     \<or> (\<exists>a b c r. s = a # b # c # r \<and> rune_size s = 3 \<and> cont b \<and> cont c)
     \<or> (\<exists>a b c d r. s = a # b # c # d # r \<and> rune_size s = 4 \<and> cont b \<and> cont c \<and> cont d)"
proof -
  assume "s \<noteq> []"
  then obtain a r where s: "s = a # r" by (cases s) auto
  consider "r = []" | b where "r = [b]" | b c where "r = [b, c]" | b c d r' where "r = b # c # d # r'"
    by (metis list.exhaust)
  then show ?thesis
    by cases (simp_all add: s decode_rune_def, (use second_ok_cont in blast)+)
qed

lemma rune_size_cases:
  assumes "s \<noteq> []"
  obtains (one) "rune_size s = 1"
    | (two) a b r where "s = a # b # r" "rune_size s = 2" "cont b"
    | (three) a b c r where "s = a # b # c # r" "rune_size s = 3" "cont b" "cont c"
    | (four) a b c d r where "s = a # b # c # d # r" "rune_size s = 4" "cont b" "cont c" "cont d"
  using rune_size_cases_ex [OF assms]
proof (elim disjE exE conjE)
  assume "rune_size s = 1"
  then show thesis by (rule one)
next
  fix a b r assume "s = a # b # r" "rune_size s = 2" "cont b"
  then show thesis by (rule two)
next
  fix a b c r assume "s = a # b # c # r" "rune_size s = 3" "cont b" "cont c"
  then show thesis by (rule three)
next
  fix a b c d r assume "s = a # b # c # d # r" "rune_size s = 4" "cont b" "cont c" "cont d"
  then show thesis by (rule four)
qed

text \<open>Every byte of a rune after its first is a continuation byte.\<close>

lemma rune_inner_cont:
  assumes "0 < i" "i < rune_size s"
  shows "\<not> rune_start (s ! i)"
proof -
  have "s \<noteq> []" using assms by (auto simp: decode_rune_def)
  then have "cont (s ! i)"
    using assms by (cases s rule: rune_size_cases) (auto simp: nth_Cons' less_Suc_eq numeral_eq_Suc)
  then show ?thesis by (simp add: cont_not_rune_start)
qed

text \<open>A string of bytes below 0x80 decodes byte by byte.\<close>

lemma decode_rune_ascii [simp]: "byte a < 0x80 \<Longrightarrow> decode_rune (a # s) = (byte a, 1)"
  by (simp add: decode_rune_def)

section \<open>Valid strings\<close>

text \<open>\<open>utf8.ValidString\<close>: no invalid encoding (replacement rune of width one) anywhere.\<close>

function valid_utf8 :: "gostring \<Rightarrow> bool" where
  "valid_utf8 s =
     (if s = [] then True
      else if decode_rune s = (rune_error, 1) then False
      else valid_utf8 (drop (rune_size s) s))"
  by pat_completeness auto
termination
  by (relation "measure length") (auto simp: rune_size_pos)

declare valid_utf8.simps [simp del]

lemma valid_utf8_Nil [simp]: "valid_utf8 []"
  by (simp add: valid_utf8.simps)

text \<open>The decoder looks only at the bytes of the rune it returns, when the rune is valid.\<close>

lemma decode_rune_take:
  assumes "s \<noteq> []" "rune_size s \<le> n"
  shows "decode_rune (take n s) = decode_rune s"
proof -
  obtain a r n1 where s: "s = a # r" and n: "n = Suc n1"
    using assms rune_size_pos [of s] by (cases s; cases n) auto
  note [simp] = s n
  show ?thesis
  proof (cases r)
    case (Cons b r1)
    note [simp] = Cons
    show ?thesis
    proof (cases n1)
      case 0
      with assms(2) show ?thesis by (auto simp: decode_rune_def split: if_splits list.splits)
    next
      case (Suc n2)
      note [simp] = Suc
      show ?thesis
      proof (cases r1)
        case Nil
        then show ?thesis by simp
      next
        case (Cons c r2)
        note [simp] = Cons
        show ?thesis
        proof (cases n2)
          case 0
          with assms(2) show ?thesis by (auto simp: decode_rune_def split: if_splits list.splits)
        next
          case (Suc n3)
          note [simp] = Suc
          show ?thesis
          proof (cases r2)
            case (Cons d r3)
            then show ?thesis using assms(2)
              by (cases n3) (simp_all add: decode_rune_def split: if_splits)
          qed simp
        qed
      qed
    qed
  qed simp
qed

text \<open>
  A valid string can be cut at its end and before any rune start: both halves are valid.
\<close>

lemma valid_utf8_split:
  assumes "valid_utf8 s" "i = length s \<or> i < length s \<and> rune_start (s ! i)"
  shows "valid_utf8 (take i s) \<and> valid_utf8 (drop i s)"
  using assms
proof (induction s arbitrary: i rule: valid_utf8.induct)
  case (1 s)
  show ?case
  proof (cases "s = [] \<or> i = 0")
    case True
    with 1(2) show ?thesis by auto
  next
    case False
    let ?n = "rune_size s"
    from False have s: "s \<noteq> []" and i: "0 < i" by auto
    with 1(2) have ok: "decode_rune s \<noteq> (rune_error, 1)" and rest: "valid_utf8 (drop ?n s)"
      by (auto simp: valid_utf8.simps [of s] split: if_splits)
    have len: "?n \<le> length s" using rune_size_bounds [OF s] by simp
    have ge: "?n \<le> i"
      using 1(3) i rune_inner_cont [of i s] len by (metis not_le_imp_less)
    have "i - ?n = length (drop ?n s) \<or> i - ?n < length (drop ?n s) \<and> rune_start (drop ?n s ! (i - ?n))"
      using 1(3) ge len by auto
    with 1(1) s ok rest
    have IH: "valid_utf8 (take (i - ?n) (drop ?n s))" "valid_utf8 (drop (i - ?n) (drop ?n s))"
      by blast+
    have dec: "decode_rune (take i s) = decode_rune s"
      by (rule decode_rune_take [OF s ge])
    have "take i s \<noteq> []" using s i by simp
    then have "valid_utf8 (take i s)"
      using ok IH(1) by (simp add: valid_utf8.simps [of "take i s"] dec drop_take)
    with IH(2) ge show ?thesis by simp
  qed
qed

lemma valid_utf8_ascii_Cons [simp]: "byte c < 0x80 \<Longrightarrow> valid_utf8 (c # s) = valid_utf8 s"
  by (simp add: valid_utf8.simps [of "c # s"])

lemma decode_rune_append:
  assumes "a \<noteq> []" "decode_rune a \<noteq> (rune_error, 1)"
  shows "decode_rune (a @ b) = decode_rune a"
proof -
  obtain x r where a: "a = x # r" using assms(1) by (cases a) auto
  consider "r = []" | y where "r = [y]" | y z where "r = [y, z]" | y z u r' where "r = y # z # u # r'"
    by (metis list.exhaust)
  then show ?thesis
    by cases (use assms(2) in \<open>simp_all add: a decode_rune_def split: if_splits\<close>)
qed

lemma valid_utf8_append: "valid_utf8 a \<Longrightarrow> valid_utf8 b \<Longrightarrow> valid_utf8 (a @ b)"
proof (induction a rule: valid_utf8.induct)
  case (1 a)
  show ?case
  proof (cases "a = []")
    case False
    let ?n = "rune_size a"
    have le: "?n \<le> length a" using rune_size_bounds [OF False] by simp
    from False 1(2) have ok: "decode_rune a \<noteq> (rune_error, 1)" and rest: "valid_utf8 (drop ?n a)"
      by (auto simp: valid_utf8.simps [of a] split: if_splits)
    have same: "decode_rune (a @ b) = decode_rune a"
      by (rule decode_rune_append [OF False ok])
    have "valid_utf8 (drop ?n a @ b)" using 1 False ok rest by simp
    then show ?thesis using ok False le by (simp add: valid_utf8.simps [of "a @ b"] same)
  qed (use 1 in simp)
qed

section \<open>Encoding and rune-wise mapping\<close>

text \<open>
  \<open>utf8.AppendRune\<close>; surrogates and values above U+10FFFF encode as the replacement rune.
\<close>

definition encode_rune :: "nat \<Rightarrow> gostring" where
  "encode_rune r =
     (if r < 0x80 then [char_of r]
      else if r < 0x800 then [char_of (0xC0 + r div 0x40), char_of (0x80 + r mod 0x40)]
      else if 0x10FFFF < r \<or> (0xD800 \<le> r \<and> r \<le> 0xDFFF) then [CHR 0xEF, CHR 0xBF, CHR 0xBD]
      else if r < 0x10000 then
        [char_of (0xE0 + r div 0x1000), char_of (0x80 + r div 0x40 mod 0x40), char_of (0x80 + r mod 0x40)]
      else
        [char_of (0xF0 + r div 0x40000), char_of (0x80 + r div 0x1000 mod 0x40),
         char_of (0x80 + r div 0x40 mod 0x40), char_of (0x80 + r mod 0x40)])"

text \<open>Encoding inverts decoding; an invalid byte comes back as the three bytes of U+FFFD.\<close>

abbreviation replacement :: gostring where
  "replacement \<equiv> [CHR 0xEF, CHR 0xBF, CHR 0xBD]"

lemma encode_rune_error [simp]: "encode_rune 0xFFFD = replacement"
proof -
  have "byte (CHR 0xEF) = 239" "byte (CHR 0xBF) = 191" "byte (CHR 0xBD) = 189" by simp_all
  then have "char_of (239 :: nat) = CHR 0xEF" "char_of (191 :: nat) = CHR 0xBF" "char_of (189 :: nat) = CHR 0xBD"
    by (metis char_of_char)+
  then show ?thesis by (simp add: encode_rune_def)
qed

lemma low_bits: "x < m \<Longrightarrow> (k * m + x) mod m = (x :: nat)"
  by simp

lemma two_bytes:
  assumes "0xC2 \<le> (a :: nat)" "a \<le> 0xDF" "0x80 \<le> b" "b \<le> 0xBF" "r = a mod 0x20 * 0x40 + b mod 0x40"
  shows "\<not> r < 0x80" "r < 0x800" "0xC0 + r div 0x40 = a" "0x80 + r mod 0x40 = b"
proof -
  define x y where "x = a - 0xC0" "y = b - 0x80"
  have e: "a = 0xC0 + x" "b = 0x80 + y" "2 \<le> x" "x < 0x20" "y < 0x40" using assms by (simp_all add: x_y_def)
  have "a mod 0x20 = x" "b mod 0x40 = y"
    using low_bits [of x "0x20" 6] low_bits [of y "0x40" 2] e by simp_all
  then have r: "r = x * 0x40 + y" using assms(5) by simp
  then have "r div 0x40 = x" "r mod 0x40 = y" using e by simp_all
  then show "0xC0 + r div 0x40 = a" "0x80 + r mod 0x40 = b" using e by simp_all
  show "\<not> r < 0x80" using r e by linarith
  show "r < 0x800" using r e by linarith
qed

lemma three_bytes:
  assumes "0xE0 \<le> (a :: nat)" "a \<le> 0xEF" "0x80 \<le> b" "b \<le> 0xBF" "0x80 \<le> c" "c \<le> 0xBF"
    "a = 0xE0 \<longrightarrow> 0xA0 \<le> b" "a = 0xED \<longrightarrow> b \<le> 0x9F"
    "r = a mod 0x10 * 0x1000 + b mod 0x40 * 0x40 + c mod 0x40"
  shows "\<not> r < 0x800" "\<not> 0x10FFFF < r" "\<not> (0xD800 \<le> r \<and> r \<le> 0xDFFF)" "r < 0x10000"
    "0xE0 + r div 0x1000 = a" "0x80 + r div 0x40 mod 0x40 = b" "0x80 + r mod 0x40 = c"
proof -
  define x y z where "x = a - 0xE0" "y = b - 0x80" "z = c - 0x80"
  have e: "a = 0xE0 + x" "b = 0x80 + y" "c = 0x80 + z" "x < 0x10" "y < 0x40" "z < 0x40"
    using assms by (simp_all add: x_y_z_def)
  have "a mod 0x10 = x" "b mod 0x40 = y" "c mod 0x40 = z"
    using low_bits [of x "0x10" 14] low_bits [of y "0x40" 2] low_bits [of z "0x40" 2] e by simp_all
  then have r: "r = (x * 0x40 + y) * 0x40 + z" using assms(9) by simp
  define u where "u = x * 0x40 + y"
  have u: "u div 0x40 = x" "u mod 0x40 = y" using e by (simp_all add: u_def)
  have ru: "r = u * 0x40 + z" by (simp only: r u_def)
  then have "r div 0x40 = u" "r mod 0x40 = z" using e by simp_all
  moreover have "r div 0x1000 = r div 0x40 div 0x40" using div_mult2_eq [of r "0x40" "0x40"] by simp
  ultimately have "r div 0x1000 = x" "r div 0x40 mod 0x40 = y" "r mod 0x40 = z" using u by simp_all
  then show "0xE0 + r div 0x1000 = a" "0x80 + r div 0x40 mod 0x40 = b" "0x80 + r mod 0x40 = c"
    by (simp_all add: e)
  have q: "x = 0 \<longrightarrow> 0x20 \<le> y" "x = 0xD \<longrightarrow> y \<le> 0x1F" using assms(7,8) by (auto simp: e)
  show "\<not> r < 0x800" using q(1) r e by (cases "x = 0") auto
  have flat: "r = x * 0x1000 + y * 0x40 + z" using r by simp
  show "\<not> 0x10FFFF < r" using flat e by linarith
  show "r < 0x10000" using flat e by linarith
  show "\<not> (0xD800 \<le> r \<and> r \<le> 0xDFFF)"
    using q(2) r e by (cases "x < 0xD"; cases "x = 0xD") auto
qed

lemma four_bytes:
  assumes "0xF0 \<le> (a :: nat)" "a \<le> 0xF4" "0x80 \<le> b" "b \<le> 0xBF" "0x80 \<le> c" "c \<le> 0xBF"
    "0x80 \<le> d" "d \<le> 0xBF" "a = 0xF0 \<longrightarrow> 0x90 \<le> b" "a = 0xF4 \<longrightarrow> b \<le> 0x8F"
    "r = a mod 8 * 0x40000 + b mod 0x40 * 0x1000 + c mod 0x40 * 0x40 + d mod 0x40"
  shows "\<not> 0x10FFFF < r" "\<not> r < 0x10000"
    "0xF0 + r div 0x40000 = a" "0x80 + r div 0x1000 mod 0x40 = b" "0x80 + r div 0x40 mod 0x40 = c"
    "0x80 + r mod 0x40 = d"
proof -
  define x y z w where "x = a - 0xF0" "y = b - 0x80" "z = c - 0x80" "w = d - 0x80"
  have e: "a = 0xF0 + x" "b = 0x80 + y" "c = 0x80 + z" "d = 0x80 + w" "x \<le> 4" "y < 0x40" "z < 0x40" "w < 0x40"
    using assms by (simp_all add: x_y_z_w_def)
  have "a mod 8 = x" "b mod 0x40 = y" "c mod 0x40 = z" "d mod 0x40 = w"
    using low_bits [of x 8 30] low_bits [of y "0x40" 2] low_bits [of z "0x40" 2] low_bits [of w "0x40" 2] e
    by simp_all
  then have r: "r = ((x * 0x40 + y) * 0x40 + z) * 0x40 + w" using assms(11) by simp
  define u v where "u = x * 0x40 + y" "v = u * 0x40 + z"
  have u: "u div 0x40 = x" "u mod 0x40 = y" using e by (simp_all add: u_v_def)
  have v: "v div 0x40 = u" "v mod 0x40 = z" using e by (simp_all add: u_v_def(2))
  have "r = v * 0x40 + w" by (simp only: r u_v_def)
  then have "r div 0x40 = v" "r mod 0x40 = w" using e by simp_all
  moreover have "r div 0x1000 = r div 0x40 div 0x40" "r div 0x40000 = r div 0x1000 div 0x40"
    using div_mult2_eq [of r "0x40" "0x40"] div_mult2_eq [of r "0x1000" "0x40"] by simp_all
  ultimately have "r div 0x40000 = x" "r div 0x1000 mod 0x40 = y" "r div 0x40 mod 0x40 = z" "r mod 0x40 = w"
    using u v by simp_all
  then show "0xF0 + r div 0x40000 = a" "0x80 + r div 0x1000 mod 0x40 = b" "0x80 + r div 0x40 mod 0x40 = c"
    "0x80 + r mod 0x40 = d" by (simp_all add: e)
  have q: "x = 0 \<longrightarrow> 0x10 \<le> y" "x = 4 \<longrightarrow> y \<le> 0xF" using assms(9,10) by (auto simp: e)
  show "\<not> r < 0x10000" using q(1) r e by (cases "x = 0") auto
  show "\<not> 0x10FFFF < r" using q(2) r e by (cases "x = 4") auto
qed

lemma decode_rune_cases_ex:
  "byte a < 0x80 \<and> decode_rune (a # r) = (byte a, 1)
   \<or> decode_rune (a # r) = (rune_error, 1)
   \<or> (\<exists>b r'. r = b # r' \<and> in_range 0xC2 0xDF a \<and> cont b
        \<and> decode_rune (a # r) = (byte a mod 0x20 * 0x40 + low6 b, 2))
   \<or> (\<exists>b c r'. r = b # c # r' \<and> in_range 0xE0 0xEF a \<and> second_ok a b \<and> cont c
        \<and> decode_rune (a # r) = (byte a mod 0x10 * 0x1000 + low6 b * 0x40 + low6 c, 3))
   \<or> (\<exists>b c d r'. r = b # c # d # r' \<and> in_range 0xF0 0xF4 a \<and> second_ok a b \<and> cont c \<and> cont d
        \<and> decode_rune (a # r) = (byte a mod 8 * 0x40000 + low6 b * 0x1000 + low6 c * 0x40 + low6 d, 4))"
proof -
  consider "r = []" | b where "r = [b]" | b c where "r = [b, c]" | b c d r' where "r = b # c # d # r'"
    by (metis list.exhaust)
  then show ?thesis by cases (simp_all add: decode_rune_def)
qed

lemma encode_decode_rune:
  assumes "s \<noteq> []"
  shows "encode_rune (fst (decode_rune s)) =
     (if decode_rune s = (rune_error, 1) then replacement else take (rune_size s) s)"
proof -
  obtain a r where s: "s = a # r" using assms by (cases s) auto
  show ?thesis
    using decode_rune_cases_ex [of a r]
  proof (elim disjE exE conjE)
    assume "byte a < 0x80" "decode_rune (a # r) = (byte a, 1)"
    then show ?thesis by (simp add: encode_rune_def s)
  next
    assume "decode_rune (a # r) = (rune_error, 1)"
    then show ?thesis by (simp add: s)
  next
    fix b r' assume h: "r = b # r'" "in_range 0xC2 0xDF a" "cont b"
      "decode_rune (a # r) = (byte a mod 0x20 * 0x40 + low6 b, 2)"
    have p: "0xC2 \<le> byte a" "byte a \<le> 0xDF" "0x80 \<le> byte b" "byte b \<le> 0xBF"
      using h(2,3) by (simp_all add: in_range_def)
    have r: "fst (decode_rune s) = byte a mod 0x20 * 0x40 + byte b mod 0x40" by (simp add: h(4) s low6_def)
    have b: "\<not> fst (decode_rune s) < 0x80" "fst (decode_rune s) < 0x800"
      "0xC0 + fst (decode_rune s) div 0x40 = byte a" "0x80 + fst (decode_rune s) mod 0x40 = byte b"
      by (rule two_bytes [OF p r])+

    then have "encode_rune (fst (decode_rune s)) = [char_of (byte a), char_of (byte b)]"
      by (simp only: encode_rune_def) simp
    then show ?thesis by (simp add: s h(1) h(4) [unfolded h(1)])
  next
    fix b c r' assume h: "r = b # c # r'" "in_range 0xE0 0xEF a" "second_ok a b" "cont c"
      "decode_rune (a # r) = (byte a mod 0x10 * 0x1000 + low6 b * 0x40 + low6 c, 3)"
    have p: "0xE0 \<le> byte a" "byte a \<le> 0xEF" "0x80 \<le> byte b" "byte b \<le> 0xBF" "0x80 \<le> byte c" "byte c \<le> 0xBF"
      using h(2,4) second_ok_cont [OF h(3)] by (simp_all add: in_range_def)
    have q: "byte a = 0xE0 \<longrightarrow> 0xA0 \<le> byte b" "byte a = 0xED \<longrightarrow> byte b \<le> 0x9F"
      using h(3) by (auto simp: second_ok_def in_range_def)
    have r: "fst (decode_rune s) = byte a mod 0x10 * 0x1000 + byte b mod 0x40 * 0x40 + byte c mod 0x40"
      by (simp add: h(5) s low6_def)
    have b: "\<not> fst (decode_rune s) < 0x800" "\<not> 0x10FFFF < fst (decode_rune s)"
      "\<not> (0xD800 \<le> fst (decode_rune s) \<and> fst (decode_rune s) \<le> 0xDFFF)" "fst (decode_rune s) < 0x10000"
      "0xE0 + fst (decode_rune s) div 0x1000 = byte a" "0x80 + fst (decode_rune s) div 0x40 mod 0x40 = byte b"
      "0x80 + fst (decode_rune s) mod 0x40 = byte c"
      by (rule three_bytes [OF p q r])+

    then have "encode_rune (fst (decode_rune s)) = [char_of (byte a), char_of (byte b), char_of (byte c)]"
      by (simp only: encode_rune_def) simp
    then show ?thesis by (simp add: s h(1) h(5) [unfolded h(1)])
  next
    fix b c d r' assume h: "r = b # c # d # r'" "in_range 0xF0 0xF4 a" "second_ok a b" "cont c" "cont d"
      "decode_rune (a # r) = (byte a mod 8 * 0x40000 + low6 b * 0x1000 + low6 c * 0x40 + low6 d, 4)"
    have p: "0xF0 \<le> byte a" "byte a \<le> 0xF4" "0x80 \<le> byte b" "byte b \<le> 0xBF" "0x80 \<le> byte c" "byte c \<le> 0xBF"
      "0x80 \<le> byte d" "byte d \<le> 0xBF"
      using h(2,4,5) second_ok_cont [OF h(3)] by (simp_all add: in_range_def)
    have q: "byte a = 0xF0 \<longrightarrow> 0x90 \<le> byte b" "byte a = 0xF4 \<longrightarrow> byte b \<le> 0x8F"
      using h(3) by (auto simp: second_ok_def in_range_def)
    have r: "fst (decode_rune s)
        = byte a mod 8 * 0x40000 + byte b mod 0x40 * 0x1000 + byte c mod 0x40 * 0x40 + byte d mod 0x40"
      by (simp add: h(6) s low6_def)
    have b: "\<not> 0x10FFFF < fst (decode_rune s)" "\<not> fst (decode_rune s) < 0x10000"
      "0xF0 + fst (decode_rune s) div 0x40000 = byte a" "0x80 + fst (decode_rune s) div 0x1000 mod 0x40 = byte b"
      "0x80 + fst (decode_rune s) div 0x40 mod 0x40 = byte c" "0x80 + fst (decode_rune s) mod 0x40 = byte d"
      by (rule four_bytes [OF p q r])+

    then have "encode_rune (fst (decode_rune s)) = [char_of (byte a), char_of (byte b), char_of (byte c), char_of (byte d)]"
      by (simp only: encode_rune_def) simp
    then show ?thesis by (simp add: s h(1) h(6) [unfolded h(1)])
  qed
qed
text \<open>The runes of a string, as a \<open>range\<close> loop yields them.\<close>

function runes :: "gostring \<Rightarrow> nat list" where
  "runes s = (if s = [] then [] else fst (decode_rune s) # runes (drop (rune_size s) s))"
  by pat_completeness auto
termination
  by (relation "measure length") (auto simp: rune_size_pos)

declare runes.simps [simp del]

text \<open>\<open>strings.ToValidUTF8\<close> byte by byte: every invalid byte becomes U+FFFD.\<close>

function to_valid :: "gostring \<Rightarrow> gostring" where
  "to_valid s =
     (if s = [] then []
      else (if decode_rune s = (rune_error, 1) then replacement else take (rune_size s) s)
             @ to_valid (drop (rune_size s) s))"
  by pat_completeness auto
termination
  by (relation "measure length") (auto simp: rune_size_pos)

declare to_valid.simps [simp del]

lemma to_valid_Nil [simp]: "to_valid [] = []"
  by (simp add: to_valid.simps)

lemma to_valid_runes: "to_valid s = concat (map encode_rune (runes s))"
proof (induction s rule: to_valid.induct)
  case (1 s)
  show ?case
  proof (cases "s = []")
    case False
    with 1 show ?thesis
      by (simp add: to_valid.simps [of s] runes.simps [of s] encode_decode_rune [OF False])
  qed (simp add: runes.simps)
qed

lemma to_valid_id: "valid_utf8 s \<Longrightarrow> to_valid s = s"
proof (induction s rule: to_valid.induct)
  case (1 s)
  then show ?case by (cases "s = []") (auto simp: to_valid.simps [of s] valid_utf8.simps [of s] split: if_splits)
qed

lemma to_valid_length: "length (to_valid s) \<le> 3 * length s"
proof (induction s rule: to_valid.induct)
  case (1 s)
  show ?case
  proof (cases "s = []")
    case False
    then show ?thesis using 1 rune_size_bounds [OF False] by (auto simp: to_valid.simps [of s])
  qed simp
qed

lemma to_valid_eq_Nil [simp]: "to_valid s = [] \<longleftrightarrow> s = []"
  using rune_size_pos [of s] by (cases "s = []") (auto simp: to_valid.simps [of s])

lemma to_valid_valid: "valid_utf8 (to_valid s)"
proof (induction s rule: to_valid.induct)
  case (1 s)
  show ?case
  proof (cases "s = []")
    case False
    have "valid_utf8 replacement" by (simp add: valid_utf8.simps decode_rune_def in_range_def low6_def second_ok_def)
    moreover have "valid_utf8 (take (rune_size s) s)" if "decode_rune s \<noteq> (rune_error, 1)"
      using that decode_rune_take [OF False order.refl] rune_size_bounds [OF False] False
      by (simp add: valid_utf8.simps [of "take (rune_size s) s"])
    ultimately show ?thesis
      using 1 False by (simp add: to_valid.simps [of s] valid_utf8_append del: append.simps)
  qed simp
qed

definition is_ascii :: "gostring \<Rightarrow> bool" where
  "is_ascii s = list_all (\<lambda>c. byte c < 0x80) s"

lemma ascii_valid: "is_ascii s \<Longrightarrow> valid_utf8 s"
  by (induction s) (simp_all add: is_ascii_def)

lemmas to_valid_ascii [simp] = to_valid_id [OF ascii_valid]

text \<open>
  \<open>strings.ToUpper\<close> and \<open>strings.ToLower\<close>: bytewise on ASCII strings, otherwise rune by rune
  with the case tables of package \<open>unicode\<close>, which are data and stay a parameter here.
\<close>

definition to_upper :: "(nat \<Rightarrow> nat) \<Rightarrow> gostring \<Rightarrow> gostring" where
  "to_upper table s =
     (if is_ascii s then map upper_char s else concat (map (encode_rune \<circ> table) (runes s)))"

definition to_lower :: "(nat \<Rightarrow> nat) \<Rightarrow> gostring \<Rightarrow> gostring" where
  "to_lower table s =
     (if is_ascii s then map lower_char s else concat (map (encode_rune \<circ> table) (runes s)))"

end
