(* ===== verification/Text_Util.thy ===== *)
theory Text_Util
  imports Go_Utf8
begin

text \<open>
  Package \<open>internal/textutil\<close>: \<open>StripANSI\<close>, \<open>EscapeCodeFence\<close> and \<open>SplitUTF8\<close>.
  The regular expression of \<open>StripANSI\<close> is kept as syntax, with the leftmost-first (greedy,
  backtracking) semantics that Go's \<open>regexp\<close> documents; its classes are ASCII, and no ASCII
  byte occurs inside a multi-byte rune, so matching bytes is matching runes.
\<close>

section \<open>StripANSI\<close>

datatype regex =
    Class "char \<Rightarrow> bool"        \<comment> \<open>one byte of a class\<close>
  | ClassStar "char \<Rightarrow> bool"    \<comment> \<open>greedy repetition of a class\<close>
  | Seq regex regex
  | Alt regex regex            \<comment> \<open>the left alternative is preferred\<close>

text \<open>The rests of the input after every possible match at its start, in order of preference.\<close>

fun star_rests :: "(char \<Rightarrow> bool) \<Rightarrow> gostring \<Rightarrow> gostring list" where
  "star_rests p [] = [[]]"
| "star_rests p (c # cs) = (if p c then star_rests p cs @ [c # cs] else [c # cs])"

fun rests :: "regex \<Rightarrow> gostring \<Rightarrow> gostring list" where
  "rests (Class p) s = (case s of [] \<Rightarrow> [] | c # cs \<Rightarrow> if p c then [cs] else [])"
| "rests (ClassStar p) s = star_rests p s"
| "rests (Seq a b) s = concat (map (rests b) (rests a s))"
| "rests (Alt a b) s = rests a s @ rests b s"

abbreviation lit :: "char \<Rightarrow> regex" where
  "lit c \<equiv> Class (\<lambda>d. d = c)"

definition csi_param :: "char \<Rightarrow> bool" where  \<comment> \<open>\<open>[0-?]\<close>\<close>
  "csi_param c \<longleftrightarrow> 0x30 \<le> byte c \<and> byte c \<le> 0x3F"

definition csi_inter :: "char \<Rightarrow> bool" where  \<comment> \<open>blank to slash\<close>
  "csi_inter c \<longleftrightarrow> 0x20 \<le> byte c \<and> byte c \<le> 0x2F"

definition csi_final :: "char \<Rightarrow> bool" where  \<comment> \<open>at-sign to tilde\<close>
  "csi_final c \<longleftrightarrow> 0x40 \<le> byte c \<and> byte c \<le> 0x7E"

definition ansi_pattern :: regex where
  "ansi_pattern =
     Seq (lit ESC)
       (Alt (Seq (lit CHR ''['') (Seq (ClassStar csi_param) (Seq (ClassStar csi_inter) (Class csi_final))))
            (Seq (lit CHR '']'')
              (Seq (ClassStar (\<lambda>c. c \<noteq> BEL)) (Alt (lit BEL) (Seq (lit ESC) (lit BACKSLASH))))))"

lemma star_rests_le: "r \<in> set (star_rests p s) \<Longrightarrow> length r \<le> length s"
  by (induction s arbitrary: r) (auto split: if_splits simp: le_Suc_eq)

lemma rests_le: "r \<in> set (rests e s) \<Longrightarrow> length r \<le> length s"
proof (induction e arbitrary: r s)
  case (Seq a b)
  then obtain t where "t \<in> set (rests a s)" "r \<in> set (rests b t)" by auto
  with Seq.IH show ?case by (meson le_trans)
qed (auto split: list.splits if_splits dest: star_rests_le)

lemma rests_Class_less: "r \<in> set (rests (Seq (Class p) e) s) \<Longrightarrow> length r < length s"
proof (cases s)
  case (Cons c cs)
  assume "r \<in> set (rests (Seq (Class p) e) s)"
  with Cons have "r \<in> set (rests e cs)" by (simp split: if_splits)
  then have "length r \<le> length cs" by (rule rests_le)
  with Cons show ?thesis by simp
qed simp

lemma ansi_rests_less: "rests ansi_pattern s = r # rs \<Longrightarrow> length r < length s"
proof -
  assume "rests ansi_pattern s = r # rs"
  then have "r \<in> set (rests ansi_pattern s)" by simp
  then show ?thesis unfolding ansi_pattern_def by (rule rests_Class_less)
qed

text \<open>\<open>ReplaceAllString(s, "")\<close>: scan for the leftmost match, drop it, go on after it.\<close>

function strip_ansi :: "gostring \<Rightarrow> gostring" where
  "strip_ansi [] = []"
| "strip_ansi (c # cs) =
     (case rests ansi_pattern (c # cs) of
        r # _ \<Rightarrow> strip_ansi r
      | [] \<Rightarrow> c # strip_ansi cs)"
  by pat_completeness auto
termination
  by (relation "measure length") (auto dest: ansi_rests_less)

lemma ansi_rests_no_esc: "c \<noteq> ESC \<Longrightarrow> rests ansi_pattern (c # s) = []"
  by (simp add: ansi_pattern_def)

lemma strip_ansi_plain_Cons: "c \<noteq> ESC \<Longrightarrow> strip_ansi (c # s) = c # strip_ansi s"
  by (simp add: ansi_rests_no_esc)

lemma strip_ansi_plain_append: "ESC \<notin> set p \<Longrightarrow> strip_ansi (p @ s) = p @ strip_ansi s"
proof (induction p)
  case (Cons c p)
  then have "c \<noteq> ESC" "ESC \<notin> set p" by auto
  with Cons.IH show ?case by (simp del: strip_ansi.simps add: strip_ansi_plain_Cons)
qed simp

lemma strip_ansi_plain: "ESC \<notin> set s \<Longrightarrow> strip_ansi s = s"
  using strip_ansi_plain_append [of s "[]"] by simp

text \<open>Preferred matches compose.\<close>

lemma star_rests_greedy:
  "\<forall>c \<in> set xs. p c \<Longrightarrow> \<not> p d \<Longrightarrow> \<exists>ts. star_rests p (xs @ d # r) = (d # r) # ts"
  by (induction xs) auto

lemma rests_Seq_first:
  assumes "\<exists>ts. rests a s = t # ts" "\<exists>us. rests b t = u # us"
  shows "\<exists>us. rests (Seq a b) s = u # us"
  using assms by auto

lemma csi_first:
  assumes "\<forall>c \<in> set ps. csi_param c" "\<forall>c \<in> set is. csi_inter c" "csi_final f"
  shows "\<exists>us. rests (Seq (ClassStar csi_param) (Seq (ClassStar csi_inter) (Class csi_final)))
               (ps @ is @ f # r) = r # us"
proof -
  have disj: "\<And>c. csi_inter c \<Longrightarrow> \<not> csi_param c" "\<not> csi_param f" "\<not> csi_inter f"
    using assms(3) by (auto simp: csi_param_def csi_inter_def csi_final_def)
  have "\<exists>ts. star_rests csi_param (ps @ is @ f # r) = (is @ f # r) # ts"
    using assms disj by (cases "is") (auto intro!: star_rests_greedy)
  moreover have "\<exists>ts. star_rests csi_inter (is @ f # r) = (f # r) # ts"
    using assms disj by (intro star_rests_greedy) auto
  ultimately show ?thesis using assms(3)
    by (intro rests_Seq_first [where t = "is @ f # r"] rests_Seq_first [where t = "f # r"]) auto
qed

lemma strip_ansi_csi:
  assumes "\<forall>c \<in> set ps. csi_param c" "\<forall>c \<in> set is. csi_inter c" "csi_final f"
  shows "strip_ansi (ESC # CHR ''['' # ps @ is @ f # r) = strip_ansi r"
proof -
  obtain us where "rests (Seq (ClassStar csi_param) (Seq (ClassStar csi_inter) (Class csi_final)))
               (ps @ is @ f # r) = r # us"
    using csi_first [OF assms] by blast
  then have "\<exists>us. rests ansi_pattern (ESC # CHR ''['' # ps @ is @ f # r) = r # us"
    by (simp add: ansi_pattern_def)
  then show ?thesis by auto
qed

text \<open>An operating-system command runs up to the first BEL after it, whatever lies between.\<close>

lemma strip_ansi_osc_bel:
  assumes "BEL \<notin> set body"
  shows "strip_ansi (ESC # CHR '']'' # body @ BEL # r) = strip_ansi r"
proof -
  have "\<exists>ts. star_rests (\<lambda>c. c \<noteq> BEL) (body @ BEL # r) = (BEL # r) # ts"
    using assms by (intro star_rests_greedy) auto
  then have "\<exists>us. rests ansi_pattern (ESC # CHR '']'' # body @ BEL # r) = r # us"
    by (auto simp: ansi_pattern_def)
  then show ?thesis by auto
qed

text \<open>Terminal output as a sequence of segments.\<close>

datatype segment =
    Plain gostring
  | Csi gostring gostring char      \<comment> \<open>parameters, intermediates, final byte\<close>
  | OscBel gostring                 \<comment> \<open>body, closed by BEL\<close>

fun render_segment :: "segment \<Rightarrow> gostring" where
  "render_segment (Plain t) = t"
| "render_segment (Csi ps is f) = ESC # CHR ''['' # ps @ is @ [f]"
| "render_segment (OscBel b) = ESC # CHR '']'' # b @ [BEL]"

fun segment_ok :: "segment \<Rightarrow> bool" where
  "segment_ok (Plain t) = (ESC \<notin> set t)"
| "segment_ok (Csi ps is f) = (list_all csi_param ps \<and> list_all csi_inter is \<and> csi_final f)"
| "segment_ok (OscBel b) = (BEL \<notin> set b)"

fun segment_text :: "segment \<Rightarrow> gostring" where
  "segment_text (Plain t) = t"
| "segment_text _ = []"

lemma strip_ansi_segments:
  "list_all segment_ok segs \<Longrightarrow>
     strip_ansi (concat (map render_segment segs)) = concat (map segment_text segs)"
proof (induction segs)
  case (Cons g segs)
  then have IH: "strip_ansi (concat (map render_segment segs)) = concat (map segment_text segs)"
    and ok: "segment_ok g" by auto
  show ?case
  proof (cases g)
    case (Plain t)
    with ok IH show ?thesis by (simp del: strip_ansi.simps add: strip_ansi_plain_append)
  next
    case (Csi ps "is" f)
    with ok IH show ?thesis
      by (simp del: strip_ansi.simps add: strip_ansi_csi list_all_iff)
  next
    case (OscBel b)
    with ok IH show ?thesis by (simp del: strip_ansi.simps add: strip_ansi_osc_bel)
  qed
qed simp

text \<open>Stripping only removes bytes.\<close>

lemma star_rests_suffix: "r \<in> set (star_rests p s) \<Longrightarrow> suffix r s"
  by (induction s arbitrary: r) (auto split: if_splits intro: suffix_ConsI)

lemma rests_suffix: "r \<in> set (rests e s) \<Longrightarrow> suffix r s"
proof (induction e arbitrary: r s)
  case (Class p)
  then show ?case by (auto split: list.splits if_splits intro: suffix_ConsI)
next
  case (Seq a b)
  then obtain t where "t \<in> set (rests a s)" "r \<in> set (rests b t)" by auto
  with Seq.IH show ?case by (meson suffix_order.trans)
qed (auto dest: star_rests_suffix)

lemma strip_ansi_subseq: "subseq (strip_ansi s) s"
proof (induction s rule: strip_ansi.induct)
  case (2 c cs)
  show ?case
  proof (cases "rests ansi_pattern (c # cs)")
    case (Cons r rs)
    then have "suffix r (c # cs)" using rests_suffix by (metis list.set_intros(1))
    then have "subseq r (c # cs)" by (auto simp: suffix_def)
    with 2(2) [OF Cons] Cons show ?thesis by (auto intro: subseq_order.trans)
  qed (use 2 in simp)
qed simp

lemma length_strip_ansi: "length (strip_ansi s) \<le> length s"
  by (rule list_emb_length) (rule strip_ansi_subseq)

section \<open>EscapeCodeFence\<close>

definition fence :: gostring where
  "fence = [TICK, TICK, TICK]"

text \<open>The replacement: a backtick, a zero-width space (U+200B), two backticks.\<close>

definition broken_fence :: gostring where
  "broken_fence = [TICK, CHR 0xE2, CHR 0x80, CHR 0x8B, TICK, TICK]"

definition escape_code_fence :: "gostring \<Rightarrow> gostring" where
  "escape_code_fence s = replace_all fence broken_fence s"

abbreviation has_ticks :: "nat \<Rightarrow> gostring \<Rightarrow> bool" where
  "has_ticks n s \<equiv> sublist (replicate n TICK) s"

lemma escape_code_fence_Nil [simp]: "escape_code_fence [] = []"
  by (simp add: escape_code_fence_def)

lemma escape_code_fence_hit:
  "escape_code_fence (TICK # TICK # TICK # r) = broken_fence @ escape_code_fence r"
  by (simp add: escape_code_fence_def fence_def)

lemma escape_code_fence_miss:
  "\<not> prefix fence (c # s) \<Longrightarrow> escape_code_fence (c # s) = c # escape_code_fence s"
proof -
  assume "\<not> prefix fence (c # s)"
  then have "strip_prefix fence (c # s) = None"
    by (auto simp: strip_prefix_None_iff prefix_def)
  moreover have "fence \<noteq> []" by (simp add: fence_def)
  ultimately show ?thesis by (simp add: escape_code_fence_def del: strip_prefix.simps)
qed

lemma escape_code_fence_induct [case_names Nil hit miss]:
  assumes "P []"
    and "\<And>r. P r \<Longrightarrow> P (TICK # TICK # TICK # r)"
    and "\<And>c s. \<not> prefix fence (c # s) \<Longrightarrow> P s \<Longrightarrow> P (c # s)"
  shows "P s"
proof (induction s rule: length_induct)
  case (1 s)
  show ?case
  proof (cases s)
    case (Cons c t)
    show ?thesis
    proof (cases "prefix fence s")
      case True
      then obtain r where "s = TICK # TICK # TICK # r" by (auto simp: fence_def prefix_def)
      with 1 assms(2) show ?thesis by simp
    next
      case False
      with 1 assms(3) Cons show ?thesis by simp
    qed
  qed (simp add: assms(1))
qed

lemma prefix_first: "prefix (a # b # x) s \<Longrightarrow> prefix [a] s"
  by (auto simp: prefix_def)

lemma prefix_tick_escape: "prefix [TICK] (escape_code_fence s) \<longleftrightarrow> prefix [TICK] s"
proof (cases s)
  case (Cons c t)
  show ?thesis
  proof (cases "prefix fence s")
    case True
    then obtain r where "s = TICK # TICK # TICK # r" by (auto simp: fence_def prefix_def)
    then show ?thesis by (simp add: escape_code_fence_hit broken_fence_def)
  qed (use Cons in \<open>simp add: escape_code_fence_miss\<close>)
qed simp

lemma prefix_two_ticks_escape:
  "prefix [TICK, TICK] (escape_code_fence s) \<Longrightarrow> prefix [TICK, TICK] s"
proof (cases s)
  case (Cons c t)
  assume pre: "prefix [TICK, TICK] (escape_code_fence s)"
  show ?thesis
  proof (cases "prefix fence s")
    case True
    then show ?thesis by (auto simp: fence_def prefix_def)
  next
    case False
    with pre Cons have "c = TICK" "prefix [TICK] (escape_code_fence t)"
      by (auto simp: escape_code_fence_miss)
    then show ?thesis using Cons by (simp add: prefix_tick_escape)
  qed
qed simp

text \<open>
  The escaped text holds a code fence exactly when the original holds four backticks in a
  row: the replacement ends in two backticks, which join with a backtick that follows.
\<close>

lemma escape_code_fence_has_fence:
  "has_ticks 3 (escape_code_fence s) \<longleftrightarrow> has_ticks 4 s"
proof (induction s rule: escape_code_fence_induct)
  case Nil
  then show ?case by (simp add: numeral_eq_Suc)
next
  case (hit r)
  have "has_ticks 3 (broken_fence @ escape_code_fence r) \<longleftrightarrow>
          prefix [TICK] r \<or> has_ticks 3 (escape_code_fence r)"
    using prefix_tick_escape [of r] prefix_first [of TICK TICK "[]" "escape_code_fence r"]
    by (auto simp: broken_fence_def numeral_eq_Suc sublist_Cons_right dest: prefix_first)
  moreover have "has_ticks 4 (TICK # TICK # TICK # r) \<longleftrightarrow> prefix [TICK] r \<or> has_ticks 4 r"
    by (auto simp: numeral_eq_Suc sublist_Cons_right dest: prefix_first)
  ultimately show ?case using hit by (simp add: escape_code_fence_hit)
next
  case (miss c s)
  have no3: "\<not> (c = TICK \<and> prefix [TICK, TICK] s)"
    using miss(1) by (auto simp: fence_def)
  then have "\<not> (c = TICK \<and> prefix [TICK, TICK] (escape_code_fence s))"
    using prefix_two_ticks_escape by blast
  then have "has_ticks 3 (c # escape_code_fence s) \<longleftrightarrow> has_ticks 3 (escape_code_fence s)"
    by (auto simp: numeral_eq_Suc sublist_Cons_right)
  moreover have "has_ticks 4 (c # s) \<longleftrightarrow> has_ticks 4 s"
    using no3 by (auto simp: numeral_eq_Suc sublist_Cons_right prefix_def)
  ultimately show ?case using miss by (simp add: escape_code_fence_miss)
qed

section \<open>SplitUTF8\<close>

text \<open>Move the cut back to a rune start; index 0 is not examined.\<close>

fun back_to_start :: "gostring \<Rightarrow> nat \<Rightarrow> nat" where
  "back_to_start s 0 = 0"
| "back_to_start s (Suc k) = (if rune_start (s ! Suc k) then Suc k else back_to_start s k)"

text \<open>\<open>strings.LastIndexByte\<close>; \<open>None\<close> stands for -1.\<close>

fun last_index :: "char \<Rightarrow> gostring \<Rightarrow> nat option" where
  "last_index c [] = None"
| "last_index c (d # ds) =
     (case last_index c ds of
        Some i \<Rightarrow> Some (Suc i)
      | None \<Rightarrow> if d = c then Some 0 else None)"

definition cut_point :: "gostring \<Rightarrow> nat \<Rightarrow> nat" where
  "cut_point s max_bytes =
     (let cut0 = back_to_start s max_bytes;
          cut = (if cut0 = 0 then rune_size s else cut0);
          search_start = cut div 2
      in case last_index NL (take (cut - search_start) (drop search_start s)) of
           Some idx \<Rightarrow> search_start + idx + 1
         | None \<Rightarrow> cut)"

lemma back_to_start_le: "back_to_start s m \<le> m"
  by (induction s m rule: back_to_start.induct) auto

lemma back_to_start_rune: "0 < back_to_start s m \<Longrightarrow> rune_start (s ! back_to_start s m)"
  by (induction s m rule: back_to_start.induct) (auto split: if_splits)

lemma back_to_start_zero: "back_to_start s m = 0 \<Longrightarrow> 0 < i \<Longrightarrow> i \<le> m \<Longrightarrow> \<not> rune_start (s ! i)"
  by (induction s m rule: back_to_start.induct) (auto split: if_splits simp: le_Suc_eq)

lemma last_index_Some: "last_index c s = Some i \<Longrightarrow> i < length s \<and> s ! i = c"
  by (induction c s arbitrary: i rule: last_index.induct) (auto split: option.splits if_splits)

lemma last_index_None: "last_index c s = None \<longleftrightarrow> c \<notin> set s"
  by (induction c s rule: last_index.induct) (auto split: option.splits)

text \<open>What the loop body knows of its cut: the raw cut, and the cut after a newline.\<close>

lemma cut_point_cases:
  assumes "m < length s"
  obtains (raw) "0 < back_to_start s m" "cut_point s m = back_to_start s m"
    | (rune) "back_to_start s m = 0" "cut_point s m = rune_size s"
    | (newline) "0 < cut_point s m" "s ! (cut_point s m - 1) = NL"
        "cut_point s m \<le> (if back_to_start s m = 0 then rune_size s else back_to_start s m)"
proof -
  define cut where "cut = (if back_to_start s m = 0 then rune_size s else back_to_start s m)"
  have "s \<noteq> []" using assms by auto
  then have le: "cut \<le> length s"
    using back_to_start_le [of s m] rune_size_bounds [of s] assms by (auto simp: cut_def)
  show thesis
  proof (cases "last_index NL (take (cut - cut div 2) (drop (cut div 2) s))")
    case None
    then have "cut_point s m = cut" by (simp add: cut_point_def cut_def Let_def)
    then show thesis using raw rune by (auto simp: cut_def split: if_splits)
  next
    case (Some idx)
    then have c: "cut_point s m = cut div 2 + idx + 1" by (simp add: cut_point_def cut_def Let_def)
    from last_index_Some [OF Some] le
    have "idx < cut - cut div 2" "s ! (cut div 2 + idx) = NL" by auto
    then show thesis using c newline by (simp add: cut_def)
  qed
qed

lemma cut_point_bounds:
  assumes "m < length s"
  shows "0 < cut_point s m" "cut_point s m \<le> length s" "4 \<le> m \<Longrightarrow> cut_point s m \<le> m"
proof -
  have s: "s \<noteq> []" using assms by auto
  note b = rune_size_bounds [OF s] back_to_start_le [of s m]
  show "0 < cut_point s m"
    by (rule cut_point_cases [OF assms]) (use b in auto)
  show "cut_point s m \<le> length s"
    by (rule cut_point_cases [OF assms]) (use b assms in \<open>auto split: if_splits\<close>)
  show "cut_point s m \<le> m" if "4 \<le> m"
    by (rule cut_point_cases [OF assms]) (use b that in \<open>auto split: if_splits\<close>)
qed

text \<open>The loop of \<open>SplitUTF8\<close>; it ends because every cut is positive.\<close>

function split_loop :: "nat \<Rightarrow> gostring \<Rightarrow> gostring list" where
  "split_loop m s =
     (if m < length s then take (cut_point s m) s # split_loop m (drop (cut_point s m) s)
      else if s \<noteq> [] then [s] else [])"
  by pat_completeness auto
termination
  by (relation "measure (\<lambda>(m, s). length s)") (auto intro!: diff_less simp: cut_point_bounds(1))

declare split_loop.simps [simp del]

definition split_utf8 :: "gostring \<Rightarrow> int \<Rightarrow> gostring list" where
  "split_utf8 s max_bytes =
     (if max_bytes \<le> 0 \<or> int (length s) \<le> max_bytes then [s] else split_loop (nat max_bytes) s)"

lemma concat_split_loop: "concat (split_loop m s) = s"
proof (induction m s rule: split_loop.induct)
  case (1 m s)
  then show ?case by (simp add: split_loop.simps [of m s])
qed

lemma split_loop_parts:
  "4 \<le> m \<Longrightarrow> p \<in> set (split_loop m s) \<Longrightarrow> p \<noteq> [] \<and> length p \<le> m"
proof (induction m s rule: split_loop.induct)
  case (1 m s)
  show ?case
  proof (cases "m < length s")
    case True
    with 1(3) consider "p = take (cut_point s m) s" | "p \<in> set (split_loop m (drop (cut_point s m) s))"
      by (auto simp: split_loop.simps [of m s])
    then show ?thesis
      using 1(1) [OF True 1(2)] cut_point_bounds [OF True] 1(2) True by cases auto
  next
    case False
    with 1 show ?thesis by (auto simp: split_loop.simps [of m s] split: if_splits)
  qed
qed

lemma cut_point_boundary:
  assumes "m < length s"
  shows "cut_point s m = length s \<or> rune_start (s ! cut_point s m)
         \<or> cut_point s m = rune_size s \<or> s ! (cut_point s m - 1) = NL"
  by (rule cut_point_cases [OF assms]) (auto dest: back_to_start_rune)

lemma valid_utf8_after_newline:
  assumes "valid_utf8 s" "0 < i" "i \<le> length s" "s ! (i - 1) = NL"
  shows "valid_utf8 (take i s) \<and> valid_utf8 (drop i s)"
proof -
  have lt: "i - 1 < length s" using assms by simp
  have "rune_start (s ! (i - 1))" using assms(4) by (simp add: rune_start_def)
  then have v: "valid_utf8 (take (i - 1) s)" "valid_utf8 (drop (i - 1) s)"
    using valid_utf8_split [OF assms(1), of "i - 1"] lt by auto
  have "drop (i - 1) s = NL # drop i s"
    using Cons_nth_drop_Suc [OF lt] assms(2,4) by simp
  moreover have "take i s = take (i - 1) s @ [NL]"
    using take_Suc_conv_app_nth [OF lt] assms(2,4) by simp
  ultimately show ?thesis using v by (auto intro: valid_utf8_append)
qed

lemma valid_utf8_first_rune:
  assumes "valid_utf8 s" "s \<noteq> []"
  shows "valid_utf8 (take (rune_size s) s) \<and> valid_utf8 (drop (rune_size s) s)"
proof -
  have d: "valid_utf8 (drop (rune_size s) s)" and ok: "decode_rune s \<noteq> (rune_error, 1)"
    using assms by (auto simp: valid_utf8.simps [of s] split: if_splits)
  have dec: "decode_rune (take (rune_size s) s) = decode_rune s"
    by (rule decode_rune_take [OF assms(2)]) simp
  have "take (rune_size s) s \<noteq> []" using assms(2) rune_size_pos [of s] by simp
  with ok dec have "valid_utf8 (take (rune_size s) s)"
    by (simp add: valid_utf8.simps [of "take (rune_size s) s"])
  with d show ?thesis by simp
qed

lemma cut_point_valid:
  assumes "m < length s" "valid_utf8 s"
  shows "valid_utf8 (take (cut_point s m) s)" "valid_utf8 (drop (cut_point s m) s)"
proof -
  have s: "s \<noteq> []" using assms by auto
  note b = cut_point_bounds(1,2) [OF assms(1)]
  have "valid_utf8 (take (cut_point s m) s) \<and> valid_utf8 (drop (cut_point s m) s)"
    using cut_point_boundary [OF assms(1)] valid_utf8_split [OF assms(2), of "cut_point s m"]
      valid_utf8_first_rune [OF assms(2) s] valid_utf8_after_newline [OF assms(2) b] b(2)
    by (metis le_neq_implies_less)
  then show "valid_utf8 (take (cut_point s m) s)" "valid_utf8 (drop (cut_point s m) s)" by auto
qed

lemma split_loop_valid: "valid_utf8 s \<Longrightarrow> p \<in> set (split_loop m s) \<Longrightarrow> valid_utf8 p"
proof (induction m s rule: split_loop.induct)
  case (1 m s)
  then show ?case
    using cut_point_valid [of m s]
    by (auto simp: split_loop.simps [of m s] split: if_splits)
qed

lemma concat_split_utf8 [simp]: "concat (split_utf8 s m) = s"
  by (simp add: split_utf8_def concat_split_loop)

lemma split_utf8_length: "4 \<le> m \<Longrightarrow> p \<in> set (split_utf8 s m) \<Longrightarrow> int (length p) \<le> m"
  using split_loop_parts [of "nat m" p s] by (auto simp: split_utf8_def le_nat_iff split: if_splits)

lemma split_utf8_nonempty: "4 \<le> m \<Longrightarrow> s \<noteq> [] \<Longrightarrow> p \<in> set (split_utf8 s m) \<Longrightarrow> p \<noteq> []"
  using split_loop_parts [of "nat m" p s] by (auto simp: split_utf8_def le_nat_iff split: if_splits)

lemma split_utf8_valid: "valid_utf8 s \<Longrightarrow> p \<in> set (split_utf8 s m) \<Longrightarrow> valid_utf8 p"
  by (auto simp: split_utf8_def split_loop_valid split: if_splits)

lemma split_utf8_sublist: "p \<in> set (split_utf8 s m) \<Longrightarrow> sublist p s"
  by (metis concat_split_utf8 split_list concat_append concat.simps(2) sublist_appendI)

lemma split_utf8_Nil [simp]: "split_utf8 [] m = [[]]"
  by (auto simp: split_utf8_def)

text \<open>A cut keeps to the limit or takes a single rune, and wastes at most half of the limit.\<close>

lemma cut_point_small:
  assumes "m < length s" "0 < m"
  shows "cut_point s m \<le> m \<or> cut_point s m = rune_size s"
proof (rule cut_point_cases [OF assms(1)])
  assume c: "0 < cut_point s m" "s ! (cut_point s m - 1) = NL"
    "cut_point s m \<le> (if back_to_start s m = 0 then rune_size s else back_to_start s m)"
  show ?thesis
  proof (cases "back_to_start s m = 0 \<and> 1 < cut_point s m")
    case True
    then have "0 < cut_point s m - 1" "cut_point s m - 1 < rune_size s" using c(3) by auto
    then have "\<not> rune_start (s ! (cut_point s m - 1))" by (rule rune_inner_cont)
    then show ?thesis using c(2) by (simp add: rune_start_def)
  next
    case False
    then show ?thesis using c(3) back_to_start_le [of s m] assms(2) by (auto split: if_splits)
  qed
qed (use back_to_start_le [of s m] in auto)

lemma rune_size_take: "s \<noteq> [] \<Longrightarrow> rune_size (take (rune_size s) s) = length (take (rune_size s) s)"
  using decode_rune_take [of s "rune_size s"] rune_size_bounds [of s] by simp

lemma valid_rune_start_hd: "s \<noteq> [] \<Longrightarrow> decode_rune s \<noteq> (rune_error, 1) \<Longrightarrow> rune_start (s ! 0)"
  by (cases s) (auto simp: decode_rune_def in_range_def rune_start_def split: if_splits list.splits)

lemma valid_rune_start_near:
  "valid_utf8 s \<Longrightarrow> m < length s \<Longrightarrow> \<exists>k \<le> min m 3. rune_start (s ! (m - k))"
proof (induction s arbitrary: m rule: valid_utf8.induct)
  case (1 s)
  have s: "s \<noteq> []" using "1.prems"(2) by auto
  let ?n = "rune_size s"
  have ok: "decode_rune s \<noteq> (rune_error, 1)" "valid_utf8 (drop ?n s)"
    using "1.prems"(1) s by (simp_all add: valid_utf8.simps [of s] split: if_splits)
  note n = rune_size_bounds [OF s]
  show ?case
  proof (cases "m < ?n")
    case True
    then show ?thesis using valid_rune_start_hd [OF s ok(1)] n by (intro exI [of _ m]) simp
  next
    case False
    then have "m - ?n < length (drop ?n s)" using "1.prems"(2) by simp
    from "1.IH" [OF s ok(1,2) this] obtain k where
      k: "k \<le> min (m - ?n) 3" "rune_start (drop ?n s ! (m - ?n - k))" by blast
    have "?n + (m - ?n - k) = m - k" using k(1) False by linarith
    with k n show ?thesis by (intro exI [of _ k]) auto
  qed
qed

lemma back_to_start_ge: "rune_start (s ! i) \<Longrightarrow> i \<le> m \<Longrightarrow> i \<le> back_to_start s m"
  by (induction s m rule: back_to_start.induct) (auto simp: le_Suc_eq)

lemma cut_point_large:
  assumes "valid_utf8 s" "m < length s"
  shows "m \<le> 2 * cut_point s m + 3"
proof -
  obtain k where k: "k \<le> min m 3" "rune_start (s ! (m - k))" using valid_rune_start_near [OF assms] by blast
  have b: "m - k \<le> back_to_start s m" by (rule back_to_start_ge [OF k(2)]) simp
  show ?thesis
  proof (cases "last_index NL (take (back_to_start s m - back_to_start s m div 2) (drop (back_to_start s m div 2) s))")
    case None
    then have "back_to_start s m = 0 \<or> cut_point s m = back_to_start s m"
      by (simp add: cut_point_def Let_def)
    with b k(1) show ?thesis by auto
  next
    case (Some idx)
    then have "back_to_start s m = 0 \<or> cut_point s m = back_to_start s m div 2 + idx + 1"
      by (simp add: cut_point_def Let_def)
    with b k(1) show ?thesis by auto
  qed
qed

lemma split_loop_pieces:
  "valid_utf8 s \<Longrightarrow> 0 < m \<Longrightarrow>
     list_all (\<lambda>p. p \<noteq> [] \<and> (length p \<le> m \<or> length p = rune_size p)) (split_loop m s)
     \<and> list_all (\<lambda>p. m \<le> 2 * length p + 3) (butlast (split_loop m s))"
proof (induction m s rule: split_loop.induct)
  case (1 m s)
  show ?case
  proof (cases "m < length s")
    case True
    let ?c = "cut_point s m" and ?rest = "split_loop m (drop (cut_point s m) s)"
    have s: "s \<noteq> []" using True by auto
    note c = cut_point_bounds(1,2) [OF True] cut_point_small [OF True "1.prems"(2)]
    have p: "take ?c s \<noteq> []" "length (take ?c s) \<le> m \<or> length (take ?c s) = rune_size (take ?c s)"
      "m \<le> 2 * length (take ?c s) + 3"
      using c s rune_size_take [OF s] cut_point_large [OF "1.prems"(1) True] by auto
    have "valid_utf8 (drop ?c s)" by (rule cut_point_valid [OF True "1.prems"(1)])
    from "1.IH" [OF True this "1.prems"(2)] p show ?thesis by (simp add: split_loop.simps [of m s] True)
  qed (simp add: split_loop.simps [of m s])
qed

section \<open>Properties\<close>

text \<open>C11: \<open>SplitUTF8\<close> cuts a valid UTF-8 text into nonempty valid pieces whose concatenation is the
  text. With a positive limit each piece is within the limit or a single rune (so within the
  limit if that is at least four), and each piece but the last fills almost half of it.\<close>

theorem split_utf8_spec:
  assumes "s \<noteq> []" "valid_utf8 s"
  shows "concat (split_utf8 s m) = s
    \<and> list_all (\<lambda>p. p \<noteq> [] \<and> valid_utf8 p \<and> (0 < m \<longrightarrow> int (length p) \<le> m \<or> length p = rune_size p)) (split_utf8 s m)
    \<and> list_all (\<lambda>p. m \<le> 2 * int (length p) + 3) (butlast (split_utf8 s m))"
proof (cases "m \<le> 0 \<or> int (length s) \<le> m")
  case True
  then show ?thesis using assms by (auto simp: split_utf8_def)
next
  case False
  then have l: "split_utf8 s m = split_loop (nat m) s" and m: "0 < nat m" by (simp_all add: split_utf8_def)
  have v: "list_all valid_utf8 (split_utf8 s m)" using split_utf8_valid [OF assms(2)] by (simp add: list_all_iff)
  from split_loop_pieces [OF assms(2) m] v show ?thesis
    by (auto simp: list_all_iff l [symmetric] le_nat_iff nat_le_iff)
qed

lemma split_utf8_spec_witness:
  "valid_utf8 ([CHR 0xE2, CHR 0x96, CHR 0xB6] @ ''run'')
   \<and> concat (split_utf8 ([CHR 0xE2, CHR 0x96, CHR 0xB6] @ ''run'') 2) = [CHR 0xE2, CHR 0x96, CHR 0xB6] @ ''run''"
proof -
  have v: "valid_utf8 ([CHR 0xE2, CHR 0x96, CHR 0xB6] @ ''run'')"
    by (simp add: valid_utf8.simps [of "CHR 0xE2 # s" for s] decode_rune_def in_range_def second_ok_def)
  then show ?thesis using split_utf8_spec [OF _ v, of 2] by simp
qed



text \<open>An OSC sequence is greedy: everything from \<open>ESC ]\<close> up to a later BEL is removed, even
  when the sequence was already closed by \<open>ESC \\<close> and ordinary output stands in between.\<close>

lemma strip_ansi_swallows_output:
  assumes "BEL \<notin> set title" "BEL \<notin> set output"
  shows "strip_ansi (ESC # CHR '']'' # title @ [ESC, BACKSLASH] @ output @ BEL # rest) = strip_ansi rest"
proof -
  have "BEL \<notin> set (title @ [ESC, BACKSLASH] @ output)" using assms by simp
  then show ?thesis using strip_ansi_osc_bel [of "title @ [ESC, BACKSLASH] @ output" rest] by simp
qed

lemma strip_ansi_swallows_output_witness:
  "strip_ansi (ESC # CHR '']'' # ''0;t'' @ [ESC, BACKSLASH] @ ''error'' @ BEL # ''ok'') = ''ok''"
  using strip_ansi_swallows_output [of "''0;t''" "''error''" "''ok''"]
  by (simp del: strip_ansi.simps add: strip_ansi_plain)

text \<open>The text that \<open>EscapeCodeFence\<close> returns still holds a code fence (three backticks)
  exactly when the input has four backticks in a row.\<close>

lemma escape_code_fence_exact:
  "has_ticks 3 (escape_code_fence s) \<longleftrightarrow> has_ticks 4 s"
  by (rule escape_code_fence_has_fence)

end
