(* ===== verification/Msg_Sender.thy ===== *)
theory Msg_Sender
  imports Go_Strings
begin

text \<open>
  The interface \<open>MessageSender\<close> of \<open>internal/daemon/batcher.go\<close>: one operation,
  \<open>Send(channelID, content) error\<close>, with the state of the sender passed explicitly. The two
  ways the daemon calls it are here: \<open>send_parts\<close> is the loop of \<open>sendLong\<close> (stop at the
  first error), \<open>send_all\<close> the loop of \<open>sendOutput\<close> (go on, remember the first error).
  The locale states what the daemon relies on; \<open>Discord_Sender\<close> interprets it.
\<close>

type_synonym 'w send = "'w \<Rightarrow> gostring \<Rightarrow> gostring \<Rightarrow> 'w \<times> gostring option"

fun send_parts :: "'w send \<Rightarrow> 'w \<Rightarrow> gostring \<Rightarrow> gostring list \<Rightarrow> 'w \<times> gostring option" where
  "send_parts send w ch [] = (w, None)"
| "send_parts send w ch (p # ps) =
     (case send w ch p of
        (w', Some e) \<Rightarrow> (w', Some e)
      | (w', None) \<Rightarrow> send_parts send w' ch ps)"

text \<open>\<open>recordError\<close>: only the first error is kept.\<close>

fun record_error :: "gostring option \<Rightarrow> gostring option \<Rightarrow> gostring option" where
  "record_error first_err None = first_err"
| "record_error None (Some e) = Some e"
| "record_error (Some e') (Some e) = Some e'"

fun send_all ::
    "'w send \<Rightarrow> 'w \<Rightarrow> gostring \<Rightarrow> gostring list \<Rightarrow> gostring option \<Rightarrow> 'w \<times> gostring option" where
  "send_all send w ch [] first_err = (w, first_err)"
| "send_all send w ch (p # ps) first_err =
     (case send w ch p of (w', e) \<Rightarrow> send_all send w' ch ps (record_error first_err e))"

lemma record_error_Some [simp]: "record_error (Some e) x = Some e"
  by (cases x) auto

lemma record_error_None_iff: "record_error x y = None \<longleftrightarrow> x = None \<and> y = None"
  by (cases x; cases y) auto

lemma send_all_keeps_error: "send_all send w ch ps (Some e) = (w', fe) \<Longrightarrow> fe = Some e"
  by (induction ps arbitrary: w) (auto split: prod.splits)

lemma send_all_append:
  "send_all send w ch (ps @ qs) fe =
     (case send_all send w ch ps fe of (w', fe') \<Rightarrow> send_all send w' ch qs fe')"
  by (induction ps arbitrary: w fe) (auto split: prod.splits)

text \<open>A sender that never fails for a channel.\<close>

definition reliable :: "'w send \<Rightarrow> gostring \<Rightarrow> bool" where
  "reliable send ch \<longleftrightarrow> (\<forall>w content. snd (send w ch content) = None)"

lemma send_parts_reliable: "reliable send ch \<Longrightarrow> snd (send_parts send w ch ps) = None"
proof (induction ps arbitrary: w)
  case (Cons p ps)
  obtain w1 r where "send w ch p = (w1, r)" by (cases "send w ch p")
  moreover have "r = None" using Cons.prems calculation by (metis reliable_def snd_conv)
  ultimately show ?case using Cons by simp
qed simp

lemma send_all_reliable: "reliable send ch \<Longrightarrow> snd (send_all send w ch ps fe) = fe"
proof (induction ps arbitrary: w)
  case (Cons p ps)
  obtain w1 r where "send w ch p = (w1, r)" by (cases "send w ch p")
  moreover have "r = None" using Cons.prems calculation by (metis reliable_def snd_conv)
  ultimately show ?case using Cons by simp
qed simp

locale message_sender =
  fixes send :: "'w send"
    and delivered :: "'w \<Rightarrow> (gostring \<times> gostring) list"
  assumes send_ok:
      "content \<noteq> [] \<Longrightarrow> send w ch content = (w', None) \<Longrightarrow>
         delivered w' = delivered w @ [(trim_space ch, content)]"
    and send_failed:
      "send w ch content = (w', Some e) \<Longrightarrow> delivered w' = delivered w"
begin

text \<open>Without an error every part was delivered, in order.\<close>

lemma send_parts_ok:
  "send_parts send w ch ps = (w', None) \<Longrightarrow> \<forall>p \<in> set ps. p \<noteq> [] \<Longrightarrow>
     delivered w' = delivered w @ map (Pair (trim_space ch)) ps"
proof (induction ps arbitrary: w)
  case (Cons p ps)
  then obtain w1 where p: "send w ch p = (w1, None)" and ps: "send_parts send w1 ch ps = (w', None)"
    by (auto split: prod.splits option.splits)
  have "delivered w1 = delivered w @ [(trim_space ch, p)]"
    using send_ok [OF _ p] Cons.prems(2) by simp
  with Cons.IH [OF ps] Cons.prems(2) show ?case by simp
qed simp

text \<open>With an error a proper prefix of the parts was delivered.\<close>

lemma send_parts_failed:
  "send_parts send w ch ps = (w', Some e) \<Longrightarrow> \<forall>p \<in> set ps. p \<noteq> [] \<Longrightarrow>
     \<exists>k < length ps. delivered w' = delivered w @ map (Pair (trim_space ch)) (take k ps)"
proof (induction ps arbitrary: w)
  case (Cons p ps)
  obtain w1 r where p: "send w ch p = (w1, r)" by (cases "send w ch p")
  show ?case
  proof (cases r)
    case None
    with p Cons.prems have ps: "send_parts send w1 ch ps = (w', Some e)" by simp
    then obtain k where "k < length ps"
      "delivered w' = delivered w1 @ map (Pair (trim_space ch)) (take k ps)"
      using Cons.IH [OF ps] Cons.prems(2) by auto
    moreover have "delivered w1 = delivered w @ [(trim_space ch, p)]"
      using send_ok [of p w ch w1] p None Cons.prems(2) by simp
    ultimately show ?thesis by (intro exI [of _ "Suc k"]) simp
  next
    case (Some e')
    with p Cons.prems have "send w ch p = (w', Some e)" by simp
    then have "delivered w' = delivered w" by (rule send_failed)
    then show ?thesis by (intro exI [of _ 0]) simp
  qed
qed simp

text \<open>When the loop that goes on ends with no error, every part was delivered, in order.\<close>

lemma send_all_ok:
  "send_all send w ch ps None = (w', None) \<Longrightarrow> \<forall>p \<in> set ps. p \<noteq> [] \<Longrightarrow>
     delivered w' = delivered w @ map (Pair (trim_space ch)) ps"
proof (induction ps arbitrary: w)
  case (Cons p ps)
  obtain w1 r where p: "send w ch p = (w1, r)" by (cases "send w ch p")
  with Cons.prems have r: "r = None"
    by (cases r) (auto dest: send_all_keeps_error)
  with p Cons.prems have ps: "send_all send w1 ch ps None = (w', None)" by simp
  have "delivered w1 = delivered w @ [(trim_space ch, p)]"
    using send_ok [of p w ch w1] p r Cons.prems(2) by simp
  with Cons.IH [OF ps] Cons.prems(2) show ?case by simp
qed simp

text \<open>Whatever fails, what is delivered is a selection of the parts, in order.\<close>

lemma send_all_subseq:
  "send_all send w ch ps fe = (w', fe') \<Longrightarrow> \<forall>p \<in> set ps. p \<noteq> [] \<Longrightarrow>
     \<exists>qs. subseq qs ps \<and> delivered w' = delivered w @ map (Pair (trim_space ch)) qs"
proof (induction ps arbitrary: w fe)
  case (Cons p ps)
  obtain w1 r where p: "send w ch p = (w1, r)" by (cases "send w ch p")
  with Cons.prems have "send_all send w1 ch ps (record_error fe r) = (w', fe')" by simp
  then obtain qs where qs: "subseq qs ps"
    "delivered w' = delivered w1 @ map (Pair (trim_space ch)) qs"
    using Cons.IH [of w1 "record_error fe r"] Cons.prems(2) by auto
  show ?case
  proof (cases r)
    case None
    then have "delivered w1 = delivered w @ [(trim_space ch, p)]"
      using send_ok [of p w ch w1] p Cons.prems(2) by simp
    with qs show ?thesis by (intro exI [of _ "p # qs"]) simp
  next
    case (Some e)
    then have "delivered w1 = delivered w" using send_failed p by blast
    with qs show ?thesis by (intro exI [of _ qs]) auto
  qed
qed simp

end

end
