(* ===== verification/Lossy_Queue.thy ===== *)
theory Lossy_Queue
  imports Prelude
begin

text \<open>
  The abstract contract of the two bounded channels of the program, the one between a wrapped
  command and the uploader and the one between a request and the batcher: a first-in first-out
  queue of bounded capacity that takes what fits, forgets the rest and counts what it forgot.
  An offer carries the weight that is counted when it is refused. The locale says what it means
  that the steps of a component implement the queue; its lemmas give every such component the
  behaviour of the queue.
\<close>

section \<open>The queue\<close>

record 'a lossy =
  lq_items :: "'a list"
  lq_lost :: nat
  lq_shut :: bool

datatype 'a lq_op = Offer 'a nat | Take | Shut

fun lq_step :: "nat \<Rightarrow> 'a lq_op \<Rightarrow> 'a lossy \<Rightarrow> 'a lossy" where
  "lq_step cap (Offer x n) q =
     (if lq_shut q then q
      else if length (lq_items q) < cap then q\<lparr>lq_items := lq_items q @ [x]\<rparr>
      else q\<lparr>lq_lost := lq_lost q + n\<rparr>)"
| "lq_step cap Take q = q\<lparr>lq_items := tl (lq_items q)\<rparr>"
| "lq_step cap Shut q = q\<lparr>lq_shut := True\<rparr>"

fun lq_run :: "nat \<Rightarrow> 'a lq_op list \<Rightarrow> 'a lossy \<Rightarrow> 'a lossy" where
  "lq_run cap [] q = q"
| "lq_run cap (op # ops) q = lq_run cap ops (lq_step cap op q)"

text \<open>What is offered to the open queue, what it accepts, what is taken from it.\<close>

fun lq_offered :: "nat \<Rightarrow> 'a lq_op list \<Rightarrow> 'a lossy \<Rightarrow> ('a \<times> nat) list" where
  "lq_offered cap [] q = []"
| "lq_offered cap (op # ops) q =
     (case op of Offer x n \<Rightarrow> if lq_shut q then [] else [(x, n)] | _ \<Rightarrow> []) @ lq_offered cap ops (lq_step cap op q)"

fun lq_accepted :: "nat \<Rightarrow> 'a lq_op list \<Rightarrow> 'a lossy \<Rightarrow> ('a \<times> nat) list" where
  "lq_accepted cap [] q = []"
| "lq_accepted cap (op # ops) q =
     (case op of Offer x n \<Rightarrow> if \<not> lq_shut q \<and> length (lq_items q) < cap then [(x, n)] else [] | _ \<Rightarrow> [])
       @ lq_accepted cap ops (lq_step cap op q)"

fun lq_taken :: "nat \<Rightarrow> 'a lq_op list \<Rightarrow> 'a lossy \<Rightarrow> 'a list" where
  "lq_taken cap [] q = []"
| "lq_taken cap (op # ops) q =
     (case op of Take \<Rightarrow> take 1 (lq_items q) | _ \<Rightarrow> []) @ lq_taken cap ops (lq_step cap op q)"

definition weight :: "('a \<times> nat) list \<Rightarrow> nat" where
  "weight xs = sum_list (map snd xs)"

lemma weight_simps [simp]: "weight [] = 0" "weight ((x, n) # xs) = n + weight xs"
  by (simp_all add: weight_def)

lemma lq_run_append: "lq_run cap (xs @ ys) q = lq_run cap ys (lq_run cap xs q)"
  by (induction xs arbitrary: q) auto

lemma lq_fifo: "lq_items q @ map fst (lq_accepted cap ops q) = lq_taken cap ops q @ lq_items (lq_run cap ops q)"
proof (induction ops arbitrary: q)
  case (Cons op ops)
  show ?case
  proof (cases op)
    case (Offer x n)
    then show ?thesis using Cons.IH [of "lq_step cap op q"] by auto
  next
    case Take
    then show ?thesis using Cons.IH [of "lq_step cap op q"] by (cases "lq_items q") auto
  next
    case Shut
    then show ?thesis using Cons.IH [of "lq_step cap op q"] by auto
  qed
qed simp

lemma lq_accepted_subseq: "subseq (lq_accepted cap ops q) (lq_offered cap ops q)"
proof (induction ops arbitrary: q)
  case (Cons op ops)
  then show ?case by (cases op) auto
qed simp

lemma lq_counts: "weight (lq_accepted cap ops q) + lq_lost (lq_run cap ops q) = lq_lost q + weight (lq_offered cap ops q)"
proof (induction ops arbitrary: q)
  case (Cons op ops)
  then show ?case using Cons.IH [of "lq_step cap op q"] by (cases op) auto
qed simp

lemma lq_bounded: "length (lq_items q) \<le> cap \<Longrightarrow> length (lq_items (lq_run cap ops q)) \<le> cap"
proof (induction ops arbitrary: q)
  case (Cons op ops)
  have "length (lq_items (lq_step cap op q)) \<le> cap" using Cons.prems by (cases op) auto
  then show ?case using Cons.IH by simp
qed simp

lemma lq_room: "length (lq_items q) + length (lq_offered cap ops q) \<le> cap \<Longrightarrow>
    lq_accepted cap ops q = lq_offered cap ops q"
proof (induction ops arbitrary: q)
  case (Cons op ops)
  show ?case
  proof (cases op)
    case (Offer x n)
    then show ?thesis using Cons.IH [of "lq_step cap op q"] Cons.prems by (auto split: if_splits)
  next
    case Take
    then show ?thesis using Cons.IH [of "lq_step cap op q"] Cons.prems by (simp add: le_diff_conv)
  next
    case Shut
    then show ?thesis using Cons.IH [of "lq_step cap op q"] Cons.prems by auto
  qed
qed simp

section \<open>Implementations\<close>

text \<open>
  A component with states \<open>'s\<close> and steps \<open>'op\<close> implements the queue of capacity \<open>cap\<close> through
  \<open>abs\<close> when every enabled step is, on the queue, the operations that \<open>view\<close> names.
\<close>

locale lossy_queue =
  fixes cap :: nat
    and step :: "'op \<Rightarrow> 's \<Rightarrow> 's"
    and inv :: "'s \<Rightarrow> bool"
    and enabled :: "'op \<Rightarrow> 's \<Rightarrow> bool"
    and abs :: "'s \<Rightarrow> 'a lossy"
    and view :: "'op \<Rightarrow> 's \<Rightarrow> 'a lq_op list"
  assumes step_inv: "inv s \<Longrightarrow> enabled op s \<Longrightarrow> inv (step op s)"
    and step_simulates: "inv s \<Longrightarrow> enabled op s \<Longrightarrow> abs (step op s) = lq_run cap (view op s) (abs s)"
begin

fun runs :: "'op list \<Rightarrow> 's \<Rightarrow> 's" where
  "runs [] s = s"
| "runs (op # ops) s = runs ops (step op s)"

fun all_enabled :: "'op list \<Rightarrow> 's \<Rightarrow> bool" where
  "all_enabled [] s = True"
| "all_enabled (op # ops) s = (enabled op s \<and> all_enabled ops (step op s))"

fun views :: "'op list \<Rightarrow> 's \<Rightarrow> 'a lq_op list" where
  "views [] s = []"
| "views (op # ops) s = view op s @ views ops (step op s)"

lemma runs_simulate: "inv s \<Longrightarrow> all_enabled ops s \<Longrightarrow> abs (runs ops s) = lq_run cap (views ops s) (abs s)"
  by (induction ops arbitrary: s) (auto simp: step_inv step_simulates lq_run_append)

lemma runs_inv: "inv s \<Longrightarrow> all_enabled ops s \<Longrightarrow> inv (runs ops s)"
  by (induction ops arbitrary: s) (auto simp: step_inv)

text \<open>Nothing is invented, reordered or lost without being counted.\<close>

lemma runs_conserve:
  assumes "inv s" "all_enabled ops s"
  shows "lq_items (abs s) @ map fst (lq_accepted cap (views ops s) (abs s))
      = lq_taken cap (views ops s) (abs s) @ lq_items (abs (runs ops s))"
    "subseq (lq_accepted cap (views ops s) (abs s)) (lq_offered cap (views ops s) (abs s))"
    "weight (lq_accepted cap (views ops s) (abs s)) + lq_lost (abs (runs ops s))
      = lq_lost (abs s) + weight (lq_offered cap (views ops s) (abs s))"
    "length (lq_items (abs s)) \<le> cap \<Longrightarrow> length (lq_items (abs (runs ops s))) \<le> cap"
  using runs_simulate [OF assms]
  by (simp_all add: lq_fifo lq_accepted_subseq lq_counts lq_bounded)

end

end
