(* ===== verification/Batcher.thy ===== *)
theory Batcher
  imports Text_Util Msg_Sender Protocol Go_Strconv Lossy_Queue
begin

text \<open>
  \<open>internal/daemon/batcher.go\<close>. The batcher is shared by two goroutines: the request handler
  calls \<open>Add\<close> and \<open>Close\<close>, the goroutine \<open>run\<close> receives from the bounded channel \<open>events\<close>
  and flushes on size, on a change of stream and on the ticker. Each action of either
  goroutine is one function on the shared state, and \<open>batcher_run\<close> performs any interleaving
  of them, given as a list. \<open>flush_log\<close> is a history variable: every \<open>flush\<close> appends the
  (stream, text) it hands to \<open>sendOutput\<close>; no operation reads it.
\<close>

record batcher_config =
  bc_channel_id :: gostring
  bc_run_id :: gostring
  bc_max_log :: int
  bc_strip :: bool
  bc_queue_size :: nat

record output_record =
  or_stream :: gostring
  or_data :: gostring

record batcher =
  queue :: "output_record list"        \<comment> \<open>the buffered channel \<open>events\<close>\<close>
  closed :: bool                       \<comment> \<open>\<open>close(b.events)\<close> has happened\<close>
  finished :: bool                     \<comment> \<open>\<open>run\<close> has returned, \<open>done\<close> is closed\<close>
  dropped :: nat
  first_err :: "gostring option"
  current_stream :: gostring
  buffer :: gostring
  flush_log :: "(gostring \<times> gostring) list"

definition new_batcher :: batcher where
  "new_batcher =
     \<lparr>queue = [], closed = False, finished = False, dropped = 0, first_err = None,
      current_stream = [], buffer = [], flush_log = []\<rparr>"

section \<open>Operations\<close>

definition normalize_stream :: "gostring \<Rightarrow> gostring" where
  "normalize_stream s =
     (if s = stream_stdout \<or> s = stream_stderr \<or> s = stream_system then s else stream_system)"

definition short_run_id :: "gostring \<Rightarrow> gostring" where
  "short_run_id run_id = (if length run_id \<le> 8 then run_id else take 8 run_id)"

text \<open>The middle dot (U+00B7) of the message header.\<close>

definition message_content :: "gostring \<Rightarrow> gostring \<Rightarrow> gostring \<Rightarrow> gostring" where
  "message_content run_id stream part =
     ''**'' @ [TICK] @ short_run_id run_id @ [TICK] @ '' '' @ [CHR 0xC2, CHR 0xB7] @ '' '' @ [TICK]
       @ stream @ [TICK] @ ''**'' @ [NL] @ fence @ ''text'' @ [NL]
       @ trim_suffix part [NL] @ [NL] @ fence"

definition output_messages :: "batcher_config \<Rightarrow> gostring \<Rightarrow> gostring \<Rightarrow> gostring list" where
  "output_messages cfg stream data =
     map (message_content (bc_run_id cfg) stream) (split_utf8 (escape_code_fence data) (bc_max_log cfg))"

definition send_output ::
    "batcher_config \<Rightarrow> 'w send \<Rightarrow> gostring \<Rightarrow> gostring \<Rightarrow> batcher \<times> 'w \<Rightarrow> batcher \<times> 'w" where
  "send_output cfg send stream data =
     (\<lambda>(b, w). case send_all send w (bc_channel_id cfg) (output_messages cfg stream data) (first_err b) of
        (w', fe) \<Rightarrow> (b\<lparr>first_err := fe\<rparr>, w'))"

definition flush :: "batcher_config \<Rightarrow> 'w send \<Rightarrow> batcher \<times> 'w \<Rightarrow> batcher \<times> 'w" where
  "flush cfg send =
     (\<lambda>(b, w).
        if buffer b = [] then (b, w)
        else (case send_output cfg send (current_stream b) (buffer b) (b, w) of
                (b', w') \<Rightarrow>
                  (b'\<lparr>buffer := [], flush_log := flush_log b @ [(current_stream b, buffer b)]\<rparr>, w')))"

text \<open>\<open>Add\<close>, called by the handler: a non-blocking send.\<close>

definition add :: "batcher_config \<Rightarrow> gostring \<Rightarrow> gostring \<Rightarrow> batcher \<Rightarrow> batcher" where
  "add cfg stream data b =
     (if data = [] then b
      else if length (queue b) < bc_queue_size cfg
      then b\<lparr>queue := queue b @ [\<lparr>or_stream = stream, or_data = data\<rparr>]\<rparr>
      else b\<lparr>dropped := dropped b + length data\<rparr>)"

definition overflow_notice :: "nat \<Rightarrow> gostring" where
  "overflow_notice n =
     ''[wrapping-bot daemon queue overflow: '' @ format_nat n @ '' bytes omitted]'' @ [NL]"

text \<open>The text of a record as it enters the buffer.\<close>

definition record_text :: "batcher_config \<Rightarrow> output_record \<Rightarrow> gostring" where
  "record_text cfg r = (if bc_strip cfg then strip_ansi (or_data r) else or_data r)"

text \<open>The body of the receive case of \<open>run\<close> for one record.\<close>

definition take_record ::
    "batcher_config \<Rightarrow> 'w send \<Rightarrow> output_record \<Rightarrow> batcher \<times> 'w \<Rightarrow> batcher \<times> 'w" where
  "take_record cfg send r =
     (\<lambda>(b, w).
        let stream = normalize_stream (or_stream r);
            (b1, w1) = (if current_stream b \<noteq> [] \<and> stream \<noteq> current_stream b
                        then flush cfg send (b, w) else (b, w));
            b2 = b1\<lparr>current_stream := stream, buffer := buffer b1 @ record_text cfg r\<rparr>
        in if bc_max_log cfg \<le> int (length (buffer b2)) then flush cfg send (b2, w1) else (b2, w1))"

text \<open>The receive case on the closed and empty channel: report the dropped bytes, flush, return.\<close>

definition finish :: "batcher_config \<Rightarrow> 'w send \<Rightarrow> batcher \<times> 'w \<Rightarrow> batcher \<times> 'w" where
  "finish cfg send =
     (\<lambda>(b, w).
        let (b1, w1) =
              (if 0 < dropped b
               then (case flush cfg send (b, w) of
                       (b', w') \<Rightarrow>
                         (b'\<lparr>current_stream := stream_system,
                             buffer := buffer b' @ overflow_notice (dropped b')\<rparr>, w'))
               else (b, w));
            (b2, w2) = flush cfg send (b1, w1)
        in (b2\<lparr>finished := True\<rparr>, w2))"

text \<open>One receive of \<open>run\<close>. On an open empty channel it blocks: nothing happens.\<close>

definition recv :: "batcher_config \<Rightarrow> 'w send \<Rightarrow> batcher \<times> 'w \<Rightarrow> batcher \<times> 'w" where
  "recv cfg send =
     (\<lambda>(b, w).
        if finished b then (b, w)
        else (case queue b of
                r # rs \<Rightarrow> take_record cfg send r (b\<lparr>queue := rs\<rparr>, w)
              | [] \<Rightarrow> if closed b then finish cfg send (b, w) else (b, w)))"

definition tick :: "batcher_config \<Rightarrow> 'w send \<Rightarrow> batcher \<times> 'w \<Rightarrow> batcher \<times> 'w" where
  "tick cfg send = (\<lambda>(b, w). if finished b then (b, w) else flush cfg send (b, w))"

text \<open>The handler never adds after \<open>Close\<close> (Go would panic), so \<open>Add\<close> is guarded here.\<close>

datatype batcher_op = Add gostring gostring | Recv | Tick | CloseEvents

fun batcher_step ::
    "batcher_config \<Rightarrow> 'w send \<Rightarrow> batcher_op \<Rightarrow> batcher \<times> 'w \<Rightarrow> batcher \<times> 'w" where
  "batcher_step cfg send (Add stream data) (b, w) =
     (if closed b then (b, w) else (add cfg stream data b, w))"
| "batcher_step cfg send Recv (b, w) = recv cfg send (b, w)"
| "batcher_step cfg send Tick (b, w) = tick cfg send (b, w)"
| "batcher_step cfg send CloseEvents (b, w) = (b\<lparr>closed := True\<rparr>, w)"

fun batcher_run ::
    "batcher_config \<Rightarrow> 'w send \<Rightarrow> batcher_op list \<Rightarrow> batcher \<times> 'w \<Rightarrow> batcher \<times> 'w" where
  "batcher_run cfg send [] s = s"
| "batcher_run cfg send (op # ops) s = batcher_run cfg send ops (batcher_step cfg send op s)"

text \<open>
  \<open>Close\<close>: close the channel, then wait for \<open>run\<close> to return. After the scheduled actions
  \<open>ops\<close> the goroutine receives until it is done; \<open>drain\<close> performs \<open>n\<close> receives.
\<close>

definition drain :: "batcher_config \<Rightarrow> 'w send \<Rightarrow> nat \<Rightarrow> batcher \<times> 'w \<Rightarrow> batcher \<times> 'w" where
  "drain cfg send n s = batcher_run cfg send (replicate n Recv) s"

definition close_batcher ::
    "batcher_config \<Rightarrow> 'w send \<Rightarrow> batcher_op list \<Rightarrow> batcher \<times> 'w \<Rightarrow> batcher \<times> 'w" where
  "close_batcher cfg send ops s =
     (case batcher_run cfg send (CloseEvents # ops) s of
        (b, w) \<Rightarrow> drain cfg send (length (queue b) + 1) (b, w))"

section \<open>Flushing and sending\<close>

text \<open>
  The history splits every action into its effect on the shared state and the messages it
  sends: \<open>messages_of\<close> lists the messages of a stretch of the history.
\<close>

definition messages_of :: "batcher_config \<Rightarrow> (gostring \<times> gostring) list \<Rightarrow> gostring list" where
  "messages_of cfg logged = concat (map (\<lambda>(s, d). output_messages cfg s d) logged)"

lemma messages_of_simps [simp]:
  "messages_of cfg [] = []"
  "messages_of cfg (xs @ ys) = messages_of cfg xs @ messages_of cfg ys"
  "messages_of cfg [(s, d)] = output_messages cfg s d"
  by (simp_all add: messages_of_def)

text \<open>\<open>sends\<close> relates two states of the batcher and its sender by the messages in between.\<close>

definition sends ::
    "batcher_config \<Rightarrow> 'w send \<Rightarrow> batcher \<times> 'w \<Rightarrow> batcher \<times> 'w \<Rightarrow> bool" where
  "sends cfg send s t \<longleftrightarrow>
     (\<exists>logged. flush_log (fst t) = flush_log (fst s) @ logged
          \<and> send_all send (snd s) (bc_channel_id cfg) (messages_of cfg logged) (first_err (fst s))
              = (snd t, first_err (fst t)))"

lemma sends_refl: "flush_log b' = flush_log b \<Longrightarrow> first_err b' = first_err b \<Longrightarrow> sends cfg send (b, w) (b', w)"
  by (auto simp: sends_def)

lemma sends_trans:
  assumes "sends cfg send s t" "sends cfg send t u"
  shows "sends cfg send s u"
proof -
  obtain l1 l2 where
    l1: "flush_log (fst t) = flush_log (fst s) @ l1"
      "send_all send (snd s) (bc_channel_id cfg) (messages_of cfg l1) (first_err (fst s))
         = (snd t, first_err (fst t))"
    and l2: "flush_log (fst u) = flush_log (fst t) @ l2"
      "send_all send (snd t) (bc_channel_id cfg) (messages_of cfg l2) (first_err (fst t))
         = (snd u, first_err (fst u))"
    using assms by (auto simp: sends_def)
  then have "flush_log (fst u) = flush_log (fst s) @ (l1 @ l2)"
    "send_all send (snd s) (bc_channel_id cfg) (messages_of cfg (l1 @ l2)) (first_err (fst s))
       = (snd u, first_err (fst u))"
    by (simp_all add: send_all_append)
  then show ?thesis unfolding sends_def by blast
qed

lemma flush_empty: "buffer b = [] \<Longrightarrow> flush cfg send (b, w) = (b, w)"
  by (simp add: flush_def)

text \<open>Everything the proofs need to know of \<open>flush\<close>.\<close>

lemma flush_effect:
  assumes "flush cfg send (b, w) = (b', w')"
  shows "queue b' = queue b" "closed b' = closed b" "finished b' = finished b"
    "dropped b' = dropped b" "current_stream b' = current_stream b" "buffer b' = []"
    "flush_log b' = flush_log b @ (if buffer b = [] then [] else [(current_stream b, buffer b)])"
    "sends cfg send (b, w) (b', w')"
  using assms
  by (auto simp: flush_def send_output_def sends_def split: if_splits prod.splits)

lemma sends_update:
  "sends cfg send s (b, w) \<Longrightarrow> flush_log b' = flush_log b \<Longrightarrow> first_err b' = first_err b \<Longrightarrow>
     sends cfg send s (b', w)"
  by (simp add: sends_def)

section \<open>The invariant\<close>

definition known_stream :: "gostring \<Rightarrow> bool" where
  "known_stream s \<longleftrightarrow> s = stream_stdout \<or> s = stream_stderr \<or> s = stream_system"

definition batcher_inv :: "batcher_config \<Rightarrow> batcher \<Rightarrow> bool" where
  "batcher_inv cfg b \<longleftrightarrow>
     length (queue b) \<le> bc_queue_size cfg
     \<and> (current_stream b = [] \<longrightarrow> buffer b = [])
     \<and> (finished b \<longrightarrow> closed b \<and> queue b = [] \<and> buffer b = [])
     \<and> (buffer b = [] \<or> int (length (buffer b)) < bc_max_log cfg)
     \<and> (current_stream b = [] \<or> known_stream (current_stream b))
     \<and> list_all (\<lambda>(s, d). known_stream s \<and> d \<noteq> []) (flush_log b)"

lemma batcher_inv_new: "batcher_inv cfg new_batcher"
  by (simp add: batcher_inv_def new_batcher_def)

lemma known_stream_normalize [simp]: "known_stream (normalize_stream s)"
  by (simp add: known_stream_def normalize_stream_def)

lemma known_stream_system [simp]: "known_stream stream_system"
  by (simp add: known_stream_def)

lemma stream_system_nonempty [simp]: "stream_system \<noteq> []"
  by (simp add: stream_system_def)

lemma known_stream_length: "known_stream s \<Longrightarrow> length s = 6"
  by (auto simp: known_stream_def protocol_names)

lemma normalize_stream_nonempty [simp]: "normalize_stream s \<noteq> []"
  by (auto simp: normalize_stream_def protocol_names)

text \<open>The bytes on their way, each with its stream: flushed, buffered and queued.\<close>

definition tag :: "gostring \<Rightarrow> gostring \<Rightarrow> (gostring \<times> char) list" where
  "tag s d = map (Pair s) d"

definition log_bytes :: "(gostring \<times> gostring) list \<Rightarrow> (gostring \<times> char) list" where
  "log_bytes logged = concat (map (\<lambda>(s, d). tag s d) logged)"

definition record_bytes :: "batcher_config \<Rightarrow> output_record \<Rightarrow> (gostring \<times> char) list" where
  "record_bytes cfg r = tag (normalize_stream (or_stream r)) (record_text cfg r)"

definition in_flight :: "batcher_config \<Rightarrow> batcher \<Rightarrow> (gostring \<times> char) list" where
  "in_flight cfg b =
     log_bytes (flush_log b) @ tag (current_stream b) (buffer b)
       @ concat (map (record_bytes cfg) (queue b))"

definition final_notice :: "batcher \<Rightarrow> (gostring \<times> char) list" where
  "final_notice b =
     (if finished b \<and> 0 < dropped b then tag stream_system (overflow_notice (dropped b)) else [])"

lemma tag_simps [simp]: "tag s [] = []" "tag s (a @ b) = tag s a @ tag s b"
  by (simp_all add: tag_def)

lemma log_bytes_simps [simp]:
  "log_bytes [] = []" "log_bytes (xs @ ys) = log_bytes xs @ log_bytes ys"
  "log_bytes [(s, d)] = tag s d"
  by (simp_all add: log_bytes_def)

lemma in_flight_new [simp]: "in_flight cfg new_batcher = []"
  by (simp add: in_flight_def new_batcher_def)

text \<open>\<open>flush\<close> moves the buffer to the history.\<close>

lemma flush_in_flight:
  "flush cfg send (b, w) = (b', w') \<Longrightarrow> in_flight cfg b' = in_flight cfg b"
  by (simp add: in_flight_def flush_effect)

lemma flush_inv: "flush cfg send (b, w) = (b', w') \<Longrightarrow> batcher_inv cfg b \<Longrightarrow> batcher_inv cfg b'"
  by (auto simp: batcher_inv_def flush_effect)

lemma take_record_effect:
  assumes "take_record cfg send r (b, w) = (b', w')" "batcher_inv cfg b" "\<not> finished b"
  shows "batcher_inv cfg b'" "in_flight cfg b' = in_flight cfg (b\<lparr>queue := r # queue b\<rparr>)"
    "queue b' = queue b" "closed b' = closed b" "finished b' = finished b" "dropped b' = dropped b"
    "sends cfg send (b, w) (b', w')"
proof -
  define st where "st = normalize_stream (or_stream r)"
  obtain b1 w1 where b1: "(if current_stream b \<noteq> [] \<and> st \<noteq> current_stream b
      then flush cfg send (b, w) else (b, w)) = (b1, w1)"
    by (cases "if current_stream b \<noteq> [] \<and> st \<noteq> current_stream b
      then flush cfg send (b, w) else (b, w)")
  define b2 where "b2 = b1\<lparr>current_stream := st, buffer := buffer b1 @ record_text cfg r\<rparr>"
  have e1: "queue b1 = queue b" "closed b1 = closed b" "finished b1 = finished b"
      "dropped b1 = dropped b" "sends cfg send (b, w) (b1, w1)"
    using b1 flush_effect [of cfg send b w b1 w1] by (auto split: if_splits intro: sends_refl)
  have fl: "log_bytes (flush_log b2) @ tag st (buffer b2)
      = log_bytes (flush_log b) @ tag (current_stream b) (buffer b) @ tag st (record_text cfg r)"
    using b1 flush_effect [of cfg send b w b1 w1] assms(2)
    by (auto simp: b2_def batcher_inv_def split: if_splits)
  have s2: "sends cfg send (b, w) (b2, w1)"
    using e1(5) by (rule sends_update) (simp_all add: b2_def)
  have res: "(if bc_max_log cfg \<le> int (length (buffer b2)) then flush cfg send (b2, w1) else (b2, w1))
      = (b', w')"
    using assms(1) b1 unfolding take_record_def b2_def st_def by (simp add: Let_def)
  have st: "st \<noteq> []" "known_stream st" by (simp_all add: st_def)
  have inv1: "batcher_inv cfg b1"
    using b1 flush_inv [of cfg send b w b1 w1] assms(2) by (auto split: if_splits)
  show "sends cfg send (b, w) (b', w')"
    using res s2 flush_effect(8) [of cfg send b2 w1 b' w']
    by (auto split: if_splits intro: sends_trans)
  show q: "queue b' = queue b" "closed b' = closed b" "finished b' = finished b" "dropped b' = dropped b"
    using res e1 flush_effect [of cfg send b2 w1 b' w'] by (auto simp: b2_def split: if_splits)
  have "in_flight cfg b' = in_flight cfg b2"
    using res flush_in_flight [of cfg send b2 w1 b' w'] by (auto split: if_splits)
  also have "\<dots> = in_flight cfg (b\<lparr>queue := r # queue b\<rparr>)"
    using fl e1 by (simp add: in_flight_def b2_def record_bytes_def st_def)
  finally show "in_flight cfg b' = in_flight cfg (b\<lparr>queue := r # queue b\<rparr>)" .
  have inv2: "bc_max_log cfg \<le> int (length (buffer b2)) \<or> batcher_inv cfg b2"
    using inv1 assms(3) e1(3) st by (simp add: batcher_inv_def b2_def not_le) linarith
  have inv3: "batcher_inv cfg b'" if "flush cfg send (b2, w1) = (b', w')"
    using flush_effect [OF that] inv1 assms(3) e1 st by (auto simp: batcher_inv_def b2_def)
  show "batcher_inv cfg b'"
    using res inv2 inv3 by (auto split: if_splits)
qed

lemma finish_effect:
  assumes "finish cfg send (b, w) = (b', w')" "batcher_inv cfg b" "closed b" "queue b = []"
  shows "batcher_inv cfg b'" "finished b'" "closed b'" "dropped b' = dropped b" "queue b' = []"
    "in_flight cfg b' = in_flight cfg b @ final_notice b'"
    "sends cfg send (b, w) (b', w')"
proof -
  obtain b1 w1 where b1: "flush cfg send (b, w) = (b1, w1)" by (cases "flush cfg send (b, w)")
  define b2 where "b2 = (if 0 < dropped b
     then b1\<lparr>current_stream := stream_system, buffer := buffer b1 @ overflow_notice (dropped b1)\<rparr> else b)"
  define w2 where "w2 = (if 0 < dropped b then w1 else w)"
  obtain b3 w3 where b3: "flush cfg send (b2, w2) = (b3, w3)" by (cases "flush cfg send (b2, w2)")
  have res: "b' = b3\<lparr>finished := True\<rparr>" "w' = w3"
    using assms(1) b1 b3 by (auto simp: finish_def b2_def w2_def split: if_splits)
  note e1 = flush_effect [OF b1] and e3 = flush_effect [OF b3]
  show "finished b'" by (simp add: res)
  show d: "closed b'" "dropped b' = dropped b" "queue b' = []"
    using assms(3,4) e1 e3 by (auto simp: res b2_def)
  have "list_all (\<lambda>(s, d). known_stream s \<and> d \<noteq> []) (flush_log b2)"
    using flush_inv [OF b1 assms(2)] assms(2) by (simp add: b2_def batcher_inv_def)
  moreover have "buffer b2 = [] \<or> current_stream b2 \<noteq> []"
    "current_stream b2 = [] \<or> known_stream (current_stream b2)"
    using assms(2) by (auto simp: b2_def batcher_inv_def)
  ultimately show "batcher_inv cfg b'"
    using d e3 unfolding batcher_inv_def by (auto simp: res)
  have s2: "sends cfg send (b, w) (b2, w2)"
    using e1(8) by (auto simp: b2_def w2_def intro: sends_refl sends_update)
  then have "sends cfg send (b, w) (b3, w3)" using e3(8) by (rule sends_trans)
  then show "sends cfg send (b, w) (b', w')" by (auto simp: res intro: sends_update)
  show "in_flight cfg b' = in_flight cfg b @ final_notice b'"
    using assms(4) e1 e3 by (auto simp: in_flight_def final_notice_def res b2_def)
qed

section \<open>Runs\<close>

lemma recv_effect:
  assumes "recv cfg send (b, w) = (b', w')" "batcher_inv cfg b"
  shows "batcher_inv cfg b'"
    "in_flight cfg b' = in_flight cfg b @ (if finished b then [] else final_notice b')"
    "closed b' = closed b" "dropped b' = dropped b" "sends cfg send (b, w) (b', w')"
    "finished b' = (finished b \<or> closed b \<and> queue b = [])" "queue b' = tl (queue b)"
proof -
  have "batcher_inv cfg b' \<and>
    in_flight cfg b' = in_flight cfg b @ (if finished b then [] else final_notice b') \<and>
    closed b' = closed b \<and> dropped b' = dropped b \<and> sends cfg send (b, w) (b', w') \<and>
    finished b' = (finished b \<or> closed b \<and> queue b = []) \<and> queue b' = tl (queue b)"
  proof (cases "finished b")
    case True
    with assms show ?thesis
      by (auto simp: recv_def batcher_inv_def intro: sends_refl)
  next
    case fin: False
    show ?thesis
    proof (cases "queue b")
      case Nil
      show ?thesis
      proof (cases "closed b")
        case True
        with Nil fin assms(1) have "finish cfg send (b, w) = (b', w')" by (simp add: recv_def)
        note e = finish_effect [OF this assms(2) True Nil]
        show ?thesis using e True Nil fin by simp
      next
        case False
        with Nil fin assms show ?thesis
          by (auto simp: recv_def final_notice_def intro: sends_refl)
      qed
    next
      case (Cons r rs)
      with fin assms(1) have t: "take_record cfg send r (b\<lparr>queue := rs\<rparr>, w) = (b', w')"
        by (simp add: recv_def)
      have "batcher_inv cfg (b\<lparr>queue := rs\<rparr>)" using assms(2) Cons fin by (simp add: batcher_inv_def)
      note e = take_record_effect [OF t this]
      have "in_flight cfg b' = in_flight cfg (b\<lparr>queue := r # rs\<rparr>)" using e fin by simp
      moreover have "in_flight cfg (b\<lparr>queue := r # rs\<rparr>) = in_flight cfg b"
        using Cons by (simp add: in_flight_def)
      ultimately show ?thesis using e fin Cons by (auto simp: final_notice_def sends_def)
    qed
  qed
  then show "batcher_inv cfg b'"
    "in_flight cfg b' = in_flight cfg b @ (if finished b then [] else final_notice b')"
    "closed b' = closed b" "dropped b' = dropped b" "sends cfg send (b, w) (b', w')"
    "finished b' = (finished b \<or> closed b \<and> queue b = [])" "queue b' = tl (queue b)" by auto
qed

lemma tick_effect:
  assumes "tick cfg send (b, w) = (b', w')" "batcher_inv cfg b"
  shows "batcher_inv cfg b'" "in_flight cfg b' = in_flight cfg b" "closed b' = closed b"
    "finished b' = finished b" "dropped b' = dropped b" "queue b' = queue b"
    "sends cfg send (b, w) (b', w')"
  using assms flush_effect [of cfg send b w b' w'] flush_inv [of cfg send b w b' w']
    flush_in_flight [of cfg send b w b' w']
  by (auto simp: tick_def split: if_splits intro: sends_refl)

text \<open>What one operation offers, and what of it the queue accepts.\<close>

fun accepted_by :: "batcher_config \<Rightarrow> batcher_op \<Rightarrow> batcher \<Rightarrow> output_record list" where
  "accepted_by cfg (Add stream data) b =
     (if \<not> closed b \<and> data \<noteq> [] \<and> length (queue b) < bc_queue_size cfg
      then [\<lparr>or_stream = stream, or_data = data\<rparr>] else [])"
| "accepted_by cfg _ b = []"

fun offered_by :: "batcher_op \<Rightarrow> batcher \<Rightarrow> nat" where
  "offered_by (Add stream data) b = (if closed b then 0 else length data)"
| "offered_by _ b = 0"

fun accepted_records ::
    "batcher_config \<Rightarrow> 'w send \<Rightarrow> batcher_op list \<Rightarrow> batcher \<times> 'w \<Rightarrow> output_record list" where
  "accepted_records cfg send [] s = []"
| "accepted_records cfg send (op # ops) s =
     accepted_by cfg op (fst s) @ accepted_records cfg send ops (batcher_step cfg send op s)"

fun offered_bytes ::
    "batcher_config \<Rightarrow> 'w send \<Rightarrow> batcher_op list \<Rightarrow> batcher \<times> 'w \<Rightarrow> nat" where
  "offered_bytes cfg send [] s = 0"
| "offered_bytes cfg send (op # ops) s =
     offered_by op (fst s) + offered_bytes cfg send ops (batcher_step cfg send op s)"

definition data_bytes :: "output_record list \<Rightarrow> nat" where
  "data_bytes rs = sum_list (map (length \<circ> or_data) rs)"

lemma data_bytes_simps [simp]:
  "data_bytes [] = 0" "data_bytes (xs @ ys) = data_bytes xs + data_bytes ys"
  "data_bytes [r] = length (or_data r)"
  by (simp_all add: data_bytes_def)

lemma step_effect:
  assumes "batcher_step cfg send op (b, w) = (b', w')" "batcher_inv cfg b"
  shows "batcher_inv cfg b'" "sends cfg send (b, w) (b', w')"
    "in_flight cfg b' = in_flight cfg b @ concat (map (record_bytes cfg) (accepted_by cfg op b))
       @ (if finished b then [] else final_notice b')"
    "data_bytes (accepted_by cfg op b) + dropped b' = dropped b + offered_by op b"
    "finished b \<Longrightarrow> b' = b \<and> w' = w"
proof -
  have "batcher_inv cfg b' \<and> sends cfg send (b, w) (b', w')
    \<and> in_flight cfg b' = in_flight cfg b @ concat (map (record_bytes cfg) (accepted_by cfg op b))
       @ (if finished b then [] else final_notice b')
    \<and> data_bytes (accepted_by cfg op b) + dropped b' = dropped b + offered_by op b
    \<and> (finished b \<longrightarrow> b' = b \<and> w' = w)"
  proof (cases op)
    case (Add st d)
    show ?thesis
    proof (cases "closed b \<or> d = []")
      case True
      then have "add cfg st d b = b \<or> closed b" by (auto simp: add_def)
      with True Add assms have same: "b' = b" "w' = w" by (auto split: if_splits)
      show ?thesis unfolding same
        using True Add assms(2) by (auto simp: final_notice_def batcher_inv_def intro: sends_refl)
    next
      case False
      then have "\<not> finished b" using assms(2) by (auto simp: batcher_inv_def)
      with False Add assms have b': "b' = add cfg st d b" "w' = w" by simp_all
      have "sends cfg send (b, w) (b', w')"
        unfolding b' by (rule sends_refl) (simp_all add: add_def)
      moreover have "batcher_inv cfg b'"
        using assms(2) \<open>\<not> finished b\<close> by (auto simp: b' add_def batcher_inv_def)
      moreover have "\<not> finished b'" using \<open>\<not> finished b\<close> by (simp add: b' add_def)
      ultimately show ?thesis using False Add \<open>\<not> finished b\<close>
        by (simp add: b' add_def in_flight_def final_notice_def)
    qed
  next
    case Recv
    with assms have "recv cfg send (b, w) = (b', w')" by simp
    note e = recv_effect [OF this assms(2)]
    show ?thesis using e Recv assms by (auto simp: recv_def)
  next
    case Tick
    with assms have "tick cfg send (b, w) = (b', w')" by simp
    note e = tick_effect [OF this assms(2)]
    show ?thesis using e Tick assms by (auto simp: final_notice_def tick_def)
  next
    case CloseEvents
    with assms have b': "b' = b\<lparr>closed := True\<rparr>" "w' = w" by simp_all
    have "sends cfg send (b, w) (b', w')" unfolding b' by (rule sends_refl) simp_all
    moreover have "finished b \<Longrightarrow> b\<lparr>closed := True\<rparr> = b"
      using assms(2) by (simp add: batcher_inv_def)
    ultimately show ?thesis using CloseEvents assms(2)
      by (simp add: b' batcher_inv_def in_flight_def final_notice_def)
  qed
  then show "batcher_inv cfg b'" "sends cfg send (b, w) (b', w')"
    "in_flight cfg b' = in_flight cfg b @ concat (map (record_bytes cfg) (accepted_by cfg op b))
       @ (if finished b then [] else final_notice b')"
    "data_bytes (accepted_by cfg op b) + dropped b' = dropped b + offered_by op b"
    "finished b \<Longrightarrow> b' = b \<and> w' = w" 
    by - (elim conjE, (assumption | erule (1) mp))+
qed

lemma run_finished: "batcher_inv cfg b \<Longrightarrow> finished b \<Longrightarrow> batcher_run cfg send ops (b, w) = (b, w)"
proof (induction ops)
  case (Cons op ops)
  obtain b1 w1 where "batcher_step cfg send op (b, w) = (b1, w1)"
    by (cases "batcher_step cfg send op (b, w)")
  with step_effect(5) [OF this Cons.prems(1)] Cons show ?case by simp
qed simp

lemma accepted_finished:
  "batcher_inv cfg b \<Longrightarrow> finished b \<Longrightarrow> accepted_records cfg send ops (b, w) = []"
proof (induction ops)
  case (Cons op ops)
  obtain b1 w1 where s: "batcher_step cfg send op (b, w) = (b1, w1)"
    by (cases "batcher_step cfg send op (b, w)")
  have "closed b" using Cons.prems by (simp add: batcher_inv_def)
  then have "accepted_by cfg op b = []" by (cases op) auto
  with step_effect(5) [OF s Cons.prems(1)] s Cons show ?case by simp
qed simp

lemma run_effect:
  assumes "batcher_run cfg send ops (b, w) = (b', w')" "batcher_inv cfg b"
  shows "batcher_inv cfg b'" "sends cfg send (b, w) (b', w')"
    "in_flight cfg b' = in_flight cfg b
       @ concat (map (record_bytes cfg) (accepted_records cfg send ops (b, w)))
       @ (if finished b then [] else final_notice b')"
    "data_bytes (accepted_records cfg send ops (b, w)) + dropped b'
       = dropped b + offered_bytes cfg send ops (b, w)"
proof -
  have "batcher_inv cfg b' \<and> sends cfg send (b, w) (b', w')
    \<and> in_flight cfg b' = in_flight cfg b
       @ concat (map (record_bytes cfg) (accepted_records cfg send ops (b, w)))
       @ (if finished b then [] else final_notice b')
    \<and> data_bytes (accepted_records cfg send ops (b, w)) + dropped b'
       = dropped b + offered_bytes cfg send ops (b, w)"
    using assms
  proof (induction ops arbitrary: b w)
    case Nil
    then show ?case by (auto simp: final_notice_def intro: sends_refl)
  next
    case (Cons op ops)
    obtain b1 w1 where s: "batcher_step cfg send op (b, w) = (b1, w1)"
      by (cases "batcher_step cfg send op (b, w)")
    note e = step_effect [OF s Cons.prems(2)]
    from Cons.prems s have r: "batcher_run cfg send ops (b1, w1) = (b', w')" by simp
    note IH = Cons.IH [OF r e(1)]
    have notice: "(if finished b then [] else final_notice b1) @ concat (map (record_bytes cfg)
          (accepted_records cfg send ops (b1, w1))) @ (if finished b1 then [] else final_notice b')
        = concat (map (record_bytes cfg) (accepted_records cfg send ops (b1, w1)))
          @ (if finished b then [] else final_notice b')"
    proof (cases "finished b1")
      case True
      have "b' = b1" using r run_finished [OF e(1) True, of send ops w1] by simp
      then show ?thesis
        using accepted_finished [OF e(1) True, of send ops w1] e(5) True by (auto simp: final_notice_def)
    next
      case False
      then show ?thesis using e(5) by (auto simp: final_notice_def)
    qed
    have "in_flight cfg b' = in_flight cfg b
       @ concat (map (record_bytes cfg) (accepted_records cfg send (op # ops) (b, w)))
       @ (if finished b then [] else final_notice b')"
      using IH e(3) notice s by simp
    moreover have "sends cfg send (b, w) (b', w')"
      using IH e(2) by (blast intro: sends_trans)
    ultimately show ?case using IH e(4) s by simp
  qed
  then show "batcher_inv cfg b'" "sends cfg send (b, w) (b', w')"
    "in_flight cfg b' = in_flight cfg b
       @ concat (map (record_bytes cfg) (accepted_records cfg send ops (b, w)))
       @ (if finished b then [] else final_notice b')"
    "data_bytes (accepted_records cfg send ops (b, w)) + dropped b'
       = dropped b + offered_bytes cfg send ops (b, w)" 
    by - (elim conjE, assumption)+
qed

lemmas run_inv = run_effect(1)
lemmas run_sends = run_effect(2)

lemma batcher_run_append:
  "batcher_run cfg send (xs @ ys) s = batcher_run cfg send ys (batcher_run cfg send xs s)"
  by (induction xs arbitrary: s) auto

lemma accepted_records_append:
  "accepted_records cfg send (xs @ ys) s =
     accepted_records cfg send xs s @ accepted_records cfg send ys (batcher_run cfg send xs s)"
  by (induction xs arbitrary: s) auto

section \<open>Closing\<close>

lemma step_closed:
  assumes "batcher_step cfg send op (b, w) = (b', w')" "batcher_inv cfg b" "closed b"
  shows "closed b'" "length (queue b') = length (queue b) - (if op = Recv then 1 else 0)"
    "finished b' \<longleftrightarrow> finished b \<or> op = Recv \<and> queue b = []" "dropped b' = dropped b"
    "accepted_by cfg op b = []"
proof -
  have "closed b' \<and> length (queue b') = length (queue b) - (if op = Recv then 1 else 0)
    \<and> (finished b' \<longleftrightarrow> finished b \<or> op = Recv \<and> queue b = []) \<and> dropped b' = dropped b
    \<and> accepted_by cfg op b = []"
  proof (cases op)
    case Recv
    with assms recv_effect [of cfg send b w b' w'] show ?thesis by auto
  next
    case Tick
    with assms tick_effect [of cfg send b w b' w'] show ?thesis by auto
  qed (use assms in auto)
  then show "closed b'" "length (queue b') = length (queue b) - (if op = Recv then 1 else 0)"
    "finished b' \<longleftrightarrow> finished b \<or> op = Recv \<and> queue b = []" "dropped b' = dropped b"
    "accepted_by cfg op b = []"
    by - (elim conjE, assumption)+
qed

text \<open>
  Once closed, the goroutine is done as soon as it has received one time more often than there
  were records in the queue, however the ticks fall in between.
\<close>

lemma run_closed:
  assumes "batcher_run cfg send ops (b, w) = (b', w')" "batcher_inv cfg b" "closed b"
  shows "closed b'" "dropped b' = dropped b" "accepted_records cfg send ops (b, w) = []"
    "length (queue b) < count_list ops Recv \<Longrightarrow> finished b'"
proof -
  have "closed b' \<and> dropped b' = dropped b \<and> accepted_records cfg send ops (b, w) = []
    \<and> (length (queue b) < count_list ops Recv \<or> finished b \<longrightarrow> finished b')"
    using assms
  proof (induction ops arbitrary: b w)
    case (Cons op ops)
    obtain b1 w1 where s: "batcher_step cfg send op (b, w) = (b1, w1)"
      by (cases "batcher_step cfg send op (b, w)")
    note e = step_closed [OF s Cons.prems(2,3)]
    from Cons.prems s have r: "batcher_run cfg send ops (b1, w1) = (b', w')" by simp
    note IH = Cons.IH [OF r step_effect(1) [OF s Cons.prems(2)] e(1)]
    have "length (queue b1) < count_list ops Recv \<or> finished b1"
      if "length (queue b) < count_list (op # ops) Recv \<or> finished b"
      using that e(2,3) by (cases "op = Recv"; cases "queue b") auto
    then show ?case using IH e s by auto
  qed auto
  then show "closed b'" "dropped b' = dropped b" "accepted_records cfg send ops (b, w) = []"
    "length (queue b) < count_list ops Recv \<Longrightarrow> finished b'" by auto
qed

lemma count_list_replicate [simp]: "count_list (replicate n x) x = n"
  by (induction n) auto

lemma close_batcher_effect:
  assumes "close_batcher cfg send ops (b, w) = (b', w')" "batcher_inv cfg b"
  shows "batcher_inv cfg b'" "finished b'" "dropped b' = dropped b" "sends cfg send (b, w) (b', w')"
    "in_flight cfg b' = in_flight cfg b @ (if finished b then [] else final_notice b')"
proof -
  define all where "all = CloseEvents # ops"
  obtain b1 w1 where r1: "batcher_run cfg send all (b, w) = (b1, w1)"
    by (cases "batcher_run cfg send all (b, w)")
  define n where "n = length (queue b1) + 1"
  have r2: "batcher_run cfg send (replicate n Recv) (b1, w1) = (b', w')"
    using assms(1) r1 by (simp add: close_batcher_def drain_def all_def n_def)
  have r: "batcher_run cfg send (all @ replicate n Recv) (b, w) = (b', w')"
    by (simp add: batcher_run_append r1 r2)
  note e = run_effect [OF r assms(2)]
  have invc: "batcher_inv cfg (b\<lparr>closed := True\<rparr>)" using assms(2) by (simp add: batcher_inv_def)
  have rc: "batcher_run cfg send (ops @ replicate n Recv) (b\<lparr>closed := True\<rparr>, w) = (b', w')"
    using r by (simp add: all_def)
  note c = run_closed [OF rc invc]
  have acc: "accepted_records cfg send (all @ replicate n Recv) (b, w) = []"
    using c(3) by (simp add: all_def)
  show "batcher_inv cfg b'" "sends cfg send (b, w) (b', w')"
    "in_flight cfg b' = in_flight cfg b @ (if finished b then [] else final_notice b')"
    using e acc by auto
  show "dropped b' = dropped b" using c(2) by simp
  have ro: "batcher_run cfg send ops (b\<lparr>closed := True\<rparr>, w) = (b1, w1)" using r1 by (simp add: all_def)
  then have "closed b1" using run_closed(1) [OF ro invc] by simp
  then show "finished b'"
    using run_closed(4) [OF r2 run_effect(1) [OF r1 assms(2)]] by (simp add: n_def)
qed

text \<open>When \<open>run\<close> has returned, everything is in the history.\<close>

lemma finished_in_flight:
  "batcher_inv cfg b \<Longrightarrow> finished b \<Longrightarrow> in_flight cfg b = log_bytes (flush_log b)"
  by (simp add: batcher_inv_def in_flight_def)

section \<open>Messages\<close>

lemma message_content_nonempty [simp]: "message_content r s p \<noteq> []"
  by (simp add: message_content_def)

lemma length_short_run_id: "length (short_run_id r) \<le> 8"
  by (simp add: short_run_id_def)

lemma length_message_content:
  "length (message_content r s p) \<le> 33 + length s + length p"
  using length_short_run_id [of r] length_trim_suffix [of p "[NL]"]
  by (simp add: message_content_def fence_def)

lemma output_messages_nonempty: "m \<in> set (output_messages cfg s d) \<Longrightarrow> m \<noteq> []"
  by (auto simp: output_messages_def)

lemma output_messages_length:
  assumes "m \<in> set (output_messages cfg s d)" "known_stream s" "4 \<le> bc_max_log cfg"
  shows "int (length m) \<le> 39 + bc_max_log cfg"
proof -
  obtain p where p: "p \<in> set (split_utf8 (escape_code_fence d) (bc_max_log cfg))"
    and m: "m = message_content (bc_run_id cfg) s p"
    using assms(1) by (auto simp: output_messages_def)
  have "int (length p) \<le> bc_max_log cfg" by (rule split_utf8_length [OF assms(3) p])
  then show ?thesis
    using length_message_content [of "bc_run_id cfg" s p] known_stream_length [OF assms(2)] m by simp
qed

lemma messages_of_all:
  assumes "m \<in> set (messages_of cfg logged)" "list_all (\<lambda>(s, d). known_stream s \<and> d \<noteq> []) logged"
  obtains s d where "m \<in> set (output_messages cfg s d)" "known_stream s" "d \<noteq> []"
  using assms by (auto simp: messages_of_def list_all_iff)

section \<open>What the queue accepts\<close>

text \<open>The records that a list of operations tries to add.\<close>

fun add_records :: "batcher_op list \<Rightarrow> output_record list" where
  "add_records [] = []"
| "add_records (Add st d # ops) =
     (if d = [] then [] else [\<lparr>or_stream = st, or_data = d\<rparr>]) @ add_records ops"
| "add_records (_ # ops) = add_records ops"

lemma accepted_subseq: "subseq (accepted_records cfg send ops s) (add_records ops)"
proof (induction ops arbitrary: s rule: add_records.induct)
  case (2 st d ops)
  then show ?case by (cases s) (auto intro: list_emb_append_mono)
qed (auto split: prod.splits)

lemma step_keeps_open:
  assumes "batcher_step cfg send op (b, w) = (b', w')" "batcher_inv cfg b" "\<not> closed b" "op \<noteq> CloseEvents"
  shows "\<not> closed b'"
proof (cases op)
  case (Add st d)
  with assms show ?thesis by (auto simp: add_def split: if_splits)
next
  case Recv
  with assms recv_effect(3) [of cfg send b w b' w'] show ?thesis by simp
next
  case Tick
  with assms tick_effect(3) [of cfg send b w b' w'] show ?thesis by simp
qed (use assms in simp)

lemma run_keeps_open:
  "batcher_run cfg send ops (b, w) = (b', w') \<Longrightarrow> batcher_inv cfg b \<Longrightarrow> \<not> closed b \<Longrightarrow>
     CloseEvents \<notin> set ops \<Longrightarrow> \<not> closed b'"
proof (induction ops arbitrary: b w)
  case (Cons op ops)
  obtain b1 w1 where s: "batcher_step cfg send op (b, w) = (b1, w1)"
    by (cases "batcher_step cfg send op (b, w)")
  have "\<not> closed b1" using step_keeps_open [OF s Cons.prems(2,3)] Cons.prems(4) by auto
  then show ?case using Cons.IH [OF _ step_effect(1) [OF s Cons.prems(2)]] Cons.prems s by simp
qed simp

lemma offered_bytes_open:
  assumes "CloseEvents \<notin> set ops" "\<not> closed b" "batcher_inv cfg b"
  shows "offered_bytes cfg send ops (b, w) = data_bytes (add_records ops)"
  using assms
proof (induction ops arbitrary: b w)
  case (Cons op ops)
  obtain b1 w1 where s: "batcher_step cfg send op (b, w) = (b1, w1)"
    by (cases "batcher_step cfg send op (b, w)")
  have "\<not> closed b1" using step_keeps_open [OF s Cons.prems(3,2)] Cons.prems(1) by auto
  then have "offered_bytes cfg send ops (b1, w1) = data_bytes (add_records ops)"
    using Cons.IH step_effect(1) [OF s Cons.prems(3)] Cons.prems(1) by simp
  with s Cons.prems(2) show ?case by (cases op) auto
qed simp

text \<open>Nothing is dropped while the records offered fit into the queue.\<close>

lemma accepted_all:
  assumes "CloseEvents \<notin> set ops" "\<not> closed b" "batcher_inv cfg b"
    "length (queue b) + length (add_records ops) \<le> bc_queue_size cfg"
  shows "accepted_records cfg send ops (b, w) = add_records ops"
  using assms
proof (induction ops arbitrary: b w)
  case (Cons op ops)
  obtain b1 w1 where s: "batcher_step cfg send op (b, w) = (b1, w1)"
    by (cases "batcher_step cfg send op (b, w)")
  have "\<not> closed b1 \<and> length (queue b1) + length (add_records ops) \<le> bc_queue_size cfg
    \<and> accepted_by cfg op b @ add_records ops = add_records (op # ops)"
  proof (cases op)
    case (Add st d)
    with s Cons.prems show ?thesis by (auto simp: add_def split: if_splits)
  next
    case Recv
    with s Cons.prems recv_effect(3,7) [of cfg send b w b1 w1] show ?thesis by auto
  next
    case Tick
    with s Cons.prems tick_effect(3,6) [of cfg send b w b1 w1] show ?thesis by simp
  qed (use Cons.prems in simp)
  then have "accepted_records cfg send ops (b1, w1) = add_records ops"
    and "accepted_by cfg op b @ add_records ops = add_records (op # ops)"
    using Cons.IH step_effect(1) [OF s Cons.prems(3)] Cons.prems(1) by auto
  with s show ?case by simp
qed simp

section \<open>Delivery\<close>

context message_sender
begin

text \<open>The messages of the history reach the channel: all of them when no error is recorded.\<close>

lemma sends_delivered:
  assumes "sends cfg send (b, w) (b', w')" "flush_log b' = flush_log b @ logged"
  shows "\<exists>ms. subseq ms (messages_of cfg logged)
           \<and> delivered w' = delivered w @ map (Pair (trim_space (bc_channel_id cfg))) ms"
    "first_err b' = None \<Longrightarrow>
       delivered w' = delivered w @ map (Pair (trim_space (bc_channel_id cfg))) (messages_of cfg logged)"
proof -
  have all: "send_all send w (bc_channel_id cfg) (messages_of cfg logged) (first_err b) = (w', first_err b')"
    using assms by (auto simp: sends_def)
  have ne: "\<forall>m \<in> set (messages_of cfg logged). m \<noteq> []"
    by (auto simp: messages_of_def dest: output_messages_nonempty)
  show "\<exists>ms. subseq ms (messages_of cfg logged)
           \<and> delivered w' = delivered w @ map (Pair (trim_space (bc_channel_id cfg))) ms"
    by (rule send_all_subseq [OF all ne])
  assume none: "first_err b' = None"
  have "first_err b = None"
    using all none by (cases "first_err b") (auto dest: send_all_keeps_error)
  with all none show "delivered w' = delivered w @ map (Pair (trim_space (bc_channel_id cfg))) (messages_of cfg logged)"
    by (intro send_all_ok ne) simp
qed

end

section \<open>The queue it implements\<close>

definition batcher_queue :: "batcher \<times> 'w \<Rightarrow> output_record lossy" where
  "batcher_queue = (\<lambda>(b, w). \<lparr>lq_items = queue b, lq_lost = dropped b, lq_shut = closed b\<rparr>)"

lemma batcher_queue_simps:
  "lq_items (batcher_queue (b, w)) = queue b" "lq_lost (batcher_queue (b, w)) = dropped b"
  "lq_shut (batcher_queue (b, w)) = closed b"
  by (simp_all add: batcher_queue_def)

fun batcher_view :: "batcher_op \<Rightarrow> output_record lq_op list" where
  "batcher_view (Add stream data) =
     (if data = [] then [] else [Offer \<lparr>or_stream = stream, or_data = data\<rparr> (length data)])"
| "batcher_view Recv = [Take]"
| "batcher_view Tick = []"
| "batcher_view CloseEvents = [Shut]"

interpretation batcher_lq: lossy_queue "bc_queue_size cfg" "batcher_step cfg send" "\<lambda>s. batcher_inv cfg (fst s)"
    "\<lambda>_ _. True" batcher_queue "\<lambda>op _. batcher_view op"
  for cfg and send :: "'w send"
proof
  fix s :: "batcher \<times> 'w" and op
  assume inv: "batcher_inv cfg (fst s)"
  obtain b w where s: "s = (b, w)" by (cases s)
  obtain b' w' where step: "batcher_step cfg send op (b, w) = (b', w')" by (cases "batcher_step cfg send op (b, w)")
  have b: "batcher_inv cfg b" using inv s by simp
  show "batcher_inv cfg (fst (batcher_step cfg send op s))"
    unfolding s step using step_effect(1) [OF step b] by simp
  show "batcher_queue (batcher_step cfg send op s) = lq_run (bc_queue_size cfg) (batcher_view op) (batcher_queue s)"
    unfolding s step
  proof (cases op)
    case (Add st d)
    with step show "batcher_queue (b', w') = lq_run (bc_queue_size cfg) (batcher_view op) (batcher_queue (b, w))"
      by (auto simp: batcher_queue_def add_def split: if_splits)
  next
    case Recv
    with step recv_effect [of cfg send b w b' w'] b
    show "batcher_queue (b', w') = lq_run (bc_queue_size cfg) (batcher_view op) (batcher_queue (b, w))"
      by (simp add: batcher_queue_def)
  next
    case Tick
    with step tick_effect [of cfg send b w b' w'] b
    show "batcher_queue (b', w') = lq_run (bc_queue_size cfg) (batcher_view op) (batcher_queue (b, w))"
      by (simp add: batcher_queue_def)
  next
    case CloseEvents
    with step show "batcher_queue (b', w') = lq_run (bc_queue_size cfg) (batcher_view op) (batcher_queue (b, w))"
      by (auto simp: batcher_queue_def)
  qed
qed

lemma batcher_lq_runs:
  "batcher_lq.runs cfg send ops s = batcher_run cfg send ops s" "batcher_lq.all_enabled cfg send ops s"
  "batcher_lq.views cfg send ops s = concat (map batcher_view ops)"
  by (induction ops arbitrary: s) simp_all

section \<open>Properties\<close>


text \<open>Every byte offered to \<open>Add\<close> while the batcher is open is either accepted or counted
  as dropped, and the queue never holds more records than its capacity, the buffer never as
  much as the flush threshold, the history only nonempty flushes of the three streams.\<close>

lemma batcher_accounts:
  "data_bytes (accepted_records cfg send ops (new_batcher, w))
       + dropped (fst (batcher_run cfg send ops (new_batcher, w)))
     = offered_bytes cfg send ops (new_batcher, w)
   \<and> batcher_inv cfg (fst (batcher_run cfg send ops (new_batcher, w)))"
proof -
  obtain b w' where r: "batcher_run cfg send ops (new_batcher, w) = (b, w')"
    by (cases "batcher_run cfg send ops (new_batcher, w)")
  show ?thesis using run_effect(1,4) [OF r batcher_inv_new] r by (simp add: new_batcher_def)
qed


definition sample_batcher_config :: batcher_config where
  "sample_batcher_config =
     \<lparr>bc_channel_id = ''12345678901234567'', bc_run_id = ''run'', bc_max_log = 256, bc_strip = True,
      bc_queue_size = 1\<rparr>"


text \<open>C7: The batcher's channel is a lossy queue. Under every interleaving of additions, receives, ticks
  and the close, and whatever the sender does, its queue, its count of dropped bytes and its
  closed flag are those of the abstract queue of the same capacity; so what is received and what
  is still queued is a selection of what was added, in order, and the bytes of the rest are
  exactly those counted.\<close>

theorem batcher_refines_lossy_queue:
  assumes "batcher_inv cfg b" "batcher_run cfg send ops (b, w) = (b', w')"
  shows "batcher_queue (b', w') = lq_run (bc_queue_size cfg) (concat (map batcher_view ops)) (batcher_queue (b, w))
    \<and> (\<exists>acc received offered. offered = lq_offered (bc_queue_size cfg) (concat (map batcher_view ops)) (batcher_queue (b, w))
        \<and> queue b @ map fst acc = received @ queue b' \<and> subseq acc offered
        \<and> weight acc + dropped b' = dropped b + weight offered)
    \<and> length (queue b') \<le> bc_queue_size cfg"
proof -
  have inv: "batcher_inv cfg (fst (b, w))" using assms(1) by simp
  note q = batcher_lq.runs_simulate [OF inv batcher_lq_runs(2) [of cfg send ops], unfolded batcher_lq_runs assms(2)]
  note c = batcher_lq.runs_conserve [OF inv batcher_lq_runs(2) [of cfg send ops], unfolded batcher_lq_runs assms(2)]
  have "length (queue b) \<le> bc_queue_size cfg" using assms(1) by (simp add: batcher_inv_def)
  note c = c(1-3) c(4) [unfolded batcher_queue_simps, OF this]
  show ?thesis
    by (intro conjI exI) (rule q refl c [unfolded batcher_queue_simps])+
qed

lemma batcher_refines_lossy_queue_witness:
  "\<exists>b' w'. batcher_run \<lparr>bc_channel_id = [], bc_run_id = [], bc_max_log = 4, bc_strip = False, bc_queue_size = 1\<rparr>
     (\<lambda>w c m. (w, None)) [Add ''stdout'' ''a'', Add ''stdout'' ''bc''] (new_batcher, ()) = (b', w') \<and> dropped b' = 2
     \<and> length (queue b') \<le> 1"
proof -
  let ?cfg = "\<lparr>bc_channel_id = [], bc_run_id = [], bc_max_log = 4, bc_strip = False, bc_queue_size = 1\<rparr>"
  let ?send = "\<lambda>(w :: unit) (c :: gostring) (m :: gostring). (w, None :: gostring option)"
  obtain b' w' where r: "batcher_run ?cfg ?send [Add ''stdout'' ''a'', Add ''stdout'' ''bc''] (new_batcher, ()) = (b', w')"
    by (metis prod.collapse)
  moreover have "dropped b' = 2" using r by (auto simp: new_batcher_def add_def)
  ultimately show ?thesis
    using batcher_refines_lossy_queue [OF batcher_inv_new r] by auto
qed

end
