(* ===== verification/Daemon_Format.thy ===== *)
theory Daemon_Format
  imports Go_Time Text_Util Batcher
begin

text \<open>
  The pure part of \<open>internal/daemon/server.go\<close>: validation of the start event and the text
  of the messages. A Go map is ranged over in random order; the code sorts the keys first, and
  the model does the same on the entry list.
\<close>

section \<open>Validation\<close>

definition isDiscordChannelID :: "gostring \<Rightarrow> bool" where
  "isDiscordChannelID value =
     (if value \<noteq> trim_space value \<or> length value < 17 \<or> 20 < length value then False
      else parse_uint64 value \<noteq> None)"

definition validate_start :: "event \<Rightarrow> gostring option" where
  "validate_start e =
     (if ev_version e \<noteq> protocol_version
      then Some (''unsupported protocol version '' @ format_int (ev_version e))
      else if ev_type e \<noteq> event_start then Some ''first event must be start''
      else if trim_space (ev_run_id e) = [] \<or> 128 < length (ev_run_id e) then Some ''invalid run ID''
      else if \<not> isDiscordChannelID (ev_channel_id e) then Some ''invalid Discord channel ID''
      else if length (ev_command e) = 0 then Some ''command is required''
      else if 128 < length (ev_environment e) then Some ''too many environment fields''
      else None)"

lemma isDiscordChannelID_iff:
  "isDiscordChannelID v \<longleftrightarrow>
     list_all is_digit v \<and> 17 \<le> length v \<and> length v \<le> 20 \<and> digits_val v < 2 ^ 64"
proof -
  have "trim_space v = v" if "list_all is_digit v"
    using that by (intro trim_space_all_graphic) (auto simp: list_all_iff is_digit_graphic)
  then show ?thesis by (auto simp: isDiscordChannelID_def parse_uint64_def)
qed

text \<open>Up to 19 digits always fit in 64 bits.\<close>

lemma isDiscordChannelID_short:
  assumes "list_all is_digit v" "17 \<le> length v" "length v \<le> 19"
  shows "isDiscordChannelID v"
proof -
  have "digits_val v < 10 ^ length v" by (rule digits_val_less [OF assms(1)])
  also have "\<dots> \<le> 10 ^ 19" using assms(3) by (rule power_increasing) simp
  finally show ?thesis using assms by (simp add: isDiscordChannelID_iff)
qed

lemma isDiscordChannelID_trim: "isDiscordChannelID v \<Longrightarrow> trim_space v = v"
  by (auto simp: isDiscordChannelID_def split: if_splits)

section \<open>Quoting\<close>

definition modifier_tick :: gostring where  \<comment> \<open>U+02CB\<close>
  "modifier_tick = [CHR 0xCB, CHR 0x8B]"

definition inline_code :: "gostring \<Rightarrow> gostring" where
  "inline_code value =
     replace_all [CR] '' '' (replace_all [NL] '' '' (replace_all [TICK] modifier_tick value))"

text \<open>\<open>strings.NewReplacer\<close> with one-byte patterns replaces byte by byte.\<close>

definition escape_markdown_char :: "char \<Rightarrow> gostring" where
  "escape_markdown_char c =
     (if c = BACKSLASH then [BACKSLASH, BACKSLASH]
      else if c = CHR ''*'' then [BACKSLASH, CHR ''*'']
      else if c = CHR ''_'' then [BACKSLASH, CHR ''_'']
      else if c = CHR ''~'' then [BACKSLASH, CHR ''~'']
      else if c = TICK then modifier_tick
      else [c])"

definition escape_markdown :: "gostring \<Rightarrow> gostring" where
  "escape_markdown value = concat (map escape_markdown_char value)"

text \<open>
  The predicate of \<open>shellQuote\<close> on runes holds for no rune outside ASCII, so it is a
  predicate on bytes.
\<close>

definition shell_safe :: "char \<Rightarrow> bool" where
  "shell_safe c \<longleftrightarrow>
     (0x61 \<le> byte c \<and> byte c \<le> 0x7A) \<or> (0x41 \<le> byte c \<and> byte c \<le> 0x5A)
     \<or> (0x30 \<le> byte c \<and> byte c \<le> 0x39) \<or> c \<in> set ''_@%+=:,./-''"

definition shell_quote :: "gostring \<Rightarrow> gostring" where
  "shell_quote value =
     (if value = [] then [SQUOTE, SQUOTE]
      else if list_all shell_safe value then value
      else [SQUOTE]
           @ replace_all [SQUOTE] [SQUOTE, DQUOTE, SQUOTE, DQUOTE, SQUOTE] value
           @ [SQUOTE])"

definition format_command :: "gostring list \<Rightarrow> bool \<Rightarrow> gostring" where
  "format_command command shell =
     (case command of
        [c] \<Rightarrow> if shell then c else join_with '' '' (map shell_quote command)
      | _ \<Rightarrow> join_with '' '' (map shell_quote command))"

section \<open>Messages\<close>

definition code_line :: "gostring \<Rightarrow> gostring \<Rightarrow> gostring" where
  "code_line label value = label @ [TICK] @ value @ [TICK]"

definition map_get :: "(gostring \<times> gostring) list \<Rightarrow> gostring \<Rightarrow> gostring" where
  "map_get m k = (case map_of m k of Some v \<Rightarrow> v | None \<Rightarrow> [])"

definition format_environment :: "(gostring \<times> gostring) list \<Rightarrow> gostring" where
  "format_environment env =
     concat (map (\<lambda>k. escape_code_fence k @ ''='' @ escape_code_fence (map_get env k) @ [NL])
       (sort (map fst env)))"

definition format_start :: "event \<Rightarrow> gostring" where
  "format_start e =
     (let name = (if trim_space (ev_name e) = [] then ''wrapped process'' else ev_name e) in
      [CHR 0xE2, CHR 0x96, CHR 0xB6, CHR 0xEF, CHR 0xB8, CHR 0x8F] @ '' **Run started: ''
      @ escape_markdown name @ ''**'' @ [NL]
      @ code_line ''Run: '' (short_run_id (ev_run_id e)) @ [NL]
      @ (if ev_hostname e \<noteq> [] then code_line ''Host: '' (inline_code (ev_hostname e)) @ [NL] else [])
      @ (if ev_working_directory e \<noteq> []
         then code_line ''Working directory: '' (inline_code (ev_working_directory e)) @ [NL] else [])
      @ ''Command:'' @ [NL] @ fence @ ''sh'' @ [NL]
      @ escape_code_fence (format_command (ev_command e) (ev_shell e)) @ [NL] @ fence
      @ (if 0 < length (ev_environment e)
         then [NL] @ ''Environment:'' @ [NL] @ fence @ ''text'' @ [NL]
              @ format_environment (ev_environment e) @ fence
         else []))"

definition value_or_default :: "int option \<Rightarrow> int \<Rightarrow> int" where
  "value_or_default value fallback = (case value of None \<Rightarrow> fallback | Some v \<Rightarrow> v)"

definition format_exit :: "event \<Rightarrow> event \<Rightarrow> nat \<Rightarrow> gostring option \<Rightarrow> gostring" where
  "format_exit start exit dropped_bytes relay_err =
     (let exit_code = value_or_default (ev_exit_code exit) (- 1);
          status = (if exit_code \<noteq> 0 \<or> ev_error exit \<noteq> []
                    then [CHR 0xE2, CHR 0x9D, CHR 0x8C] @ '' **Run failed**''
                    else [CHR 0xE2, CHR 0x9C, CHR 0x85] @ '' **Run completed**'')
      in status @ [NL] @ code_line ''Run: '' (short_run_id (ev_run_id start))
         @ [NL] @ code_line ''Exit code: '' (format_int exit_code)
         @ (if ev_timestamp start \<noteq> 0 \<and> ev_timestamp exit \<noteq> 0
            then [NL] @ code_line ''Duration: ''
                   (duration_string (duration_round (time_sub (ev_timestamp exit) (ev_timestamp start)) millisecond))
            else [])
         @ (if ev_error exit \<noteq> [] then [NL] @ code_line ''Error: '' (inline_code (ev_error exit)) else [])
         @ (if 0 < dropped_bytes
            then [NL] @ code_line ''Daemon-dropped output: '' (format_nat dropped_bytes @ '' bytes'') else [])
         @ (case relay_err of
              Some e \<Rightarrow> [NL] @ code_line ''Relay warning: '' (inline_code e)
            | None \<Rightarrow> []))"

section \<open>What the quoting guarantees\<close>

text \<open>Inside an inline code span no byte can end the span or the line.\<close>

lemma inline_code_safe:
  "TICK \<notin> set (inline_code v) \<and> NL \<notin> set (inline_code v) \<and> CR \<notin> set (inline_code v)"
  by (auto simp: inline_code_def replace_all_single modifier_tick_def split: if_splits)

lemma inline_code_id: "TICK \<notin> set v \<Longrightarrow> NL \<notin> set v \<Longrightarrow> CR \<notin> set v \<Longrightarrow> inline_code v = v"
  by (simp add: inline_code_def replace_all_no_first)

text \<open>Markdown's backslash escapes, undone: the reader sees the text, with its backticks replaced.\<close>

fun markdown_text :: "gostring \<Rightarrow> gostring" where
  "markdown_text [] = []"
| "markdown_text [c] = [c]"
| "markdown_text (c # d # s) =
     (if c = BACKSLASH \<and> d \<in> set [BACKSLASH, CHR ''*'', CHR ''_'', CHR ''~'']
      then d # markdown_text s else c # markdown_text (d # s))"

lemma markdown_text_plain: "c \<noteq> BACKSLASH \<Longrightarrow> markdown_text (c # s) = c # markdown_text s"
  by (cases s) auto

lemma markdown_text_escape:
  "markdown_text (escape_markdown v) = concat (map (\<lambda>c. if c = TICK then modifier_tick else [c]) v)"
proof (induction v)
  case (Cons c v)
  then show ?case
    by (auto simp: escape_markdown_def escape_markdown_char_def modifier_tick_def markdown_text_plain)
qed (simp add: escape_markdown_def)

text \<open>
  Word splitting and quote removal of the POSIX shell on the characters that \<open>shellQuote\<close>
  leaves unquoted, on single quotes and on double quotes without expansions; anything else is
  rejected (\<open>None\<close>), so a command that lexes has no character with a special meaning.
\<close>

datatype lex_mode = Between | InWord | InSingle | InDouble

fun shell_words :: "lex_mode \<Rightarrow> gostring \<Rightarrow> gostring \<Rightarrow> gostring list option" where
  "shell_words Between w [] = Some []"
| "shell_words InWord w [] = Some [w]"
| "shell_words _ w [] = None"
| "shell_words Between w (c # cs) =
     (if c = CHR '' '' then shell_words Between [] cs
      else if c = SQUOTE then shell_words InSingle [] cs
      else if c = DQUOTE then shell_words InDouble [] cs
      else if shell_safe c then shell_words InWord [c] cs
      else None)"
| "shell_words InWord w (c # cs) =
     (if c = CHR '' '' then map_option (Cons w) (shell_words Between [] cs)
      else if c = SQUOTE then shell_words InSingle w cs
      else if c = DQUOTE then shell_words InDouble w cs
      else if shell_safe c then shell_words InWord (w @ [c]) cs
      else None)"
| "shell_words InSingle w (c # cs) =
     (if c = SQUOTE then shell_words InWord w cs else shell_words InSingle (w @ [c]) cs)"
| "shell_words InDouble w (c # cs) =
     (if c = DQUOTE then shell_words InWord w cs
      else if c = CHR ''$'' \<or> c = TICK \<or> c = BACKSLASH then None
      else shell_words InDouble (w @ [c]) cs)"

lemma shell_safe_plain: "shell_safe c \<Longrightarrow> c \<noteq> CHR '' '' \<and> c \<noteq> SQUOTE \<and> c \<noteq> DQUOTE"
  by (auto simp: shell_safe_def)

lemma shell_words_safe:
  "list_all shell_safe v \<Longrightarrow> shell_words InWord w (v @ rest) = shell_words InWord (w @ v) rest"
  by (induction v arbitrary: w) (auto dest: shell_safe_plain)

lemma shell_words_single:
  "shell_words InSingle w
     (replace_all [SQUOTE] [SQUOTE, DQUOTE, SQUOTE, DQUOTE, SQUOTE] v @ SQUOTE # rest)
     = shell_words InWord (w @ v) rest"
  unfolding replace_all_single by (induction v arbitrary: w) auto

lemma shell_words_quote:
  "shell_words Between [] (shell_quote v @ rest) = shell_words InWord v rest"
proof (cases "v \<noteq> [] \<and> list_all shell_safe v")
  case True
  then obtain c cs where v: "v = c # cs" and safe: "shell_safe c" "list_all shell_safe cs"
    by (cases v) auto
  then show ?thesis
    using shell_words_safe [of cs "[c]" rest] shell_safe_plain [OF safe(1)]
    by (simp add: shell_quote_def)
next
  case False
  then show ?thesis
    using shell_words_single [of "[]" v rest] by (auto simp: shell_quote_def)
qed

lemma shell_words_join:
  "shell_words Between [] (join_with '' '' (map shell_quote args)) = Some args"
proof (induction args)
  case (Cons a args)
  show ?case
  proof (cases args)
    case Nil
    then show ?thesis using shell_words_quote [of a "[]"] by simp
  next
    case (Cons b bs)
    with Cons.IH shell_words_quote [of a] show ?thesis by simp
  qed
qed simp

text \<open>The environment block does not depend on the order in which the map is ranged over.\<close>

lemma format_environment_order:
  assumes "set a = set b" "distinct (map fst a)" "distinct (map fst b)"
  shows "format_environment a = format_environment b"
proof -
  have "map_of a = map_of b" using assms by (simp add: map_of_inject_set)
  moreover have "sort (map fst a) = sort (map fst b)"
    using assms by (intro sorted_distinct_set_unique) auto
  ultimately show ?thesis by (simp add: format_environment_def map_get_def)
qed

lemma format_start_nonempty [simp]: "format_start e \<noteq> []"
  by (simp add: format_start_def Let_def)

lemma format_exit_nonempty [simp]: "format_exit st ex n err \<noteq> []"
  by (simp add: format_exit_def Let_def)

section \<open>Properties\<close>

text \<open>The daemon takes as a channel ID exactly a string of 17 to 20 decimal digits whose value
  fits in 64 bits: no sign, no blanks, no other character.\<close>

lemma channel_id_exact:
  "isDiscordChannelID v \<longleftrightarrow>
     list_all is_digit v \<and> 17 \<le> length v \<and> length v \<le> 20 \<and> digits_val v < 2 ^ 64"
  by (rule isDiscordChannelID_iff)


text \<open>Text between backticks in a message cannot close its code span or start a new line.\<close>

lemma inline_code_confined:
  "TICK \<notin> set (inline_code v) \<and> NL \<notin> set (inline_code v) \<and> CR \<notin> set (inline_code v)"
  by (rule inline_code_safe)

text \<open>The run name in the start message reads, with Markdown's backslash escapes undone, as the
  name itself with its backticks replaced.\<close>

lemma escape_markdown_reads_back:
  "markdown_text (escape_markdown v) = concat (map (\<lambda>c. if c = TICK then modifier_tick else [c]) v)"
  by (rule markdown_text_escape)

text \<open>The environment block of the start message depends only on the map of fields, not on the
  order in which the map is ranged over.\<close>

lemma start_message_deterministic:
  assumes "set a = set b" "distinct (map fst a)" "distinct (map fst b)"
  shows "format_start (e\<lparr>ev_environment := a\<rparr>) = format_start (e\<lparr>ev_environment := b\<rparr>)"
proof -
  have "length a = length b"
    using assms by (metis distinct_card distinct_map)
  then show ?thesis using format_environment_order [OF assms] by (simp add: format_start_def Let_def)
qed

lemma start_message_deterministic_witness:
  "format_start (zero_event\<lparr>ev_environment := [(''A'', ''1''), (''B'', ''2'')]\<rparr>)
     = format_start (zero_event\<lparr>ev_environment := [(''B'', ''2''), (''A'', ''1'')]\<rparr>)"
  using start_message_deterministic [of "[(''A'', ''1''), (''B'', ''2'')]" "[(''B'', ''2''), (''A'', ''1'')]" zero_event]
  by (simp add: insert_commute)

end
