(* ===== verification/Go_Os.thy ===== *)
theory Go_Os
  imports Go_Strings
begin

text \<open>
  The process environment as package \<open>os\<close> shows it: a map; \<open>os.Getenv\<close> of an unset variable
  is the empty string, \<open>os.LookupEnv\<close> tells the two apart, and \<open>os.Setenv\<close> refuses a value
  with a NUL byte (and keys that the callers here never pass).
\<close>

type_synonym environment = "gostring \<rightharpoonup> gostring"

definition getenv :: "environment \<Rightarrow> gostring \<Rightarrow> gostring" where
  "getenv env k = (case env k of None \<Rightarrow> [] | Some v \<Rightarrow> v)"

definition trimmed_env :: "environment \<Rightarrow> gostring \<Rightarrow> gostring" where
  "trimmed_env env k = trim_space (getenv env k)"

definition setenv :: "gostring \<Rightarrow> gostring \<Rightarrow> environment \<Rightarrow> environment option" where
  "setenv k v env = (if CHR 0x00 \<in> set v then None else Some (env(k \<mapsto> v)))"

lemma getenv_update [simp]: "getenv (env(k \<mapsto> v)) k' = (if k' = k then v else getenv env k')"
  by (simp add: getenv_def)

end
