(* ===== verification/Go_Float.thy ===== *)
theory Go_Float
  imports "HOL-Library.Log_Nat" Go_Strconv
begin

text \<open>
  Go's \<open>float64\<close>, as far as the program computes with it: rounding to nearest (ties to even)
  with 53 bits and the range of IEEE 754 doubles, products, quotients, the conversion to
  \<open>int64\<close>, and \<open>strconv.ParseFloat\<close>. A finite float is its value, a rational number; the sign of
  zero is not kept, as the program only compares floats, scales them by positive constants and
  converts them. The conversion of a float out of range depends on the machine in Go: \<open>conv\<close>.
\<close>

datatype float64 = NaN | Infinite bool | Finite rat      \<comment> \<open>\<open>Infinite True\<close> is negative\<close>

section \<open>Rounding\<close>

definition round_even :: "rat \<Rightarrow> int" where
  "round_even y =
     (let q = \<lfloor>y\<rfloor>; r = y - of_int q in if r < 1 / 2 \<or> r = 1 / 2 \<and> even q then q else q + 1)"

text \<open>The binary exponent of a positive number.\<close>

definition binary_exponent :: "rat \<Rightarrow> int" where
  "binary_exponent y =
     (case quotient_of y of (p, q) \<Rightarrow>
        (let e = bitlen p - bitlen q in if 2 powi e \<le> y then e else e - 1))"

text \<open>The distance of the floats around \<open>x\<close>; below the normal range it stays the same.\<close>

definition float_ulp :: "rat \<Rightarrow> rat" where
  "float_ulp x = 2 powi (max (binary_exponent \<bar>x\<bar>) (- 1022) - 52)"

definition round64 :: "rat \<Rightarrow> float64" where
  "round64 x =
     (if x = 0 then Finite 0
      else
        (let v = of_int (round_even (x / float_ulp x)) * float_ulp x
         in if of_int (2 ^ 1024) \<le> \<bar>v\<bar> then Infinite (x < 0) else Finite v))"

section \<open>Arithmetic\<close>

fun float_mult :: "float64 \<Rightarrow> float64 \<Rightarrow> float64" where
  "float_mult (Finite x) (Finite y) = round64 (x * y)"
| "float_mult (Infinite a) (Infinite b) = Infinite (a \<noteq> b)"
| "float_mult (Infinite a) (Finite y) = (if y = 0 then NaN else Infinite (a \<noteq> (y < 0)))"
| "float_mult (Finite x) (Infinite b) = (if x = 0 then NaN else Infinite ((x < 0) \<noteq> b))"
| "float_mult _ _ = NaN"

text \<open>The comparison \<open>f <= 0\<close>, false for a NaN.\<close>

fun float_le_zero :: "float64 \<Rightarrow> bool" where
  "float_le_zero (Finite x) = (x \<le> 0)"
| "float_le_zero (Infinite neg) = neg"
| "float_le_zero NaN = False"

definition rat_trunc :: "rat \<Rightarrow> int" where
  "rat_trunc x = (if 0 \<le> x then \<lfloor>x\<rfloor> else \<lceil>x\<rceil>)"

definition float_to_int64 :: "(float64 \<Rightarrow> int) \<Rightarrow> float64 \<Rightarrow> int" where
  "float_to_int64 conv f =
     (case f of
        Finite x \<Rightarrow>
          if - (2 ^ 63) \<le> rat_trunc x \<and> rat_trunc x < 2 ^ 63 then rat_trunc x else conv f
      | _ \<Rightarrow> conv f)"

section \<open>Parsing\<close>

text \<open>
  \<open>strconv.ParseFloat(s, 64)\<close>; an error is \<open>None\<close>, also one of range: the program ignores the
  result then. A text is read as an exact number, which is rounded once.
\<close>

text \<open>\<open>special\<close>\<close>

definition special_float :: "gostring \<Rightarrow> float64 option" where
  "special_float s =
     (let (neg, t) =
        (case s of c # cs \<Rightarrow> if c = CHR ''-'' then (True, cs) else if c = CHR ''+'' then (False, cs) else (False, s)
         | [] \<Rightarrow> (False, s))
      in if map lower_char t = ''inf'' \<or> map lower_char t = ''infinity'' then Some (Infinite neg)
         else if map lower_char s = ''nan'' then Some NaN
         else None)"

text \<open>The exponent, which stops growing at 10000; then its digits and underscores.\<close>

definition exponent_value :: "gostring \<Rightarrow> int" where
  "exponent_value ds = foldl (\<lambda>e c. if e < 10000 then 10 * e + int (digit_val c) else e) 0 (filter is_digit ds)"

definition read_exponent :: "char \<Rightarrow> gostring \<Rightarrow> int option" where
  "read_exponent marker s =
     (case s of
        [] \<Rightarrow> None
      | c # cs \<Rightarrow>
          if lower_char c \<noteq> marker then None
          else
            (let (neg, t) =
               (case cs of d # ds \<Rightarrow> if d = CHR ''-'' then (True, ds) else if d = CHR ''+'' then (False, ds) else (False, cs)
                | [] \<Rightarrow> (False, cs))
             in if t = [] \<or> \<not> is_digit (hd t) \<or> \<not> list_all (\<lambda>c. is_digit c \<or> c = CHR ''_'') t then None
                else Some (if neg then - exponent_value t else exponent_value t)))"

text \<open>\<open>readFloat\<close>: the number that a text denotes, without its sign.\<close>

definition unsigned_number :: "gostring \<Rightarrow> rat option" where
  "unsigned_number s =
     (let hex = (2 < length s \<and> hd s = CHR ''0'' \<and> lower_char (s ! 1) = CHR ''x'');
          base = (if hex then 16 else 10);
          t = (if hex then drop 2 s else s);
          in_mantissa = (\<lambda>c. is_base_digit base c \<or> c = CHR ''.'' \<or> c = CHR ''_'');
          m = filter (\<lambda>c. c \<noteq> CHR ''_'') (takeWhile in_mantissa t);
          r = dropWhile in_mantissa t;
          ints = takeWhile (\<lambda>c. c \<noteq> CHR ''.'') m;
          fracs = drop (length ints + 1) m
      in if CHR ''.'' \<in> set fracs \<or> ints @ fracs = [] then None
         else
           (case (if r = [] \<and> \<not> hex then Some 0 else read_exponent (if hex then CHR ''p'' else CHR ''e'') r) of
              None \<Rightarrow> None
            | Some e \<Rightarrow>
                Some (of_int (base_value base (ints @ fracs)) / of_int (int base ^ length fracs)
                      * (if hex then 2 else 10) powi e)))"

definition number_of_text :: "gostring \<Rightarrow> rat option" where
  "number_of_text s =
     (let neg = (s \<noteq> [] \<and> hd s = CHR ''-'');
          t = (if s \<noteq> [] \<and> (hd s = CHR ''-'' \<or> hd s = CHR ''+'') then tl s else s)
      in if CHR ''_'' \<in> set s \<and> \<not> underscore_ok s then None
         else map_option (\<lambda>x. if neg then - x else x) (unsigned_number t))"

definition parse_float :: "gostring \<Rightarrow> float64 option" where
  "parse_float s =
     (case special_float s of
        Some f \<Rightarrow> Some f
      | None \<Rightarrow>
          (case number_of_text s of
             None \<Rightarrow> None
           | Some x \<Rightarrow> (case round64 x of Infinite _ \<Rightarrow> None | f \<Rightarrow> Some f)))"

section \<open>Facts on rounding\<close>

lemma binary_exponent_bounds:
  assumes "0 < y"
  shows "2 powi binary_exponent y \<le> y" "y < 2 powi (binary_exponent y + 1)"
proof -
  obtain p q where pq: "quotient_of y = (p, q)" by fastforce
  have q: "0 < q" using quotient_of_denom_pos [OF pq] .
  have y: "y = of_int p / of_int q" using quotient_of_div [OF pq] .
  then have p: "0 < p" using assms q by (simp add: zero_less_divide_iff)
  have b: "2 ^ nat (bitlen p - 1) \<le> p" "p < 2 ^ nat (bitlen p)" "2 ^ nat (bitlen q - 1) \<le> q" "q < 2 ^ nat (bitlen q)"
    using bitlen_bounds [OF p] bitlen_bounds [OF q] by simp_all
  have pos: "1 \<le> bitlen p" "1 \<le> bitlen q"
    using bitlen_eq_zero_iff [of p] bitlen_eq_zero_iff [of q] bitlen_nonneg [of p] bitlen_nonneg [of q] p q by linarith+
  have w: "(2 :: rat) powi n = of_int (2 ^ nat n)" if "0 \<le> n" for n
    using that by (simp add: power_int_def)
  have r: "(2 :: rat) powi (bitlen p - 1) \<le> of_int p" "of_int p < (2 :: rat) powi bitlen p"
      "(2 :: rat) powi (bitlen q - 1) \<le> of_int q" "of_int q < (2 :: rat) powi bitlen q"
    using b pos by (simp_all add: w del: of_int_power of_int_numeral)
  have up: "y < 2 powi (bitlen p - bitlen q + 1)"
  proof -
    have "y * 2 powi (bitlen q - 1) \<le> of_int p"
      using mult_left_mono [OF r(3), of "of_int p"] p q by (simp add: y pos_divide_le_eq)
    also have "\<dots> < 2 powi (bitlen p - bitlen q + 1) * 2 powi (bitlen q - 1)"
      using r(2) by (simp add: power_int_add [symmetric])
    finally show ?thesis by (simp add: mult_less_cancel_right)
  qed
  have low: "2 powi (bitlen p - bitlen q - 1) < y"
  proof -
    have "2 powi (bitlen p - bitlen q - 1) * of_int q < (2 :: rat) powi (bitlen p - bitlen q - 1) * 2 powi bitlen q"
      using r(4) by simp
    also have "\<dots> = (2 :: rat) powi (bitlen p - 1)" by (simp add: power_int_add [symmetric])
    finally show ?thesis using r(1) q by (simp add: y pos_less_divide_eq)
  qed
  show "2 powi binary_exponent y \<le> y" "y < 2 powi (binary_exponent y + 1)"
    using up low by (simp_all add: binary_exponent_def pq Let_def)
qed

lemma powi_less_imp: "(2 :: rat) powi a < 2 powi b \<Longrightarrow> a < b"
  using power_int_increasing [of b a "2 :: rat"] by (cases "b \<le> a") simp_all

lemma powi_le_imp: "(2 :: rat) powi a \<le> 2 powi b \<Longrightarrow> a \<le> b"
  using power_int_strict_increasing [of b a "2 :: rat"] by (cases "b < a") simp_all

lemma binary_exponent_ge: "2 powi k \<le> y \<Longrightarrow> k \<le> binary_exponent y"
proof -
  assume k: "2 powi k \<le> y"
  then have "0 < y" by (rule less_le_trans [rotated]) simp
  from k binary_exponent_bounds(2) [OF this] have "(2 :: rat) powi k < 2 powi (binary_exponent y + 1)" by linarith
  then have "k < binary_exponent y + 1" by (rule powi_less_imp)
  then show ?thesis by simp
qed

lemma binary_exponent_less: "0 < y \<Longrightarrow> y < 2 powi k \<Longrightarrow> binary_exponent y < k"
proof -
  assume "0 < y" "y < 2 powi k"
  with binary_exponent_bounds(1) [OF \<open>0 < y\<close>] have "(2 :: rat) powi binary_exponent y < 2 powi k" by linarith
  then show ?thesis by (rule powi_less_imp)
qed

lemma float_ulp_pos [simp]: "0 < float_ulp x"
  by (simp add: float_ulp_def)

lemma round_even_near: "2 * \<bar>of_int (round_even y) - y\<bar> \<le> 1"
proof -
  define r where "r = y - of_int \<lfloor>y\<rfloor>"
  have "0 \<le> r" "r < 1" unfolding r_def by linarith+
  moreover have "of_int (round_even y) - y = (if r < 1 / 2 \<or> r = 1 / 2 \<and> even \<lfloor>y\<rfloor> then - r else 1 - r)"
    by (simp add: round_even_def r_def Let_def)
  ultimately show ?thesis by (auto simp: abs_if)
qed

lemma round_even_of_int [simp]: "round_even (of_int n) = n"
  by (simp add: round_even_def)

lemma scaled_distance: "0 < u \<Longrightarrow> \<bar>n * u - x\<bar> = \<bar>n - x / u\<bar> * (u :: rat)"
proof -
  assume u: "0 < u"
  then have "n * u - x = (n - x / u) * u" by (simp add: left_diff_distrib)
  then show ?thesis using u by (simp only: abs_mult abs_of_pos)
qed

text \<open>Half a unit in the last place, and what that is relative to the number.\<close>

lemma round64_near:
  assumes "round64 x = Finite v"
  shows "2 * \<bar>v - x\<bar> \<le> float_ulp x"
proof (cases "x = 0")
  case False
  define u where "u = float_ulp x"
  have u: "0 < u" by (simp add: u_def)
  have v: "v = of_int (round_even (x / u)) * u"
    using assms False by (simp add: round64_def Let_def u_def split: if_splits)
  have "\<bar>v - x\<bar> = \<bar>of_int (round_even (x / u)) - x / u\<bar> * u"
    unfolding v using u by (rule scaled_distance)
  moreover have "2 * \<bar>of_int (round_even (x / u)) - x / u\<bar> * u \<le> 1 * u"
    using round_even_near [of "x / u"] u by (intro mult_right_mono) simp_all
  ultimately show ?thesis by (simp add: u_def)
qed (use assms less_imp_le [OF float_ulp_pos, of 0] in \<open>simp add: round64_def\<close>)

lemma float_ulp_relative:
  assumes "2 powi (- 1022) \<le> \<bar>x\<bar>"
  shows "float_ulp x \<le> \<bar>x\<bar> / 2 ^ 52"
proof -
  have pos: "0 < \<bar>x\<bar>" using assms by (rule less_le_trans [rotated]) simp
  have "float_ulp x = 2 powi (binary_exponent \<bar>x\<bar> - 52)"
    using binary_exponent_ge [OF assms] by (simp add: float_ulp_def)
  also have "\<dots> = 2 powi binary_exponent \<bar>x\<bar> / 2 ^ 52"
    by (simp add: power_int_diff)
  also have "\<dots> \<le> \<bar>x\<bar> / 2 ^ 52"
    using binary_exponent_bounds(1) [OF pos] by (intro divide_right_mono) simp_all
  finally show ?thesis .
qed

lemma round64_relative:
  assumes "round64 x = Finite v" "2 powi (- 1022) \<le> \<bar>x\<bar>"
  shows "\<bar>v - x\<bar> \<le> \<bar>x\<bar> / 2 ^ 53"
  using round64_near [OF assms(1)] float_ulp_relative [OF assms(2)] by simp

text \<open>A number with at most 53 significant bits, in range, is a float.\<close>

lemma round64_exact:
  assumes "x = of_int m * 2 powi k" "\<bar>m\<bar> \<le> 2 ^ 53" "- 1074 \<le> k" "\<bar>x\<bar> < 2 ^ 1024"
  shows "round64 x = Finite x"
proof (cases "x = 0")
  case False
  then have m: "m \<noteq> 0" and pos: "0 < \<bar>x\<bar>" using assms(1) by auto
  define e where "e = max (binary_exponent \<bar>x\<bar>) (- 1022)"
  have ulp: "float_ulp x = 2 powi (e - 52)" by (simp add: float_ulp_def e_def)
  have "(2 :: rat) powi k / 2 powi (e - 52) = 2 powi (k - (e - 52))" by (rule power_int_diff [symmetric]) simp
  moreover have "k - (e - 52) = k - e + 52" by simp
  moreover have "x / float_ulp x = of_int m * ((2 :: rat) powi k / 2 powi (e - 52))"
    unfolding ulp unfolding assms(1) by simp
  ultimately have q: "x / float_ulp x = of_int m * 2 powi (k - e + 52)" by simp
  have "\<exists>n. x / float_ulp x = of_int n"
  proof (cases "0 \<le> k - e + 52")
    case True
    then have "x / float_ulp x = of_int (m * 2 ^ nat (k - e + 52))" by (simp add: q power_int_def)
    then show ?thesis by blast
  next
    case False
    with assms(3) have e: "e = binary_exponent \<bar>x\<bar>" "k + 53 \<le> e" by (simp_all add: e_def max_def split: if_splits)
    have x: "\<bar>x\<bar> = of_int \<bar>m\<bar> * 2 powi k" by (simp add: assms(1) abs_mult)
    have m53: "(of_int \<bar>m\<bar> :: rat) \<le> 2 powi 53"
      using assms(2) by (metis (no_types, lifting) of_int_le_numeral_power_cancel_iff power_int_numeral)
    then have "\<bar>x\<bar> \<le> 2 powi 53 * 2 powi k" unfolding x by (intro mult_right_mono) simp_all
    moreover have shift: "(2 :: rat) powi 53 * 2 powi k = 2 powi (k + 53)"
      by (subst power_int_add [symmetric]) (simp_all add: add.commute)
    ultimately have le: "\<bar>x\<bar> \<le> 2 powi (k + 53)" by (simp only: shift)
    have ge: "2 powi e \<le> \<bar>x\<bar>" using binary_exponent_bounds(1) [OF pos] e(1) by simp
    with le have "(2 :: rat) powi e \<le> 2 powi (k + 53)" by linarith
    then have "e \<le> k + 53" by (rule powi_le_imp)
    with e(2) have ek: "e = k + 53" by simp
    with le ge have "\<bar>x\<bar> = 2 powi (k + 53)" by simp
    then have "of_int \<bar>m\<bar> * (2 :: rat) powi k = 2 powi 53 * 2 powi k"
      unfolding x shift .
    then have "of_int \<bar>m\<bar> = (2 :: rat) ^ 53" by simp
    then have "\<bar>m\<bar> = 2 ^ 53" by (metis of_int_eq_numeral_power_cancel_iff)
    then have "m = 2 * 2 ^ 52 \<or> m = 2 * (- (2 ^ 52))" by (simp add: abs_if split: if_splits)
    moreover have "k - e + 52 = - 1" using ek by simp
    then have "(2 :: rat) powi (k - e + 52) = 1 / 2" by (simp only: power_int_minus1_right) simp
    ultimately have "x / float_ulp x = of_int (2 ^ 52) \<or> x / float_ulp x = of_int (- (2 ^ 52))"
      unfolding q by auto
    then show ?thesis by blast
  qed
  then obtain n where n: "x / float_ulp x = of_int n" by blast
  moreover have "float_ulp x \<noteq> 0" by (metis float_ulp_pos less_irrefl)
  ultimately have "of_int n * float_ulp x = x" by (metis nonzero_divide_eq_eq)
  with False assms(4) show ?thesis by (simp add: round64_def Let_def n)
qed (simp add: round64_def)

lemma round64_int: "\<bar>n\<bar> \<le> 2 ^ 53 \<Longrightarrow> round64 (of_int n) = Finite (of_int n)"
proof (rule round64_exact [of _ n 0])
  assume n: "\<bar>n\<bar> \<le> 2 ^ 53"
  then have "(of_int \<bar>n\<bar> :: rat) \<le> of_int (2 ^ 53)" by (simp only: of_int_le_iff)
  also have "\<dots> < 2 ^ 1024" by simp
  finally show "\<bar>rat_of_int n\<bar> < 2 ^ 1024" by simp
qed simp_all

lemma round64_zero [simp]: "round64 0 = Finite 0"
  by (simp add: round64_def)

text \<open>No overflow below the largest power of two.\<close>

lemma round64_finite:
  assumes "\<bar>x\<bar> \<le> 2 ^ 1023"
  obtains v where "round64 x = Finite v"
proof (cases "x = 0")
  case False
  define v where "v = of_int (round_even (x / float_ulp x)) * float_ulp x"
  show ?thesis
  proof (cases "2 ^ 1024 \<le> \<bar>v\<bar>")
    case True
    define u where "u = float_ulp x"
    have u: "0 < u" by (simp add: u_def)
    have "\<bar>v - x\<bar> = \<bar>of_int (round_even (x / u)) - x / u\<bar> * u"
      unfolding v_def u_def [symmetric] using u by (rule scaled_distance)
    moreover have "\<bar>of_int (round_even (x / u)) - x / u\<bar> * u \<le> 1 * u"
      using round_even_near [of "x / u"] u by (intro mult_right_mono) simp_all
    ultimately have "\<bar>v - x\<bar> \<le> u" by simp
    moreover have "u < 2 ^ 1023"
    proof -
      have "\<bar>x\<bar> < 2 powi 1024" using assms by (simp add: le_less_trans)
      then have "binary_exponent \<bar>x\<bar> < 1024" using False by (intro binary_exponent_less) simp_all
      then have "max (binary_exponent \<bar>x\<bar>) (- 1022) - 52 < 1023" by simp
      then have "u < 2 powi 1023" unfolding u_def float_ulp_def by (intro power_int_strict_increasing) simp_all
      then show ?thesis by simp
    qed
    ultimately have "\<bar>v\<bar> < 2 ^ 1023 + 2 ^ 1023" using assms by linarith
    also have "\<dots> = (2 :: rat) ^ 1024" by simp
    finally show ?thesis using True by simp
  next
    case False
    with \<open>x \<noteq> 0\<close> show ?thesis by (intro that [of v]) (simp add: round64_def v_def Let_def)
  qed
qed (use that in simp)

section \<open>Numbers that are read\<close>

lemma no_empty_number: "unsigned_number [] = None"
  by (simp add: unsigned_number_def)

lemma letter_no_number:
  assumes "lower_char c = CHR ''i'' \<or> lower_char c = CHR ''n''"
  shows "unsigned_number (c # cs) = None"
proof -
  have d: "\<not> is_digit c" using assms by (auto simp: is_digit_def)
  then have "base_digit_val c = byte (lower_char c) - 0x61 + 10" by (simp add: base_digit_val_def)
  then have b: "\<not> is_base_digit 10 c" using assms by (auto simp: is_base_digit_def)
  have c: "c \<noteq> CHR ''0''" "c \<noteq> CHR ''.''" "c \<noteq> CHR ''_''" using assms by (auto simp: lower_char_def)
  then show ?thesis using b by (simp add: unsigned_number_def Let_def)
qed

lemma special_not_number:
  assumes "number_of_text s = Some x"
  shows "special_float s = None"
proof -
  define t where "t = (if s \<noteq> [] \<and> (hd s = CHR ''-'' \<or> hd s = CHR ''+'') then tl s else s)"
  have "unsigned_number t \<noteq> None"
    using assms by (auto simp: number_of_text_def t_def [symmetric] Let_def split: if_splits)
  then have t: "t \<noteq> [] \<and> lower_char (hd t) \<noteq> CHR ''i'' \<and> lower_char (hd t) \<noteq> CHR ''n''"
    using letter_no_number [of "hd t" "tl t"] no_empty_number by (cases t) auto
  then have no: "map lower_char t \<noteq> ''inf'' \<and> map lower_char t \<noteq> ''infinity''" by (cases t) simp_all
  have nan: "map lower_char s \<noteq> ''nan''"
  proof
    assume n: "map lower_char s = ''nan''"
    then have "lower_char (hd s) = CHR ''n''" by (cases s) simp_all
    then have "hd s \<noteq> CHR ''-''" "hd s \<noteq> CHR ''+''" by (auto simp: lower_char_def)
    with n t show False by (cases s) (simp_all add: t_def)
  qed
  have "special_float s = (if map lower_char t = ''inf'' \<or> map lower_char t = ''infinity''
      then Some (Infinite (s \<noteq> [] \<and> hd s = CHR ''-'')) else if map lower_char s = ''nan'' then Some NaN else None)"
    by (cases s) (simp_all add: special_float_def t_def)
  with no nan show ?thesis by simp
qed

lemma parse_float_number:
  "number_of_text s = Some x \<Longrightarrow> round64 x = Finite v \<Longrightarrow> parse_float s = Some (Finite v)"
  by (simp add: parse_float_def special_not_number)

text \<open>A number that is read and scaled: rounded twice on its way to an integer.\<close>

lemma read_and_scaled:
  assumes "2 powi (- 1022) \<le> x" "x * c \<le> 9 * 10 ^ 18" "2 \<le> c"
  obtains v where "round64 x = Finite v" "0 < v"
    "\<lfloor>x * c * (1 - 1 / 2 ^ 52)\<rfloor> \<le> float_to_int64 conv (float_mult (Finite v) (Finite c))"
proof -
  have x: "0 < x" using assms(1) by (rule less_le_trans [rotated]) simp
  have "x * 1 \<le> x * c" using x assms(3) by (intro mult_left_mono) simp_all
  then have "x \<le> 9 * 10 ^ 18" using assms(2) by simp
  moreover have bound: "(2 :: rat) * (9 * 10 ^ 18) \<le> 2 ^ 1023" by simp
  ultimately have "\<bar>x\<bar> \<le> 2 ^ 1023" using x by linarith
  then obtain v where v: "round64 x = Finite v" by (rule round64_finite)
  have "\<bar>v - x\<bar> \<le> x / 2 ^ 53" using round64_relative [OF v] assms(1) x by simp
  then have vx: "x - x / 2 ^ 53 \<le> v" "v \<le> x + x / 2 ^ 53" by linarith+
  have half: "x / 2 ^ 53 \<le> x / 2" using x by (simp add: field_simps)
  then have v0: "x / 2 \<le> v" "0 < v" using vx x by linarith+
  define y where "y = v * c"
  define b where "b = x * c"
  have c: "0 < c" using assms(3) by simp
  have b: "0 < b" "b \<le> 9 * 10 ^ 18" using x c assms(2) by (simp_all add: b_def)
  have y1: "b - b / 2 ^ 53 \<le> y" "y \<le> b + b / 2 ^ 53"
    using mult_right_mono [OF vx(1), of c] mult_right_mono [OF vx(2), of c] c
    by (simp_all add: y_def b_def algebra_simps)
  have "x / 2 * 2 \<le> v * c" using v0 x assms(3) by (intro mult_mono) simp_all
  then have y: "x \<le> y" "0 < y" using x by (simp_all add: y_def)
  have y2: "y \<le> 2 * (9 * 10 ^ 18)" using y1(2) b by (simp add: field_simps)
  then have "\<bar>y\<bar> \<le> 2 ^ 1023" using y(2) bound by linarith
  then obtain w where w: "round64 y = Finite w" by (rule round64_finite)
  have "2 powi (- 1022) \<le> \<bar>y\<bar>" using assms(1) y by linarith
  then have "\<bar>w - y\<bar> \<le> y / 2 ^ 53" using round64_relative [OF w] y(2) by simp
  then have wy: "y - y / 2 ^ 53 \<le> w" "w \<le> y + y / 2 ^ 53" by linarith+
  have low: "b * (1 - 1 / 2 ^ 52) \<le> w" using wy(1) y1(1) b(1) by (simp add: field_simps)
  have high: "w < 2 ^ 63" using wy(2) y1(2) b by (simp add: field_simps)
  have "0 \<le> b * (1 - 1 / 2 ^ 52)" using b(1) by simp
  then have w0: "0 \<le> w" using low by linarith
  have "\<lfloor>w\<rfloor> < 2 ^ 63" using high by (simp add: floor_less_iff)
  moreover have "0 \<le> \<lfloor>w\<rfloor>" using w0 by simp
  ultimately have "float_to_int64 conv (float_mult (Finite v) (Finite c)) = \<lfloor>w\<rfloor>"
    using w w0 by (simp add: y_def float_to_int64_def rat_trunc_def)
  moreover have "\<lfloor>b * (1 - 1 / 2 ^ 52)\<rfloor> \<le> \<lfloor>w\<rfloor>" using low by (rule floor_mono)
  ultimately show thesis using that [OF v v0(2)] by (simp add: b_def)
qed

end
