(* ===== verification/Go_Duration.thy ===== *)
theory Go_Duration
  imports Go_Float Go_Time
begin

text \<open>
  \<open>time.ParseDuration\<close>, with its overflow checks and its detour through floating point for
  fractions, and the proof that it reads back what \<open>Duration.String\<close> prints.
\<close>

section \<open>Parsing\<close>

text \<open>\<open>leadingInt\<close>: digits, with a check for overflow at each; what is left of the text.\<close>

fun leading_int :: "int \<Rightarrow> gostring \<Rightarrow> (int \<times> gostring) option" where
  "leading_int x [] = Some (x, [])"
| "leading_int x (c # cs) =
     (if \<not> is_digit c then Some (x, c # cs)
      else if 2 ^ 63 div 10 < x then None
      else
        (let x' = x * 10 + int (digit_val c) in
         if 2 ^ 63 < x' then None else leading_int x' cs))"

text \<open>
  \<open>leadingFraction\<close>: the digits that fit, how many they are, what is left. The code keeps ten to
  that power as a float, which is exact up to the nineteen digits that can fit.
\<close>

fun leading_fraction :: "int \<Rightarrow> nat \<Rightarrow> bool \<Rightarrow> gostring \<Rightarrow> int \<times> nat \<times> gostring" where
  "leading_fraction x k over [] = (x, k, [])"
| "leading_fraction x k over (c # cs) =
     (if \<not> is_digit c then (x, k, c # cs)
      else if over \<or> (2 ^ 63 - 1) div 10 < x then leading_fraction x k True cs
      else
        (let y = x * 10 + int (digit_val c) in
         if 2 ^ 63 < y then leading_fraction x k True cs else leading_fraction y (Suc k) False cs))"

definition unit_map :: "(gostring \<times> int) list" where
  "unit_map =
     [(''ns'', 1), (''us'', 1000), ([CHR 0xC2, CHR 0xB5] @ ''s'', 1000), ([CHR 0xCE, CHR 0xBC] @ ''s'', 1000),
      (''ms'', millisecond), (''s'', second), (''m'', 60 * second), (''h'', 3600 * second)]"

text \<open>\<open>uint64(float64(f) * (float64(unit) / scale))\<close>; the product is in range.\<close>

definition fraction_units :: "int \<Rightarrow> nat \<Rightarrow> int \<Rightarrow> int" where
  "fraction_units f k unit =
     (case float_mult (round64 (of_int f)) (round64 (of_int unit / of_int (10 ^ k))) of
        Finite x \<Rightarrow> rat_trunc x
      | _ \<Rightarrow> 0)"

text \<open>One number with its unit, and the rest of the text.\<close>

definition duration_part :: "gostring \<Rightarrow> (int \<times> gostring) option" where
  "duration_part s =
     (if s = [] \<or> hd s \<noteq> CHR ''.'' \<and> \<not> is_digit (hd s) then None
      else
        (case leading_int 0 s of
           None \<Rightarrow> None
         | Some (v, s1) \<Rightarrow>
             (let pre = (length s1 \<noteq> length s);
                  dot = (s1 \<noteq> [] \<and> hd s1 = CHR ''.'');
                  (f, k, s2) = (if dot then leading_fraction 0 0 False (tl s1) else (0, 0, s1));
                  post = (dot \<and> length s2 \<noteq> length (tl s1));
                  in_unit = (\<lambda>c. c \<noteq> CHR ''.'' \<and> \<not> is_digit c);
                  u = takeWhile in_unit s2
              in if \<not> pre \<and> \<not> post \<or> u = [] then None
                 else
                   (case map_of unit_map u of
                      None \<Rightarrow> None
                    | Some unit \<Rightarrow>
                        if 2 ^ 63 div unit < v then None
                        else if f > 0
                        then (let w = v * unit + fraction_units f k unit
                              in if 2 ^ 63 < w then None else Some (w, dropWhile in_unit s2))
                        else Some (v * unit, dropWhile in_unit s2)))))"

lemma leading_int_length: "leading_int x s = Some (v, r) \<Longrightarrow> length r \<le> length s"
  by (induction x s rule: leading_int.induct) (auto simp: Let_def split: if_splits)

lemma leading_fraction_length: "leading_fraction x k over s = (f, n, r) \<Longrightarrow> length r \<le> length s"
  by (induction x k over s rule: leading_fraction.induct) (auto simp: Let_def split: if_splits)

lemma drop_unit_length: "takeWhile P s \<noteq> [] \<Longrightarrow> length (dropWhile P s) < length s"
  by (cases s) (auto simp: le_imp_less_Suc length_dropWhile_le split: if_splits)

lemma duration_part_length: "duration_part s = Some (v, r) \<Longrightarrow> length r < length s"
proof -
  assume part: "duration_part s = Some (v, r)"
  then obtain v1 s1 where 1: "leading_int 0 s = Some (v1, s1)"
    by (auto simp: duration_part_def split: if_splits option.splits)
  obtain f k s2 where 2: "(if s1 \<noteq> [] \<and> hd s1 = CHR ''.'' then leading_fraction 0 0 False (tl s1) else (0, 0, s1)) = (f, k, s2)"
    by (metis prod_cases3)
  have "length s2 \<le> length s1"
    using 2 leading_fraction_length [of 0 0 False "tl s1" f k s2] by (auto split: if_splits)
  moreover have "length s1 \<le> length s" using leading_int_length [OF 1] .
  moreover have "\<exists>P. takeWhile P s2 \<noteq> [] \<and> r = dropWhile P s2"
    using part by (auto simp: duration_part_def 1 2 Let_def split: if_splits option.splits)
  then have "length r < length s2" using drop_unit_length by blast
  ultimately show ?thesis by linarith
qed

function duration_parts :: "int \<Rightarrow> gostring \<Rightarrow> int option" where
  "duration_parts d s =
     (if s = [] then Some d
      else
        (case duration_part s of
           None \<Rightarrow> None
         | Some (v, r) \<Rightarrow>
             (let d' = (d + v) mod 2 ^ 64 in if 2 ^ 63 < d' then None else duration_parts d' r)))"
  by pat_completeness auto
termination
  by (relation "measure (\<lambda>(d, s). length s)") (auto dest: duration_part_length)

declare duration_parts.simps [simp del]

definition parse_duration :: "gostring \<Rightarrow> duration option" where
  "parse_duration s =
     (let neg = (s \<noteq> [] \<and> hd s = CHR ''-'');
          t = (if s \<noteq> [] \<and> (hd s = CHR ''-'' \<or> hd s = CHR ''+'') then tl s else s)
      in if t = ''0'' then Some 0
         else if t = [] then None
         else (case duration_parts 0 t of
                 None \<Rightarrow> None
               | Some d \<Rightarrow> if neg then Some (- d) else if 2 ^ 63 - 1 < d then None else Some d))"

section \<open>What \<open>Duration.String\<close> prints is read back\<close>

abbreviation digits_from :: "nat \<Rightarrow> gostring \<Rightarrow> nat" where
  "digits_from n ds \<equiv> foldl (\<lambda>n c. 10 * n + digit_val c) n ds"

lemma digits_from_ge: "n \<le> digits_from n ds"
proof (induction ds arbitrary: n)
  case (Cons c ds)
  from Cons [of "10 * n + digit_val c"] show ?case by simp
qed simp

abbreviation no_digit :: "gostring \<Rightarrow> bool" where
  "no_digit s \<equiv> s = [] \<or> \<not> is_digit (hd s)"

lemma leading_int_digits:
  "list_all is_digit ds \<Longrightarrow> no_digit r \<Longrightarrow> digits_from n ds \<le> 2 ^ 63
   \<Longrightarrow> leading_int (int n) (ds @ r) = Some (int (digits_from n ds), r)"
proof (induction ds arbitrary: n)
  case Nil
  then show ?case by (cases r) simp_all
next
  case (Cons c ds)
  have le: "10 * n + digit_val c \<le> 2 ^ 63"
    using Cons.prems(3) digits_from_ge [of "10 * n + digit_val c" ds] by simp
  then have "int (10 * n + digit_val c) \<le> int (2 ^ 63)" by (simp only: of_nat_le_iff)
  then have x: "\<not> 2 ^ 63 < int n * 10 + int (digit_val c)" "\<not> 2 ^ 63 div 10 < int n" by simp_all
  have "leading_int (int (10 * n + digit_val c)) (ds @ r) = Some (int (digits_from (10 * n + digit_val c) ds), r)"
    using Cons.prems by (intro Cons.IH) simp_all
  with x Cons.prems(1) show ?case by (simp add: Let_def mult.commute)
qed

lemma leading_fraction_digits:
  "list_all is_digit ds \<Longrightarrow> no_digit r \<Longrightarrow> digits_from n ds < 10 ^ 18
   \<Longrightarrow> leading_fraction (int n) k False (ds @ r) = (int (digits_from n ds), k + length ds, r)"
proof (induction ds arbitrary: n k)
  case Nil
  then show ?case by (cases r) simp_all
next
  case (Cons c ds)
  have le: "10 * n + digit_val c < 10 ^ 18"
    using Cons.prems(3) digits_from_ge [of "10 * n + digit_val c" ds] by simp
  then have "int (10 * n + digit_val c) < int (10 ^ 18)" by (simp only: of_nat_less_iff)
  then have x: "\<not> 2 ^ 63 < int n * 10 + int (digit_val c)" "\<not> (2 ^ 63 - 1) div 10 < int n" by simp_all
  have "leading_fraction (int (10 * n + digit_val c)) (Suc k) False (ds @ r)
      = (int (digits_from (10 * n + digit_val c) ds), Suc k + length ds, r)"
    using Cons.prems by (intro Cons.IH) simp_all
  with x Cons.prems(1) show ?case by (simp add: Let_def mult.commute)
qed

lemma leading_int_format:
  "n \<le> 2 ^ 63 \<Longrightarrow> no_digit r \<Longrightarrow> leading_int 0 (format_nat n @ r) = Some (int n, r)"
  using leading_int_digits [of "format_nat n" r 0] digits_val_format_nat [of n]
  by (simp add: format_nat_digits digits_val_def)

text \<open>The digits after the point.\<close>

lemma fmt_frac_printing:
  "\<exists>ds. fmt_frac v p True acc = (CHR ''.'' # ds @ acc, v div 10 ^ p) \<and> list_all is_digit ds
     \<and> length ds = p \<and> digits_val ds = v mod 10 ^ p"
proof (induction p arbitrary: v acc)
  case (Suc p)
  obtain ds where ds: "fmt_frac (v div 10) p True (digit_char (v mod 10) # acc)
       = (CHR ''.'' # ds @ digit_char (v mod 10) # acc, v div 10 div 10 ^ p)"
    "list_all is_digit ds" "length ds = p" "digits_val ds = v div 10 mod 10 ^ p"
    using Suc by blast
  have "v mod 10 ^ Suc p = 10 * (v div 10 mod 10 ^ p) + v mod 10" by (simp add: mod_mult2_eq)
  with ds show ?case
    by (intro exI [of _ "ds @ [digit_char (v mod 10)]"]) (simp add: Let_def div_mult2_eq)
qed simp

definition fraction_text :: "nat \<Rightarrow> nat \<Rightarrow> gostring \<Rightarrow> bool" where
  "fraction_text n p fr \<longleftrightarrow>
     fr = [] \<and> n = 0
     \<or> (\<exists>ds. fr = CHR ''.'' # ds \<and> list_all is_digit ds \<and> 0 < length ds \<and> length ds \<le> p
          \<and> digits_val ds * 10 ^ (p - length ds) = n \<and> 0 < digits_val ds)"

lemma fmt_frac_quiet:
  "\<exists>fr. fmt_frac v p False [] = (fr, v div 10 ^ p) \<and> fraction_text (v mod 10 ^ p) p fr"
proof (induction p arbitrary: v)
  case (Suc p)
  have m: "v mod 10 ^ Suc p = 10 * (v div 10 mod 10 ^ p) + v mod 10" by (simp add: mod_mult2_eq)
  show ?case
  proof (cases "v mod 10 = 0")
    case True
    obtain fr where f: "fmt_frac (v div 10) p False [] = (fr, v div 10 div 10 ^ p)"
      "fraction_text (v div 10 mod 10 ^ p) p fr" using Suc by blast
    have "fraction_text (v mod 10 ^ Suc p) (Suc p) fr"
      using f(2) unfolding fraction_text_def m True by (auto simp: Suc_diff_le)
    with f(1) True show ?thesis by (intro exI [of _ fr]) (simp add: Let_def div_mult2_eq)
  next
    case False
    obtain ds where ds: "fmt_frac (v div 10) p True [digit_char (v mod 10)]
         = (CHR ''.'' # ds @ [digit_char (v mod 10)], v div 10 div 10 ^ p)"
      "list_all is_digit ds" "length ds = p" "digits_val ds = v div 10 mod 10 ^ p"
      using fmt_frac_printing by blast
    have "fraction_text (v mod 10 ^ Suc p) (Suc p) (CHR ''.'' # ds @ [digit_char (v mod 10)])"
      using ds False unfolding fraction_text_def m by simp
    with ds(1) False show ?thesis
      by (intro exI [of _ "CHR ''.'' # ds @ [digit_char (v mod 10)]"]) (simp add: Let_def div_mult2_eq)
  qed
qed (simp add: fraction_text_def)

text \<open>Floating point is exact here.\<close>

lemma fraction_units_exact:
  assumes "int f * 10 ^ (p - k) < 10 ^ 9" "k \<le> p" "p \<le> 9" "0 < f"
  shows "fraction_units (int f) k (10 ^ p) = int f * 10 ^ (p - k)"
proof -
  have pw: "1 \<le> (10 :: int) ^ (p - k)" by simp
  have "int f * 1 \<le> int f * 10 ^ (p - k)" using pw by (intro mult_left_mono) simp_all
  then have f: "\<bar>int f\<bar> \<le> 2 ^ 53" using assms(1) by simp
  have "(10 :: int) ^ (p - k) \<le> 10 ^ 9" using assms(3) by (intro power_increasing) simp_all
  then have t: "\<bar>(10 :: int) ^ (p - k)\<bar> \<le> 2 ^ 53" by simp
  have prod: "\<bar>int f * 10 ^ (p - k)\<bar> \<le> 2 ^ 53" using assms(1) by simp
  have "(10 :: rat) ^ p = 10 ^ (p - k) * 10 ^ k" using assms(2) by (simp add: power_add [symmetric])
  then have "(of_int (10 ^ p) :: rat) / of_int (10 ^ k) = of_int (10 ^ (p - k))" by simp
  moreover have "float_mult (Finite (of_int (int f))) (Finite (of_int (10 ^ (p - k)))) = Finite (of_int (int f * 10 ^ (p - k)))"
    using round64_int [OF prod] by simp
  ultimately have "float_mult (round64 (of_int (int f))) (round64 (of_int (10 ^ p) / of_int (10 ^ k)))
      = Finite (of_int (int f * 10 ^ (p - k)))"
    using round64_int [OF f] round64_int [OF t] by (simp only:)
  moreover have "rat_trunc (of_int (int f * 10 ^ (p - k))) = int f * 10 ^ (p - k)"
    by (simp add: rat_trunc_def del: of_int_mult)
  ultimately show ?thesis unfolding fraction_units_def by (simp only: float64.case)
qed

lemma takeWhile_prefix: "list_all P u \<Longrightarrow> r = [] \<or> \<not> P (hd r) \<Longrightarrow> takeWhile P (u @ r) = u \<and> dropWhile P (u @ r) = r"
  by (induction u) (cases r; simp)+

definition unit_name :: "gostring \<Rightarrow> bool" where
  "unit_name u \<longleftrightarrow> u \<noteq> [] \<and> list_all (\<lambda>c. c \<noteq> CHR ''.'' \<and> \<not> is_digit c) u"

lemma duration_part_text:
  assumes "map_of unit_map u = Some unit" "unit_name u" "int a \<le> 2 ^ 63 div unit" "a \<le> 2 ^ 63"
    "r = [] \<or> is_digit (hd r)" "fraction_text n p fr" "n < 10 ^ 9" "p \<le> 9" "n \<noteq> 0 \<Longrightarrow> unit = 10 ^ p"
    "int a * unit + int n \<le> 2 ^ 63"
  shows "duration_part (format_nat a @ fr @ u @ r) = Some (int a * unit + int n, r)"
proof -
  define s where "s = format_nat a @ fr @ u @ r"
  have hd: "s \<noteq> []" "is_digit (hd s)"
    using format_nat_digits [of a] by (auto simp: s_def list_all_iff hd_append)
  obtain c u' where u: "u = c # u'" "c \<noteq> CHR ''.''" "\<not> is_digit c" using assms(2) by (cases u) (auto simp: unit_name_def)
  have lead: "leading_int 0 s = Some (int a, fr @ u @ r)"
    unfolding s_def using assms(4,6) u by (intro leading_int_format) (auto simp: fraction_text_def is_digit_def)
  have pre: "length (fr @ u @ r) \<noteq> length s" by (simp add: s_def)
  have unit: "takeWhile (\<lambda>c. c \<noteq> CHR ''.'' \<and> \<not> is_digit c) (u @ r) = u"
    "dropWhile (\<lambda>c. c \<noteq> CHR ''.'' \<and> \<not> is_digit c) (u @ r) = r"
    using takeWhile_prefix [of _ u r] assms(2,5) by (auto simp: unit_name_def)
  show ?thesis
  proof (cases "n = 0")
    case True
    then have "fr = []" using assms(6) by (auto simp: fraction_text_def)
    with lead pre have "duration_part s = Some (int a * unit, r)"
      using hd u unit assms(1,3) by (simp add: duration_part_def Let_def)
    with True show ?thesis by (simp add: s_def)
  next
    case False
    then obtain ds where ds: "fr = CHR ''.'' # ds" "list_all is_digit ds" "0 < length ds" "length ds \<le> p"
      "digits_val ds * 10 ^ (p - length ds) = n" "0 < digits_val ds"
      using assms(6) by (auto simp: fraction_text_def)
    have n: "int (digits_val ds) * 10 ^ (p - length ds) = int n" unfolding ds(5) [symmetric] by simp
    have "digits_val ds * 1 \<le> digits_val ds * 10 ^ (p - length ds)" by (intro mult_left_mono) simp_all
    then have small: "digits_val ds < 10 ^ 18" using assms(7) unfolding ds(5) by simp
    have fr: "leading_fraction 0 0 False (ds @ u @ r) = (int (digits_val ds), length ds, u @ r)"
      using leading_fraction_digits [OF ds(2), of "u @ r" 0 0] small u by (simp add: digits_val_def)
    have exact: "fraction_units (int (digits_val ds)) (length ds) unit = int n"
      using fraction_units_exact [of "digits_val ds" p "length ds"] ds assms(7,8,9) False n by simp
    have tl: "length (u @ r) \<noteq> length (ds @ u @ r)" using ds(3) by simp
    have "duration_part s = Some (int a * unit + int n, r)"
      using hd lead pre u unit assms(1,3,10) fr exact ds(1,6)
      by (simp add: duration_part_def Let_def)
    then show ?thesis by (simp add: s_def)
  qed
qed

lemma duration_parts_step:
  "duration_part s = Some (v, r) \<Longrightarrow> 0 \<le> d + v \<Longrightarrow> d + v \<le> 2 ^ 63 \<Longrightarrow> duration_parts d s = duration_parts (d + v) r"
  by (subst duration_parts.simps) (auto simp: duration_part_def [of "[]"] Let_def)

lemma duration_parts_Nil [simp]: "duration_parts d [] = Some d"
  by (simp add: duration_parts.simps)

lemma le_div_int: "0 < k \<Longrightarrow> x * k \<le> n \<Longrightarrow> x \<le> n div (k :: int)"
  using zdiv_mono1 [of "x * k" n k] by simp

text \<open>A whole number of a unit, in front of other parts.\<close>

lemma whole_part:
  assumes "map_of unit_map u = Some unit" "unit_name u" "0 < unit" "0 \<le> d" "d + int a * unit \<le> 2 ^ 63" "r = [] \<or> is_digit (hd r)"
  shows "duration_parts d (format_nat a @ u @ r) = duration_parts (d + int a * unit) r"
proof -
  have "int a * 1 \<le> int a * unit" using assms(3) by (intro mult_left_mono) simp_all
  moreover have "int a * unit \<le> 2 ^ 63" using assms(4,5) by simp
  ultimately have a: "a \<le> 2 ^ 63" "int a \<le> 2 ^ 63 div unit"
    using le_div_int [OF assms(3)] by simp_all
  have "duration_part (format_nat a @ [] @ u @ r) = Some (int a * unit + int 0, r)"
    using a \<open>int a * unit \<le> 2 ^ 63\<close> assms by (intro duration_part_text [where p = 0]) (simp_all add: fraction_text_def)
  then show ?thesis using assms(3,4,5) by (intro duration_parts_step) simp_all
qed

text \<open>A number with a fraction of its unit, at the end.\<close>

lemma fraction_part:
  assumes "map_of unit_map u = Some (10 ^ p)" "unit_name u" "p \<le> 9" "fmt_frac v p False [] = (fr, a)"
    "b \<le> a" "0 \<le> d" "d + int (b * 10 ^ p + v mod 10 ^ p) \<le> 2 ^ 63"
  shows "duration_parts d (format_nat b @ fr @ u) = Some (d + int (b * 10 ^ p + v mod 10 ^ p))"
proof -
  have fr: "fraction_text (v mod 10 ^ p) p fr" using fmt_frac_quiet [of v p] assms(4) by auto
  have n: "v mod 10 ^ p < 10 ^ 9"
  proof -
    have "v mod 10 ^ p < 10 ^ p" by simp
    also have "(10 :: nat) ^ p \<le> 10 ^ 9" using assms(3) by (intro power_increasing) simp_all
    finally show ?thesis .
  qed
  have tot: "int b * 10 ^ p + int (v mod 10 ^ p) \<le> 2 ^ 63" using assms(6,7) by simp
  have "int b * 1 \<le> int b * 10 ^ p" by (intro mult_left_mono) simp_all
  then have b: "b \<le> 2 ^ 63" using tot by simp
  have "int b * 10 ^ p \<le> 2 ^ 63" using tot by simp
  then have b': "int b \<le> 2 ^ 63 div 10 ^ p" by (intro le_div_int) simp_all
  have "duration_part (format_nat b @ fr @ u @ []) = Some (int b * 10 ^ p + int (v mod 10 ^ p), [])"
    using b b' n tot assms fr by (intro duration_part_text) simp_all
  then have "duration_parts d (format_nat b @ fr @ u) = duration_parts (d + (int b * 10 ^ p + int (v mod 10 ^ p))) []"
    using assms(6,7) tot by (intro duration_parts_step) simp_all
  then show ?thesis by simp
qed

lemma names_of_units [simp]:
  "unit_name ''ns''" "unit_name ''ms''" "unit_name [CHR 0xC2, CHR 0xB5, CHR ''s'']" "unit_name ''s''" "unit_name ''m''" "unit_name ''h''"
  by (simp_all add: unit_name_def is_digit_def)

lemma value_of_units [simp]:
  "map_of unit_map ''ns'' = Some 1" "map_of unit_map ''ms'' = Some 1000000"
  "map_of unit_map [CHR 0xC2, CHR 0xB5, CHR ''s''] = Some 1000" "map_of unit_map ''s'' = Some 1000000000"
  "map_of unit_map ''m'' = Some 60000000000" "map_of unit_map ''h'' = Some 3600000000000"
  by (simp_all add: unit_map_def)

lemma small_text:
  assumes "map_of unit_map u = Some (10 ^ p)" "unit_name u" "p \<le> 9" "v \<le> 2 ^ 63"
  shows "duration_parts 0 (fmt_unit v p u) = Some (int v)"
proof -
  obtain fr where fr: "fmt_frac v p False [] = (fr, v div 10 ^ p)" using fmt_frac_quiet [of v p] by auto
  have "int (v div 10 ^ p * 10 ^ p + v mod 10 ^ p) = int v" by (simp only: div_mult_mod_eq)
  with fraction_part [OF assms(1-3) fr le_refl, of 0] assms(4) show ?thesis
    by (simp add: fmt_unit_def fr)
qed

lemma seconds_text:
  assumes "u \<le> 2 ^ 63" "fmt_frac u 9 False [] = (fr, secs)"
  shows "duration_parts 0
      (let mins = secs div 60; hours = mins div 60; sec_part = format_nat (secs mod 60) @ fr @ ''s''
       in if mins = 0 then sec_part
          else if hours = 0 then format_nat (mins mod 60) @ ''m'' @ sec_part
          else format_nat hours @ ''h'' @ format_nat (mins mod 60) @ ''m'' @ sec_part) = Some (int u)"
proof -
  define mins hours where "mins = secs div 60" and "hours = mins div 60"
  have secs: "secs = u div 10 ^ 9" using fmt_frac_quiet [of u 9] assms(2) by auto
  have mods: "secs = 60 * mins + secs mod 60" "mins = 60 * hours + mins mod 60" "u = secs * 10 ^ 9 + u mod 10 ^ 9"
    unfolding mins_def hours_def secs by (simp_all only: mult_div_mod_eq div_mult_mod_eq)
  have int: "int secs = 60 * int mins + int (secs mod 60)" "int mins = 60 * int hours + int (mins mod 60)"
    "int u = int secs * 10 ^ 9 + int (u mod 10 ^ 9)"
    using mods [THEN arg_cong, of int] by (simp_all only: of_nat_add of_nat_mult of_nat_numeral of_nat_power)
  have total: "int u = int hours * 3600000000000 + int (mins mod 60) * 60000000000
      + int (secs mod 60 * 10 ^ 9 + u mod 10 ^ 9)"
    unfolding int(3) by (subst int(1), subst int(2)) simp
  have "int u \<le> int (2 ^ 63)" using assms(1) by (simp only: of_nat_le_iff)
  then have le: "int u \<le> 2 ^ 63" by simp
  have last: "duration_parts d (format_nat (secs mod 60) @ fr @ ''s'') = Some (d + int (secs mod 60 * 10 ^ 9 + u mod 10 ^ 9))"
    if "0 \<le> d" "d + int (secs mod 60 * 10 ^ 9 + u mod 10 ^ 9) \<le> 2 ^ 63" for d
    using that by (intro fraction_part [OF _ _ _ assms(2)]) simp_all
  have digit: "is_digit (hd (format_nat n @ r))" for n r
    using format_nat_digits [of n] by (cases "format_nat n") simp_all
  show ?thesis
  proof (cases "mins = 0")
    case True
    then have "hours = 0" by (simp add: hours_def)
    with True last [of 0] total le show ?thesis by (simp add: Let_def mins_def [symmetric])
  next
    case False
    define d where "d = int hours * 3600000000000"
    define d' where "d' = d + int (mins mod 60) * 60000000000"
    have d: "0 \<le> d" "d \<le> d'" "d' + int (secs mod 60 * 10 ^ 9 + u mod 10 ^ 9) = int u"
      unfolding d_def d'_def by (simp, simp, rule total [symmetric])
    have m: "duration_parts d (format_nat (mins mod 60) @ ''m'' @ format_nat (secs mod 60) @ fr @ ''s'') = Some (int u)"
    proof -
      have "duration_parts d (format_nat (mins mod 60) @ ''m'' @ format_nat (secs mod 60) @ fr @ ''s'')
          = duration_parts d' (format_nat (secs mod 60) @ fr @ ''s'')"
        unfolding d'_def using d le digit by (intro whole_part) (simp_all add: d'_def)
      also have "\<dots> = Some (int u)" using last [of d'] d le by simp
      finally show ?thesis .
    qed
    show ?thesis
    proof (cases "hours = 0")
      case True
      with False m show ?thesis by (simp add: Let_def mins_def [symmetric] hours_def [symmetric] d_def)
    next
      case False
      have "duration_parts 0 (format_nat hours @ ''h'' @ format_nat (mins mod 60) @ ''m'' @ format_nat (secs mod 60) @ fr @ ''s'')
          = duration_parts (0 + int hours * 3600000000000) (format_nat (mins mod 60) @ ''m'' @ format_nat (secs mod 60) @ fr @ ''s'')"
        using d le digit by (intro whole_part) (simp_all add: d_def)
      with m False \<open>mins \<noteq> 0\<close> show ?thesis
        by (simp add: Let_def mins_def [symmetric] hours_def [symmetric] d_def)
    qed
  qed
qed

lemma duration_text_parts:
  assumes "u \<le> 2 ^ 63"
  shows "duration_parts 0 (duration_string (int u)) = Some (int u)"
proof -
  obtain fr secs where fr: "fmt_frac u 9 False [] = (fr, secs)" by (rule prod.exhaust)
  have zero: "duration_parts 0 ''0s'' = Some 0"
    using whole_part [of "''s''" _ 0 0 "[]"] by (simp add: format_nat.simps [of 0] digit_char_def)
  consider "u = 0" | "0 < u" "u < 1000" | "1000 \<le> u" "u < 1000000" | "1000000 \<le> u" "u < 1000000000" | "1000000000 \<le> u"
    by linarith
  then show ?thesis
  proof cases
    case 1
    with zero show ?thesis by (simp add: duration_string_def)
  next
    case 2
    then show ?thesis using small_text [of "''ns''" 0 u] assms by (simp add: duration_string_def Let_def)
  next
    case 3
    then show ?thesis using small_text [of "[CHR 0xC2, CHR 0xB5] @ ''s''" 3 u] assms
      by (simp add: duration_string_def Let_def)
  next
    case 4
    then show ?thesis using small_text [of "''ms''" 6 u] assms by (simp add: duration_string_def Let_def)
  next
    case 5
    then have "duration_string (int u) =
        (let mins = secs div 60; hours = mins div 60; sec_part = format_nat (secs mod 60) @ fr @ ''s''
         in if mins = 0 then sec_part
            else if hours = 0 then format_nat (mins mod 60) @ ''m'' @ sec_part
            else format_nat hours @ ''h'' @ format_nat (mins mod 60) @ ''m'' @ sec_part)"
      unfolding duration_string_def Let_def using fr by (simp)
    then show ?thesis using seconds_text [OF assms fr] by (simp only:)
  qed
qed

lemma duration_string_last: "\<exists>t. duration_string d = t @ ''s''"
  by (auto simp: duration_string_def fmt_unit_def Let_def split: prod.splits)

lemma duration_text_nonempty: "duration_string (int u) \<noteq> []"
  by (auto simp: duration_string_def fmt_unit_def Let_def split: prod.splits)

lemma duration_text_start:
  assumes "u \<le> 2 ^ 63"
  shows "hd (duration_string (int u)) = CHR ''.'' \<or> is_digit (hd (duration_string (int u)))"
    "duration_part (duration_string (int u)) \<noteq> None"
proof -
  show part: "duration_part (duration_string (int u)) \<noteq> None"
    using duration_text_parts [OF assms] duration_text_nonempty [of u]
    by (subst (asm) duration_parts.simps) (auto split: option.splits)
  then show "hd (duration_string (int u)) = CHR ''.'' \<or> is_digit (hd (duration_string (int u)))"
    by (auto simp: duration_part_def split: if_splits)
qed

lemma duration_text_shape:
  assumes "u \<le> 2 ^ 63"
  shows "hd (duration_string (int u)) \<noteq> CHR ''-''" "hd (duration_string (int u)) \<noteq> CHR ''+''"
    "duration_string (int u) \<noteq> ''0''"
proof -
  note start = duration_text_start [OF assms]
  from start(1) show "hd (duration_string (int u)) \<noteq> CHR ''-''" "hd (duration_string (int u)) \<noteq> CHR ''+''"
    by (auto simp: is_digit_def)
  have "duration_part ''0'' = None" by (simp add: duration_part_def is_digit_def digit_val_def Let_def)
  with start(2) show "duration_string (int u) \<noteq> ''0''" by metis
qed

lemma duration_string_trimmed:
  assumes "0 \<le> d" "d < 2 ^ 63"
  shows "trim_space (duration_string d) = duration_string d"
proof -
  have d: "d = int (nat d)" using assms(1) by simp
  have "nat d \<le> 2 ^ 63" using assms(2) by (simp add: nat_le_iff)
  from duration_text_start [OF this] duration_text_nonempty [of "nat d"] duration_string_last [of d] show ?thesis
    unfolding d [symmetric] by (intro trim_space_graphic) (auto simp: graphic_def is_digit_def)
qed

lemma parse_duration_string:
  assumes "- (2 ^ 63) \<le> d" "d < 2 ^ 63"
  shows "parse_duration (duration_string d) = Some d"
proof (cases "d < 0")
  case True
  define u where "u = nat (- d)"
  then have d: "d = - int u" "0 < u" using True by simp_all
  have "u \<le> 2 ^ 63" using assms(1) by (simp add: u_def nat_le_iff)
  moreover have "duration_string d = CHR ''-'' # duration_string (int u)"
    using True by (simp add: d duration_string_def)
  ultimately show ?thesis
    using duration_text_parts [of u] duration_text_shape [of u] duration_text_nonempty [of u]
    by (simp add: parse_duration_def d)
next
  case False
  define u where "u = nat d"
  then have d: "d = int u" using False by simp
  then have "u \<le> 2 ^ 63" "\<not> 2 ^ 63 - 1 < int u" using assms(2) by simp_all
  then show ?thesis
    using duration_text_parts [of u] duration_text_shape [of u] duration_text_nonempty [of u] by (simp add: parse_duration_def d)
qed

end
