(* ===== verification/Daemon_Config.thy ===== *)
theory Daemon_Config
  imports Daemon_Format Go_Os Go_Duration
begin

text \<open>
  \<open>internal/daemon/config.go\<close>: the daemon's configuration and \<open>LoadConfigFromEnv\<close>. The
  process environment is a map; \<open>os.Getenv\<close> of an unset variable is the empty string. The
  lower-case table of package \<open>unicode\<close> is a parameter. The error messages are constructors
  carrying what the message shows.
\<close>

record config =
  listen_addr :: gostring
  discord_bot_token :: gostring
  discord_api_base_url :: gostring
  gateway_enabled :: bool
  gateway_url :: gostring
  presence_status :: gostring
  activity :: gostring
  shared_token :: gostring
  allowed_channel_ids :: "gostring list"   \<comment> \<open>the keys of the map\<close>
  flush_interval :: duration
  max_log_chunk_bytes :: int
  queue_size :: int
  max_concurrent_runs :: int
  max_stream_bytes :: int
  strip_ansi_output :: bool

datatype config_error =
    Required gostring              \<comment> \<open>the variable is required\<close>
  | Invalid gostring gostring      \<comment> \<open>invalid variable and value\<close>
  | InvalidChannel gostring
  | ChunkOutOfRange
  | LimitsNotPositive

definition env_or :: "environment \<Rightarrow> gostring \<Rightarrow> gostring \<Rightarrow> gostring" where
  "env_or env key fallback =
     (if trimmed_env env key \<noteq> [] then trimmed_env env key else fallback)"

text \<open>\<open>envInt\<close> uses \<open>Atoi\<close> and \<open>envInt64\<close> uses \<open>ParseInt\<close>; they agree on 64 bits.\<close>

definition env_int :: "environment \<Rightarrow> gostring \<Rightarrow> int \<Rightarrow> config_error + int" where
  "env_int env key fallback =
     (let raw = trimmed_env env key in
      if raw = [] then Inr fallback
      else (case parse_int64 raw of None \<Rightarrow> Inl (Invalid key raw) | Some v \<Rightarrow> Inr v))"

definition env_int64 :: "environment \<Rightarrow> gostring \<Rightarrow> int \<Rightarrow> config_error + int" where
  "env_int64 env key fallback =
     (let raw = trimmed_env env key in
      if raw = [] then Inr fallback
      else (case parse_int64 raw of None \<Rightarrow> Inl (Invalid key raw) | Some v \<Rightarrow> Inr v))"

definition env_bool :: "environment \<Rightarrow> gostring \<Rightarrow> bool \<Rightarrow> config_error + bool" where
  "env_bool env key fallback =
     (let raw = trimmed_env env key in
      if raw = [] then Inr fallback
      else (case parse_bool raw of None \<Rightarrow> Inl (Invalid key raw) | Some v \<Rightarrow> Inr v))"

definition env_duration :: "environment \<Rightarrow> gostring \<Rightarrow> duration \<Rightarrow> config_error + duration" where
  "env_duration env key fallback =
     (let raw = trimmed_env env key in
      if raw = [] then Inr fallback
      else (case parse_duration raw of
              None \<Rightarrow> Inl (Invalid key raw)
            | Some d \<Rightarrow> if d \<le> 0 then Inl (Invalid key raw) else Inr d))"

definition presence_ok :: "gostring \<Rightarrow> bool" where
  "presence_ok s \<longleftrightarrow> s = ''online'' \<or> s = ''idle'' \<or> s = ''dnd'' \<or> s = ''invisible''"

text \<open>The loop over \<open>WRAPPING_BOT_ALLOWED_CHANNEL_IDS\<close>; the accumulator is the map's keys.\<close>

fun load_allowed :: "gostring list \<Rightarrow> gostring list \<Rightarrow> config_error + gostring list" where
  "load_allowed [] acc = Inr acc"
| "load_allowed (raw # raws) acc =
     (let ch = trim_space raw in
      if ch = [] then load_allowed raws acc
      else if \<not> isDiscordChannelID ch then Inl (InvalidChannel ch)
      else load_allowed raws (if ch \<in> set acc then acc else acc @ [ch]))"

definition initial_config :: "environment \<Rightarrow> config" where
  "initial_config env =
     \<lparr>listen_addr = env_or env ''WRAPPING_BOT_LISTEN_ADDR'' '':8080'',
      discord_bot_token = trimmed_env env ''DISCORD_BOT_TOKEN'',
      discord_api_base_url = env_or env ''DISCORD_API_BASE_URL'' ''https://discord.com/api/v10'',
      gateway_enabled = True,
      gateway_url = trimmed_env env ''DISCORD_GATEWAY_URL'',
      presence_status = env_or env ''WRAPPING_BOT_DISCORD_STATUS'' ''online'',
      activity = env_or env ''WRAPPING_BOT_DISCORD_ACTIVITY'' ''process logs'',
      shared_token = trimmed_env env ''WRAPPING_BOT_SHARED_TOKEN'',
      allowed_channel_ids = [],
      flush_interval = 1500 * millisecond,
      max_log_chunk_bytes = 1600,
      queue_size = 1024,
      max_concurrent_runs = 32,
      max_stream_bytes = 2 ^ 30,
      strip_ansi_output = True\<rparr>"

definition check_limits :: "config \<Rightarrow> config_error + config" where
  "check_limits cfg =
     (if max_log_chunk_bytes cfg < 256 \<or> 1800 < max_log_chunk_bytes cfg then Inl ChunkOutOfRange
      else if queue_size cfg < 1 \<or> max_concurrent_runs cfg < 1 \<or> max_stream_bytes cfg < 1
      then Inl LimitsNotPositive
      else Inr cfg)"

definition load_limits :: "environment \<Rightarrow> config \<Rightarrow> config_error + config" where
  "load_limits env cfg =
     try_bind (env_duration env ''WRAPPING_BOT_FLUSH_INTERVAL'' (flush_interval cfg)) (\<lambda>d.
     try_bind (env_int env ''WRAPPING_BOT_MAX_LOG_CHUNK_BYTES'' (max_log_chunk_bytes cfg)) (\<lambda>chunk.
     try_bind (env_int env ''WRAPPING_BOT_QUEUE_SIZE'' (queue_size cfg)) (\<lambda>q.
     try_bind (env_int env ''WRAPPING_BOT_MAX_CONCURRENT_RUNS'' (max_concurrent_runs cfg)) (\<lambda>runs.
     try_bind (env_int64 env ''WRAPPING_BOT_MAX_STREAM_BYTES'' (max_stream_bytes cfg)) (\<lambda>bytes.
     try_bind (env_bool env ''WRAPPING_BOT_STRIP_ANSI'' (strip_ansi_output cfg)) (\<lambda>strip.
     check_limits (cfg\<lparr>flush_interval := d, max_log_chunk_bytes := chunk, queue_size := q,
       max_concurrent_runs := runs, max_stream_bytes := bytes, strip_ansi_output := strip\<rparr>)))))))"

definition load_config_from_env :: "(nat \<Rightarrow> nat) \<Rightarrow> environment \<Rightarrow> config_error + config" where
  "load_config_from_env lower_table env =
     (let cfg = initial_config env in
      if discord_bot_token cfg = [] then Inl (Required ''DISCORD_BOT_TOKEN'')
      else if shared_token cfg = [] then Inl (Required ''WRAPPING_BOT_SHARED_TOKEN'')
      else
        try_bind (env_bool env ''WRAPPING_BOT_GATEWAY_ENABLED'' (gateway_enabled cfg)) (\<lambda>enabled.
          (let status = to_lower lower_table (trim_space (presence_status cfg)) in
           if \<not> presence_ok status then Inl (Invalid ''WRAPPING_BOT_DISCORD_STATUS'' status)
           else
             try_bind (load_allowed (split_on CHR '','' (getenv env ''WRAPPING_BOT_ALLOWED_CHANNEL_IDS'')) [])
               (\<lambda>allowed. load_limits env
                 (cfg\<lparr>gateway_enabled := enabled, presence_status := status,
                      allowed_channel_ids := allowed\<rparr>)))))"

section \<open>What a loaded configuration guarantees\<close>

definition config_ok :: "config \<Rightarrow> bool" where
  "config_ok cfg \<longleftrightarrow>
     discord_bot_token cfg \<noteq> [] \<and> shared_token cfg \<noteq> []
     \<and> trim_space (shared_token cfg) = shared_token cfg
     \<and> presence_ok (presence_status cfg)
     \<and> list_all isDiscordChannelID (allowed_channel_ids cfg) \<and> distinct (allowed_channel_ids cfg)
     \<and> 0 < flush_interval cfg
     \<and> 256 \<le> max_log_chunk_bytes cfg \<and> max_log_chunk_bytes cfg \<le> 1800
     \<and> 1 \<le> queue_size cfg \<and> 1 \<le> max_concurrent_runs cfg \<and> 1 \<le> max_stream_bytes cfg"

lemma load_allowed_effect:
  "load_allowed raws acc = Inr ids \<Longrightarrow> list_all isDiscordChannelID acc \<Longrightarrow> distinct acc \<Longrightarrow>
     list_all isDiscordChannelID ids \<and> distinct ids
     \<and> set ids = set acc \<union> {trim_space r | r. r \<in> set raws \<and> trim_space r \<noteq> []}"
proof (induction raws arbitrary: acc)
  case (Cons r raws)
  show ?case
  proof (cases "trim_space r = []")
    case True
    with Cons show ?thesis by auto
  next
    case False
    with Cons.prems have ok: "isDiscordChannelID (trim_space r)"
      and rest: "load_allowed raws (if trim_space r \<in> set acc then acc else acc @ [trim_space r]) = Inr ids"
      by (auto simp: Let_def split: if_splits)
    have "list_all isDiscordChannelID ids \<and> distinct ids
      \<and> set ids = set (if trim_space r \<in> set acc then acc else acc @ [trim_space r])
          \<union> {trim_space r | r. r \<in> set raws \<and> trim_space r \<noteq> []}"
      by (rule Cons.IH [OF rest]) (use Cons.prems ok in auto)
    with False show ?thesis by auto
  qed
qed auto

lemma env_duration_pos:
  "env_duration env key fb = Inr d \<Longrightarrow> 0 < fb \<Longrightarrow> 0 < d"
  by (auto simp: env_duration_def Let_def split: if_splits option.splits)

lemma load_limits_effect:
  assumes "load_limits env cfg = Inr cfg'" "0 < flush_interval cfg"
  shows "0 < flush_interval cfg'" "256 \<le> max_log_chunk_bytes cfg'" "max_log_chunk_bytes cfg' \<le> 1800"
    "1 \<le> queue_size cfg'" "1 \<le> max_concurrent_runs cfg'" "1 \<le> max_stream_bytes cfg'"
    "discord_bot_token cfg' = discord_bot_token cfg" "shared_token cfg' = shared_token cfg"
    "presence_status cfg' = presence_status cfg" "allowed_channel_ids cfg' = allowed_channel_ids cfg"
  using assms
  unfolding load_limits_def check_limits_def try_bind_Inr guard_Inr
  by (auto dest: env_duration_pos)

lemma load_config_ok: "load_config_from_env lt env = Inr cfg \<Longrightarrow> config_ok cfg"
proof -
  assume load: "load_config_from_env lt env = Inr cfg"
  define cfg0 where "cfg0 = initial_config env"
  from load obtain enabled allowed where
    tok: "discord_bot_token cfg0 \<noteq> []" "shared_token cfg0 \<noteq> []"
    and st: "presence_ok (to_lower lt (trim_space (presence_status cfg0)))"
    and al: "load_allowed (split_on CHR '','' (getenv env ''WRAPPING_BOT_ALLOWED_CHANNEL_IDS'')) [] = Inr allowed"
    and lim: "load_limits env (cfg0\<lparr>gateway_enabled := enabled,
        presence_status := to_lower lt (trim_space (presence_status cfg0)),
        allowed_channel_ids := allowed\<rparr>) = Inr cfg"
    unfolding load_config_from_env_def Let_def try_bind_Inr guard_Inr cfg0_def by blast
  have "0 < flush_interval cfg0" "trim_space (shared_token cfg0) = shared_token cfg0"
    by (simp_all add: cfg0_def initial_config_def trimmed_env_def)
  with load_limits_effect [OF lim] load_allowed_effect [OF al] tok st show ?thesis
    by (simp add: config_ok_def)
qed

section \<open>Properties\<close>

text \<open>A configuration that loads is sound: both tokens are present and trimmed, the presence
  status is one of the four Discord knows, every allowed channel is a distinct channel ID, the
  log chunk lies between 256 and 1800 bytes and every limit is positive.\<close>

lemma loaded_config_ok:
  assumes "load_config_from_env lt env = Inr cfg"
  shows "config_ok cfg"
  using assms by (rule load_config_ok)

definition sample_environment :: environment where
  "sample_environment = [''DISCORD_BOT_TOKEN'' \<mapsto> ''t'', ''WRAPPING_BOT_SHARED_TOKEN'' \<mapsto> ''s'']"

definition sample_config :: config where
  "sample_config = initial_config sample_environment"

lemma sample_trimmed:
  "trimmed_env sample_environment k =
     (if k = ''DISCORD_BOT_TOKEN'' then ''t'' else if k = ''WRAPPING_BOT_SHARED_TOKEN'' then ''s'' else [])"
  by (simp add: trimmed_env_def getenv_def sample_environment_def trim_space_all_graphic graphic_def)

lemma sample_initial:
  "initial_config sample_environment =
     \<lparr>listen_addr = '':8080'', discord_bot_token = ''t'',
      discord_api_base_url = ''https://discord.com/api/v10'', gateway_enabled = True, gateway_url = [],
      presence_status = ''online'', activity = ''process logs'', shared_token = ''s'',
      allowed_channel_ids = [], flush_interval = 1500 * millisecond, max_log_chunk_bytes = 1600,
      queue_size = 1024, max_concurrent_runs = 32, max_stream_bytes = 2 ^ 30, strip_ansi_output = True\<rparr>"
  by (simp add: initial_config_def env_or_def sample_trimmed)

lemma sample_limits: "load_limits sample_environment sample_config = Inr sample_config"
  by (simp add: load_limits_def env_duration_def env_int_def env_int64_def env_bool_def sample_trimmed check_limits_def
      sample_config_def sample_initial)

lemma sample_config_loads:
  "load_config_from_env (\<lambda>r. r) sample_environment = Inr sample_config"
proof -
  have "trim_space ''online'' = ''online''" by (rule trim_space_all_graphic) (simp add: graphic_def)
  then have lower: "to_lower (\<lambda>r. r) (trim_space ''online'') = ''online''"
    by (simp add: to_lower_def is_ascii_def lower_char_def)
  have "getenv sample_environment ''WRAPPING_BOT_ALLOWED_CHANNEL_IDS'' = []"
    by (simp add: getenv_def sample_environment_def)
  then have al: "load_allowed (split_on CHR '','' (getenv sample_environment ''WRAPPING_BOT_ALLOWED_CHANNEL_IDS'')) []
      = Inr []" by simp
  have "sample_config\<lparr>gateway_enabled := True, presence_status := ''online'', allowed_channel_ids := []\<rparr>
      = sample_config" by (simp add: sample_config_def sample_initial)
  then show ?thesis
    using sample_limits
    by (simp add: load_config_from_env_def Let_def al lower sample_config_def sample_initial env_bool_def
        sample_trimmed presence_ok_def)
qed

text \<open>The environment that sets every variable to a value of a configuration.\<close>

definition bool_text :: "bool \<Rightarrow> gostring" where
  "bool_text b = (if b then ''true'' else ''false'')"

definition config_environment :: "config \<Rightarrow> environment" where
  "config_environment cfg =
     [''WRAPPING_BOT_LISTEN_ADDR'' \<mapsto> listen_addr cfg, ''DISCORD_BOT_TOKEN'' \<mapsto> discord_bot_token cfg,
      ''DISCORD_API_BASE_URL'' \<mapsto> discord_api_base_url cfg,
      ''WRAPPING_BOT_GATEWAY_ENABLED'' \<mapsto> bool_text (gateway_enabled cfg),
      ''DISCORD_GATEWAY_URL'' \<mapsto> gateway_url cfg, ''WRAPPING_BOT_DISCORD_STATUS'' \<mapsto> presence_status cfg,
      ''WRAPPING_BOT_DISCORD_ACTIVITY'' \<mapsto> activity cfg, ''WRAPPING_BOT_SHARED_TOKEN'' \<mapsto> shared_token cfg,
      ''WRAPPING_BOT_ALLOWED_CHANNEL_IDS'' \<mapsto> join_with '','' (allowed_channel_ids cfg),
      ''WRAPPING_BOT_FLUSH_INTERVAL'' \<mapsto> duration_string (flush_interval cfg),
      ''WRAPPING_BOT_MAX_LOG_CHUNK_BYTES'' \<mapsto> format_int (max_log_chunk_bytes cfg),
      ''WRAPPING_BOT_QUEUE_SIZE'' \<mapsto> format_int (queue_size cfg),
      ''WRAPPING_BOT_MAX_CONCURRENT_RUNS'' \<mapsto> format_int (max_concurrent_runs cfg),
      ''WRAPPING_BOT_MAX_STREAM_BYTES'' \<mapsto> format_int (max_stream_bytes cfg),
      ''WRAPPING_BOT_STRIP_ANSI'' \<mapsto> bool_text (strip_ansi_output cfg)]"

text \<open>A configuration that an environment can express: its texts are trimmed, its numbers have 64 bits.\<close>

definition config_writable :: "config \<Rightarrow> bool" where
  "config_writable cfg \<longleftrightarrow>
     config_ok cfg
     \<and> list_all (\<lambda>s. trim_space s = s)
         [listen_addr cfg, discord_bot_token cfg, discord_api_base_url cfg, gateway_url cfg, activity cfg]
     \<and> listen_addr cfg \<noteq> [] \<and> discord_api_base_url cfg \<noteq> [] \<and> activity cfg \<noteq> []
     \<and> list_all (\<lambda>n. n < 2 ^ 63)
         [flush_interval cfg, queue_size cfg, max_concurrent_runs cfg, max_stream_bytes cfg]"

lemma load_allowed_join:
  "list_all isDiscordChannelID ids \<Longrightarrow> distinct (acc @ ids) \<Longrightarrow> load_allowed ids acc = Inr (acc @ ids)"
proof (induction ids arbitrary: acc)
  case (Cons i ids)
  then have i: "isDiscordChannelID i" "i \<noteq> []" "trim_space i = i"
    by (auto simp: isDiscordChannelID_trim isDiscordChannelID_iff)
  with Cons show ?case by (simp add: Let_def)
qed simp

lemma split_on_append_sep: "c \<notin> set p \<Longrightarrow> split_on c (p @ c # s) = p # split_on c s"
  by (induction p) auto

lemma split_on_single: "c \<notin> set p \<Longrightarrow> split_on c p = [p]"
  by (induction p) auto

lemma split_on_join: "xs \<noteq> [] \<Longrightarrow> list_all (\<lambda>x. c \<notin> set x) xs \<Longrightarrow> split_on c (join_with [c] xs) = xs"
  by (induction "[c]" xs rule: join_with.induct) (simp_all add: split_on_append_sep split_on_single)

lemma allowed_read_back:
  assumes "list_all isDiscordChannelID ids" "distinct ids"
  shows "load_allowed (split_on CHR '','' (join_with '','' ids)) [] = Inr ids"
proof (cases "ids = []")
  case False
  have "\<not> is_digit (CHR '','')" by (simp add: is_digit_def)
  then have "list_all (\<lambda>x. CHR '','' \<notin> set x) ids"
    using assms(1) by (auto simp: list_all_iff isDiscordChannelID_iff)
  with False have "split_on CHR '','' (join_with '','' ids) = ids" by (intro split_on_join)
  with assms load_allowed_join [of ids "[]"] show ?thesis by simp
qed simp

lemma format_int_trimmed: "trim_space (format_int i) = format_int i" "format_int i \<noteq> []"
proof -
  have "list_all graphic (format_int i)"
    using format_nat_digits [of "nat i"] format_nat_digits [of "nat (- i)"] is_digit_graphic
    by (auto simp: format_int_def list_all_iff) (simp add: graphic_def)
  then show "trim_space (format_int i) = format_int i"
    by (intro trim_space_all_graphic) (simp add: list_all_iff)
qed (simp add: format_int_def)

lemma presence_lowered: "presence_ok s \<Longrightarrow> trim_space s = s \<and> s \<noteq> [] \<and> to_lower table s = s"
  by (auto simp: presence_ok_def to_lower_def is_ascii_def lower_char_def graphic_def intro!: trim_space_all_graphic)

lemma env_int_reads:
  "getenv env k = format_int i \<Longrightarrow> - (2 ^ 63) \<le> i \<Longrightarrow> i < 2 ^ 63 \<Longrightarrow> env_int env k fb = Inr i \<and> env_int64 env k fb = Inr i"
  using parse_int64_format_int [of i] by (simp add: env_int_def env_int64_def trimmed_env_def format_int_trimmed)

lemma env_bool_reads: "getenv env k = bool_text b \<Longrightarrow> env_bool env k fb = Inr b"
  using trim_space_all_graphic [of "bool_text b"]
  by (cases b) (simp_all add: env_bool_def trimmed_env_def bool_text_def parse_bool_def graphic_def)

lemma env_duration_reads:
  "getenv env k = duration_string d \<Longrightarrow> 0 < d \<Longrightarrow> d < 2 ^ 63 \<Longrightarrow> env_duration env k fb = Inr d"
  using parse_duration_string [of d] duration_string_trimmed [of d] duration_text_nonempty [of "nat d"]
  by (simp add: env_duration_def trimmed_env_def)

text \<open>C22: Every setting can be set. For every well-formed configuration, the environment in which each
  variable holds the text of the corresponding value loads as exactly that configuration: the
  texts of durations, numbers, switches and channel lists are read back without loss.\<close>

theorem config_reads_back:
  assumes "config_writable cfg"
  shows "load_config_from_env table (config_environment cfg) = Inr cfg"
proof -
  define env where "env = config_environment cfg"
  have ok: "config_ok cfg" using assms by (simp add: config_writable_def)
  note w = assms [unfolded config_writable_def list.pred_inject config_ok_def]
  have get: "getenv env ''WRAPPING_BOT_GATEWAY_ENABLED'' = bool_text (gateway_enabled cfg)"
    "getenv env ''WRAPPING_BOT_STRIP_ANSI'' = bool_text (strip_ansi_output cfg)"
    "getenv env ''WRAPPING_BOT_FLUSH_INTERVAL'' = duration_string (flush_interval cfg)"
    "getenv env ''WRAPPING_BOT_MAX_LOG_CHUNK_BYTES'' = format_int (max_log_chunk_bytes cfg)"
    "getenv env ''WRAPPING_BOT_QUEUE_SIZE'' = format_int (queue_size cfg)"
    "getenv env ''WRAPPING_BOT_MAX_CONCURRENT_RUNS'' = format_int (max_concurrent_runs cfg)"
    "getenv env ''WRAPPING_BOT_MAX_STREAM_BYTES'' = format_int (max_stream_bytes cfg)"
    "getenv env ''WRAPPING_BOT_ALLOWED_CHANNEL_IDS'' = join_with '','' (allowed_channel_ids cfg)"
    by (simp_all add: env_def config_environment_def getenv_def)
  note status = presence_lowered [of "presence_status cfg" table]
  have texts: "trimmed_env env ''DISCORD_BOT_TOKEN'' = discord_bot_token cfg"
    "trimmed_env env ''WRAPPING_BOT_SHARED_TOKEN'' = shared_token cfg"
    "trimmed_env env ''DISCORD_GATEWAY_URL'' = gateway_url cfg"
    "\<And>fb. env_or env ''WRAPPING_BOT_LISTEN_ADDR'' fb = listen_addr cfg"
    "\<And>fb. env_or env ''DISCORD_API_BASE_URL'' fb = discord_api_base_url cfg"
    "\<And>fb. env_or env ''WRAPPING_BOT_DISCORD_STATUS'' fb = presence_status cfg"
    "\<And>fb. env_or env ''WRAPPING_BOT_DISCORD_ACTIVITY'' fb = activity cfg"
    using w status
    by (simp_all add: env_def config_environment_def trimmed_env_def getenv_def env_or_def)
  have bools: "env_bool env ''WRAPPING_BOT_GATEWAY_ENABLED'' b = Inr (gateway_enabled cfg)"
    "env_bool env ''WRAPPING_BOT_STRIP_ANSI'' b = Inr (strip_ansi_output cfg)" for b
    by (rule env_bool_reads, rule get)+
  have dur: "env_duration env ''WRAPPING_BOT_FLUSH_INTERVAL'' d = Inr (flush_interval cfg)" for d
    using w get(3) by (intro env_duration_reads) simp_all
  have ints: "env_int env ''WRAPPING_BOT_MAX_LOG_CHUNK_BYTES'' n = Inr (max_log_chunk_bytes cfg)"
    "env_int env ''WRAPPING_BOT_QUEUE_SIZE'' n = Inr (queue_size cfg)"
    "env_int env ''WRAPPING_BOT_MAX_CONCURRENT_RUNS'' n = Inr (max_concurrent_runs cfg)"
    "env_int64 env ''WRAPPING_BOT_MAX_STREAM_BYTES'' n = Inr (max_stream_bytes cfg)" for n
    using w env_int_reads [OF get(4)] env_int_reads [OF get(5)] env_int_reads [OF get(6)] env_int_reads [OF get(7)]
    by simp_all
  have allowed: "load_allowed (split_on CHR '','' (getenv env ''WRAPPING_BOT_ALLOWED_CHANNEL_IDS'')) []
      = Inr (allowed_channel_ids cfg)"
    unfolding get(8) using w by (intro allowed_read_back) simp_all
  have "load_config_from_env table env = Inr cfg"
    using w status
    by (simp add: load_config_from_env_def Let_def initial_config_def texts bools allowed load_limits_def dur ints check_limits_def)
  then show ?thesis by (simp add: env_def)
qed

lemma config_reads_back_witness:
  "load_config_from_env (\<lambda>r. r) (config_environment (sample_config\<lparr>allowed_channel_ids := [''123456789012345678'']\<rparr>))
   = Inr (sample_config\<lparr>allowed_channel_ids := [''123456789012345678'']\<rparr>)"
proof (rule config_reads_back)
  have "isDiscordChannelID ''123456789012345678''"
    by (rule isDiscordChannelID_short) (simp_all add: is_digit_def)
  moreover have "trim_space s = s"
    if "s \<in> {'':8080'', ''t'', ''s'', ''https://discord.com/api/v10'', ''process logs'', []}" for s
    using that trim_space_graphic by (auto simp: graphic_def)
  ultimately show "config_writable (sample_config\<lparr>allowed_channel_ids := [''123456789012345678'']\<rparr>)"
    by (simp add: config_writable_def config_ok_def sample_config_def sample_initial presence_ok_def)
qed

end
