(* ===== verification/Go_Json.thy ===== *)
theory Go_Json
  imports Go_Utf8 Go_Strconv
begin

text \<open>
  Package \<open>encoding/json\<close>, as far as the wire format needs it: the encoding of strings with
  HTML escaping, and the decoder's grammar (the scanner and \<open>unquote\<close>) as a parser from bytes
  to a syntax tree that returns the rest of the input. A string in the tree keeps its literal
  text beside its value, because \<open>time.Time\<close> parses the literal. A syntax error is \<open>None\<close>.
\<close>

section \<open>Strings\<close>

definition hex_digit :: "nat \<Rightarrow> char" where
  "hex_digit d = ''0123456789abcdef'' ! d"

definition hex_digit_val :: "char \<Rightarrow> nat option" where
  "hex_digit_val c =
     (if is_digit c then Some (byte c - 0x30)
      else if in_range 0x61 0x66 c then Some (byte c - 0x61 + 10)
      else if in_range 0x41 0x46 c then Some (byte c - 0x41 + 10)
      else None)"

text \<open>\<open>appendString\<close> with \<open>escapeHTML\<close>: one byte below 0x80, then one rune.\<close>

definition html_safe :: "char \<Rightarrow> bool" where
  "html_safe c \<longleftrightarrow> 0x20 \<le> byte c \<and> byte c < 0x80 \<and> c \<notin> set [DQUOTE, BACKSLASH, CHR ''<'', CHR ''>'', CHR ''&'']"

definition short_escape :: "char \<Rightarrow> char option" where
  "short_escape c =
     map_of [(BACKSLASH, BACKSLASH), (DQUOTE, DQUOTE), (CHR 0x08, CHR ''b''), (CHR 0x0C, CHR ''f''),
             (NL, CHR ''n''), (CR, CHR ''r''), (CHR 0x09, CHR ''t'')] c"

definition json_byte :: "char \<Rightarrow> gostring" where
  "json_byte c =
     (if html_safe c then [c]
      else (case short_escape c of
              Some e \<Rightarrow> [BACKSLASH, e]
            | None \<Rightarrow> [BACKSLASH] @ ''u00'' @ [hex_digit (byte c div 16), hex_digit (byte c mod 16)]))"

definition json_rune :: "gostring \<Rightarrow> gostring" where
  "json_rune s =
     (let (r, size) = decode_rune s in
      if byte (hd s) < 0x80 then json_byte (hd s)
      else if (r, size) = (rune_error, 1) then [BACKSLASH] @ ''ufffd''
      else if r = 0x2028 \<or> r = 0x2029 then [BACKSLASH] @ ''u202'' @ [hex_digit (r mod 16)]
      else take size s)"

function json_escape :: "gostring \<Rightarrow> gostring" where
  "json_escape s = (if s = [] then [] else json_rune s @ json_escape (drop (rune_size s) s))"
  by pat_completeness auto
termination
  by (relation "measure length") (auto simp: rune_size_pos)

declare json_escape.simps [simp del]

definition json_string :: "gostring \<Rightarrow> gostring" where
  "json_string s = DQUOTE # json_escape s @ [DQUOTE]"

text \<open>Decoding: simple escapes, four hexadecimal digits, surrogate pairs.\<close>

definition unescape :: "char \<Rightarrow> char option" where
  "unescape c =
     map_of [(DQUOTE, DQUOTE), (BACKSLASH, BACKSLASH), (CHR ''/'', CHR ''/''), (CHR ''b'', CHR 0x08),
             (CHR ''f'', CHR 0x0C), (CHR ''n'', NL), (CHR ''r'', CR), (CHR ''t'', CHR 0x09)] c"

fun read_hex4 :: "gostring \<Rightarrow> (nat \<times> gostring) option" where
  "read_hex4 (a # b # c # d # s) =
     (case (hex_digit_val a, hex_digit_val b, hex_digit_val c, hex_digit_val d) of
        (Some w, Some x, Some y, Some z) \<Rightarrow> Some (((w * 16 + x) * 16 + y) * 16 + z, s)
      | _ \<Rightarrow> None)"
| "read_hex4 _ = None"

definition is_surrogate :: "nat \<Rightarrow> bool" where
  "is_surrogate r \<longleftrightarrow> 0xD800 \<le> r \<and> r < 0xE000"

text \<open>\<open>utf16.DecodeRune\<close>, \<open>None\<close> for U+FFFD.\<close>

definition surrogate_pair :: "nat \<Rightarrow> nat \<Rightarrow> nat option" where
  "surrogate_pair r1 r2 =
     (if 0xD800 \<le> r1 \<and> r1 < 0xDC00 \<and> 0xDC00 \<le> r2 \<and> r2 < 0xE000
      then Some ((r1 - 0xD800) * 0x400 + (r2 - 0xDC00) + 0x10000) else None)"

text \<open>The rune of an escape \<open>u\<close>, and what is left; a lone surrogate half is U+FFFD.\<close>

definition read_unicode :: "gostring \<Rightarrow> (nat \<times> gostring) option" where
  "read_unicode s =
     (case read_hex4 s of
        None \<Rightarrow> None
      | Some (r, s1) \<Rightarrow>
          if \<not> is_surrogate r then Some (r, s1)
          else
            (case strip_prefix [BACKSLASH, CHR ''u''] s1 of
               None \<Rightarrow> Some (rune_error, s1)
             | Some s2 \<Rightarrow>
                 (case read_hex4 s2 of
                    None \<Rightarrow> Some (rune_error, s1)
                  | Some (r2, s3) \<Rightarrow>
                      (case surrogate_pair r r2 of
                         Some x \<Rightarrow> Some (x, s3)
                       | None \<Rightarrow> Some (rune_error, s1)))))"

lemma read_hex4_length: "read_hex4 s = Some (r, s') \<Longrightarrow> length s' < length s"
  by (induction s rule: read_hex4.induct) (auto split: option.splits)

lemma read_unicode_length: "read_unicode s = Some (r, s') \<Longrightarrow> length s' < length s"
  by (auto simp: read_unicode_def strip_prefix_Some_iff split: option.splits if_splits dest!: read_hex4_length)

text \<open>The value of a string literal from behind its opening quote, and the rest behind the closing one.\<close>

function json_unquote :: "gostring \<Rightarrow> (gostring \<times> gostring) option" where
  "json_unquote s =
     (case s of
        [] \<Rightarrow> None
      | c # cs \<Rightarrow>
          if c = DQUOTE then Some ([], cs)
          else if c = BACKSLASH then
            (case cs of
               [] \<Rightarrow> None
             | e # es \<Rightarrow>
                 (case unescape e of
                    Some d \<Rightarrow> map_option (map_prod (Cons d) id) (json_unquote es)
                  | None \<Rightarrow>
                      if e \<noteq> CHR ''u'' then None
                      else
                        (case read_unicode es of
                           None \<Rightarrow> None
                         | Some (r, s') \<Rightarrow> map_option (map_prod (append (encode_rune r)) id) (json_unquote s'))))
          else if byte c < 0x20 then None
          else map_option (map_prod (append (encode_rune (fst (decode_rune s)))) id)
                 (json_unquote (drop (rune_size s) s)))"
  by pat_completeness auto
termination
  by (relation "measure length") (auto simp: rune_size_pos dest!: read_unicode_length)

declare json_unquote.simps [simp del]

lemma hex_digit_roundtrip: "d < 16 \<Longrightarrow> hex_digit_val (hex_digit d) = Some d"
proof -
  have "\<forall>d \<in> set [0..<16]. hex_digit_val (hex_digit d) = Some d" by code_simp
  then show "d < 16 \<Longrightarrow> hex_digit_val (hex_digit d) = Some d" by simp
qed

lemma hex_digit_zero: "hex_digit_val (CHR ''0'') = Some 0" "hex_digit_val (CHR ''2'') = Some 2"
  "hex_digit_val (CHR ''f'') = Some 15" "hex_digit_val (CHR ''d'') = Some 13"
  by code_simp+

lemma read_hex4_low:
  "n < 0x80 \<Longrightarrow> read_hex4 (''00'' @ [hex_digit (n div 16), hex_digit (n mod 16)] @ s) = Some (n, s)"
  using hex_digit_roundtrip [of "n div 16"] hex_digit_roundtrip [of "n mod 16"]
  by (simp add: hex_digit_zero)

lemma encode_rune_byte: "byte c < 0x80 \<Longrightarrow> encode_rune (byte c) = [c]"
  by (simp add: encode_rune_def)

lemma unescape_short: "short_escape c = Some e \<Longrightarrow> unescape e = Some c"
  by (auto simp: short_escape_def unescape_def split: if_splits)

lemma unescape_u: "unescape (CHR ''u'') = None"
  by (simp add: unescape_def)

lemma json_unquote_byte:
  assumes "byte c < 0x80"
  shows "json_unquote (json_byte c @ s) = map_option (map_prod (Cons c) id) (json_unquote s)"
proof (cases "html_safe c")
  case True
  then have "c \<noteq> DQUOTE" "c \<noteq> BACKSLASH" "\<not> byte c < 0x20" by (auto simp: html_safe_def)
  then show ?thesis
    using True assms by (simp add: json_byte_def json_unquote.simps [of "c # s"] encode_rune_byte append_Cons [abs_def])
next
  case False
  show ?thesis
  proof (cases "short_escape c")
    case (Some e)
    then show ?thesis
      using False by (simp add: json_byte_def json_unquote.simps [of "BACKSLASH # _"] unescape_short)
  next
    case None
    have "read_unicode (''00'' @ [hex_digit (byte c div 16), hex_digit (byte c mod 16)] @ s) = Some (byte c, s)"
      using assms read_hex4_low [OF assms, of s] by (simp add: read_unicode_def is_surrogate_def del: read_hex4.simps)
    then show ?thesis
      using None False assms
      by (simp add: json_byte_def json_unquote.simps [of "BACKSLASH # _"] unescape_u encode_rune_byte append_Cons [abs_def])
  qed
qed

lemma json_unquote_rune:
  assumes "s \<noteq> []"
  shows "json_unquote (json_rune s @ t)
     = map_option (map_prod (append (encode_rune (fst (decode_rune s)))) id) (json_unquote t)"
proof -
  obtain c cs where s: "s = c # cs" using assms by (cases s) auto
  obtain r n where d: "decode_rune s = (r, n)" by (cases "decode_rune s")
  consider (ascii) "byte c < 0x80" | (invalid) "\<not> byte c < 0x80" "(r, n) = (rune_error, 1)"
    | (separator) "\<not> byte c < 0x80" "(r, n) \<noteq> (rune_error, 1)" "r = 0x2028 \<or> r = 0x2029"
    | (plain) "\<not> byte c < 0x80" "(r, n) \<noteq> (rune_error, 1)" "\<not> (r = 0x2028 \<or> r = 0x2029)" by blast
  then show ?thesis
  proof cases
    case ascii
    then have "json_rune s = json_byte c" "fst (decode_rune s) = byte c" by (simp_all add: json_rune_def s)
    with json_unquote_byte [OF ascii, of t] ascii show ?thesis
      by (simp add: encode_rune_byte append_Cons [abs_def])
  next
    case invalid
    then have "json_rune s = [BACKSLASH] @ ''ufffd''" by (simp add: json_rune_def s d [unfolded s])
    moreover have "read_unicode (''fffd'' @ t) = Some (0xFFFD, t)"
      by (simp add: read_unicode_def hex_digit_zero is_surrogate_def)
    ultimately show ?thesis using invalid(2)
      by (simp add: d json_unquote.simps [of "BACKSLASH # _"] unescape_u)
  next
    case separator
    then have "json_rune s = [BACKSLASH] @ ''u202'' @ [hex_digit (r mod 16)]" by (auto simp: json_rune_def s d [unfolded s])
    moreover have "read_unicode (''202'' @ [hex_digit (r mod 16)] @ t) = Some (r, t)"
      using separator(3) hex_digit_roundtrip [of "r mod 16"] by (auto simp: read_unicode_def hex_digit_zero is_surrogate_def)
    ultimately show ?thesis
      by (simp add: d json_unquote.simps [of "BACKSLASH # _"] unescape_u)
  next
    case plain
    then have j: "json_rune s = take n s" by (auto simp: json_rune_def s d [unfolded s])
    have len: "1 \<le> n" "n \<le> length s" using rune_size_bounds [OF assms] d by simp_all
    have "decode_rune (take n s) = (r, n)" using decode_rune_take [OF assms, of n] d by simp
    moreover have "take n s \<noteq> []" using len assms by simp
    ultimately have dt: "decode_rune (take n s @ t) = (r, n)"
      using decode_rune_append [of "take n s" t] plain(2) by simp
    obtain u where u: "take n s @ t = c # u" using len s by (cases n) auto
    have "c \<noteq> DQUOTE" "c \<noteq> BACKSLASH" "\<not> byte c < 0x20" using plain(1) by auto
    moreover have "drop n (take n s @ t) = t" using len by simp
    ultimately show ?thesis
      using dt unfolding j u by (simp add: json_unquote.simps [of "c # u"] d)
  qed
qed

lemma json_unquote_escape: "json_unquote (json_escape s @ DQUOTE # t) = Some (to_valid s, t)"
proof (induction s rule: json_escape.induct)
  case (1 s)
  show ?case
  proof (cases "s = []")
    case True
    then show ?thesis by (simp add: json_escape.simps json_unquote.simps [of "DQUOTE # t"])
  next
    case False
    then have "json_unquote (json_escape s @ DQUOTE # t) =
      Some (encode_rune (fst (decode_rune s)) @ to_valid (drop (rune_size s) s), t)"
      using json_unquote_rune [OF False, of "json_escape (drop (rune_size s) s) @ DQUOTE # t"] 1 [OF False]
      by (simp add: json_escape.simps [of s])
    then show ?thesis
      using False by (simp add: to_valid.simps [of s] encode_decode_rune [OF False])
  qed
qed

section \<open>Values\<close>

datatype json =
    JNull
  | JBool bool
  | JNumber gostring
  | JString gostring gostring            \<comment> \<open>the literal between the quotes, and its value\<close>
  | JArray "json list"
  | JObject "(gostring \<times> json) list"

definition json_space :: "char \<Rightarrow> bool" where
  "json_space c \<longleftrightarrow> c \<in> set [CHR '' '', CHR 0x09, CR, NL]"

definition skip_space :: "gostring \<Rightarrow> gostring" where
  "skip_space s = dropWhile json_space s"

text \<open>A number literal: sign, integral part without leading zeros, fraction, exponent.\<close>

definition take_digits :: "gostring \<Rightarrow> (gostring \<times> gostring) option" where
  "take_digits s = (case takeWhile is_digit s of [] \<Rightarrow> None | ds \<Rightarrow> Some (ds, dropWhile is_digit s))"

definition number_int :: "gostring \<Rightarrow> (gostring \<times> gostring) option" where
  "number_int s =
     (case s of
        [] \<Rightarrow> None
      | c # cs \<Rightarrow> if c = CHR ''0'' then Some ([c], cs) else take_digits s)"

definition number_frac :: "gostring \<Rightarrow> (gostring \<times> gostring) option" where
  "number_frac s =
     (case s of
        c # cs \<Rightarrow> if c = CHR ''.'' then map_option (map_prod (Cons c) id) (take_digits cs) else Some ([], s)
      | [] \<Rightarrow> Some ([], []))"

definition number_exp :: "gostring \<Rightarrow> (gostring \<times> gostring) option" where
  "number_exp s =
     (case s of
        c # cs \<Rightarrow>
          if c = CHR ''e'' \<or> c = CHR ''E'' then
            (case cs of
               d # ds \<Rightarrow>
                 if d = CHR ''+'' \<or> d = CHR ''-'' then map_option (map_prod (append [c, d]) id) (take_digits ds)
                 else map_option (map_prod (Cons c) id) (take_digits cs)
             | [] \<Rightarrow> None)
          else Some ([], s)
      | [] \<Rightarrow> Some ([], []))"

definition json_number :: "gostring \<Rightarrow> (gostring \<times> gostring) option" where
  "json_number s =
     (let (sign, s0) = (case s of c # cs \<Rightarrow> if c = CHR ''-'' then ([c], cs) else ([], s) | [] \<Rightarrow> ([], [])) in
      case number_int s0 of
        None \<Rightarrow> None
      | Some (i, s1) \<Rightarrow>
          (case number_frac s1 of
             None \<Rightarrow> None
           | Some (f, s2) \<Rightarrow>
               (case number_exp s2 of
                  None \<Rightarrow> None
                | Some (e, s3) \<Rightarrow> Some (sign @ i @ f @ e, s3))))"

text \<open>A string literal, whose literal text is what \<open>json_unquote\<close> consumed before the closing quote.\<close>

definition json_string_lit :: "gostring \<Rightarrow> (json \<times> gostring) option" where
  "json_string_lit s =
     (case json_unquote s of
        None \<Rightarrow> None
      | Some (v, rest) \<Rightarrow> Some (JString (take (length s - length rest - 1) s) v, rest))"

lemma skip_space_length: "length (skip_space s) \<le> length s"
  by (simp add: skip_space_def length_dropWhile_le)

lemma skip_space_shorter: "skip_space s = c # cs \<Longrightarrow> length cs < length s"
  using skip_space_length [of s] by simp

text \<open>
  A value, with the levels of nesting that are left (the decoder allows 10000). The tests on
  lengths are always true and show that the functions end.
\<close>

function json_value :: "nat \<Rightarrow> gostring \<Rightarrow> (json \<times> gostring) option"
  and json_elements :: "nat \<Rightarrow> gostring \<Rightarrow> (json list \<times> gostring) option"
  and json_members :: "nat \<Rightarrow> gostring \<Rightarrow> ((gostring \<times> json) list \<times> gostring) option"
where
  "json_value depth s =
     (case skip_space s of
        [] \<Rightarrow> None
      | c # cs \<Rightarrow>
          if c = DQUOTE then json_string_lit cs
          else if c = CHR ''{'' then
            (if depth = 0 then None
             else
               (case skip_space cs of
                  [] \<Rightarrow> None
                | d # ds \<Rightarrow>
                    if d = CHR ''}'' then Some (JObject [], ds)
                    else map_option (map_prod JObject id) (json_members (depth - 1) cs)))
          else if c = CHR ''['' then
            (if depth = 0 then None
             else
               (case skip_space cs of
                  [] \<Rightarrow> None
                | d # ds \<Rightarrow>
                    if d = CHR '']'' then Some (JArray [], ds)
                    else map_option (map_prod JArray id) (json_elements (depth - 1) cs)))
          else if c = CHR ''t'' then map_option (Pair (JBool True)) (strip_prefix ''rue'' cs)
          else if c = CHR ''f'' then map_option (Pair (JBool False)) (strip_prefix ''alse'' cs)
          else if c = CHR ''n'' then map_option (Pair JNull) (strip_prefix ''ull'' cs)
          else map_option (map_prod JNumber id) (json_number (c # cs)))"
| "json_elements depth s =
     (case json_value depth s of
        None \<Rightarrow> None
      | Some (v, r) \<Rightarrow>
          (case skip_space r of
             [] \<Rightarrow> None
           | c # r' \<Rightarrow>
               if c = CHR '']'' then Some ([v], r')
               else if c = CHR '','' \<and> length r' < length s
               then map_option (map_prod (Cons v) id) (json_elements depth r')
               else None))"
| "json_members depth s =
     (case skip_space s of
        [] \<Rightarrow> None
      | q # s1 \<Rightarrow>
          if q \<noteq> DQUOTE then None
          else
            (case json_unquote s1 of
               None \<Rightarrow> None
             | Some (k, s2) \<Rightarrow>
                 (case skip_space s2 of
                    [] \<Rightarrow> None
                  | c # s3 \<Rightarrow>
                      if c \<noteq> CHR '':'' \<or> length s \<le> length s3 then None
                      else
                        (case json_value depth s3 of
                           None \<Rightarrow> None
                         | Some (v, r) \<Rightarrow>
                             (case skip_space r of
                                [] \<Rightarrow> None
                              | e # r' \<Rightarrow>
                                  if e = CHR ''}'' then Some ([(k, v)], r')
                                  else if e = CHR '','' \<and> length r' < length s
                                  then map_option (map_prod (Cons (k, v)) id) (json_members depth r')
                                  else None)))))"
  by pat_completeness auto

termination
  by (relation "measures [\<lambda>x. (case x of Inl (d, s) \<Rightarrow> length s | Inr (Inl (d, s)) \<Rightarrow> length s | Inr (Inr (d, s)) \<Rightarrow> length s),
       \<lambda>x. (case x of Inl _ \<Rightarrow> 0 | Inr _ \<Rightarrow> 1)]")
    (auto dest!: skip_space_shorter)

declare json_value.simps [simp del] json_elements.simps [simp del] json_members.simps [simp del]

section \<open>Every parser consumes input\<close>

lemma json_unquote_length: "json_unquote s = Some (v, r) \<Longrightarrow> length r < length s"
proof (induction s arbitrary: v r rule: json_unquote.induct)
  case (1 s)
  show ?case
  proof (cases s)
    case (Cons c cs)
    note step = "1.prems" [unfolded json_unquote.simps [of s], unfolded Cons list.case]
    have pos: "0 < rune_size (c # cs)" "rune_size (c # cs) \<le> length (c # cs)"
      using rune_size_bounds [of "c # cs"] by simp_all
    consider (quote) "c = DQUOTE" | (escape) "c \<noteq> DQUOTE" "c = BACKSLASH" | (plain) "c \<noteq> DQUOTE" "c \<noteq> BACKSLASH" by blast
    then show ?thesis
    proof cases
      case quote
      with step Cons show ?thesis by simp
    next
      case escape
      then obtain e es where cs: "cs = e # es" using step by (cases cs) auto
      show ?thesis
      proof (cases "unescape e")
        case (Some d)
        with step escape cs obtain v' where "json_unquote es = Some (v', r)" by auto
        with "1.IH"(2) [OF Cons escape cs Some] show ?thesis by (simp add: Cons cs)
      next
        case None
        with step escape cs obtain x s' v' where u: "e = CHR ''u''" "read_unicode es = Some (x, s')" "json_unquote s' = Some (v', r)"
          by (auto split: if_splits option.splits)
        then have "length r < length s'" using "1.IH"(1) [OF Cons escape cs None _ u(2) refl] by simp
        with read_unicode_length [OF u(2)] show ?thesis by (simp add: Cons cs)
      qed
    next
      case plain
      with step obtain v' where "\<not> byte c < 0x20" "json_unquote (drop (rune_size s) s) = Some (v', r)"
        by (auto simp: Cons split: if_splits)
      with "1.IH"(3) [OF Cons plain] show ?thesis by simp
    qed
  qed (use "1.prems" in \<open>simp add: json_unquote.simps\<close>)
qed

lemma take_digits_length: "take_digits s = Some (ds, r) \<Longrightarrow> length r < length s"
proof -
  assume "take_digits s = Some (ds, r)"
  then have "takeWhile is_digit s \<noteq> []" "r = dropWhile is_digit s"
    by (auto simp: take_digits_def split: list.splits)
  then show ?thesis by (cases s) (auto simp: le_imp_less_Suc length_dropWhile_le split: if_splits)
qed

lemma number_parts_length:
  "number_int s = Some (ds, r) \<Longrightarrow> length r < length s"
  "number_frac s = Some (ds, r) \<Longrightarrow> length r \<le> length s"
  "number_exp s = Some (ds, r) \<Longrightarrow> length r \<le> length s"
  by (auto simp: number_int_def number_frac_def number_exp_def split: list.splits if_splits dest!: take_digits_length)

lemma json_number_length: "json_number s = Some (n, r) \<Longrightarrow> length r < length s"
  by (auto simp: json_number_def Let_def split: list.splits if_splits option.splits prod.splits
      dest!: number_parts_length)

lemma json_literal_length:
  "json_string_lit s = Some (v, r) \<Longrightarrow> length r < length s"
  "strip_prefix p s = Some r \<Longrightarrow> length r \<le> length s"
  by (auto simp: json_string_lit_def strip_prefix_Some_iff split: option.splits dest!: json_unquote_length)

lemma json_value_length_all:
  "json_value d s = Some (v, r) \<Longrightarrow> length r < length s"
  "json_elements d s = Some (vs, r) \<Longrightarrow> length r < length s"
  "json_members d s = Some (ms, r) \<Longrightarrow> length r < length s"
proof (induction d s and d s and d s arbitrary: v r and vs r and ms r
    rule: json_value_json_elements_json_members.induct)
  case (1 d s)
  then obtain c cs where s: "skip_space s = c # cs"
    by (cases "skip_space s") (auto simp: json_value.simps [of d s])
  note len = skip_space_shorter [OF s]
  show ?case
    using 1 s len
    by (auto simp: json_value.simps [of d s] split: if_splits list.splits
        dest: json_literal_length json_number_length skip_space_shorter)
      (blast intro: less_trans)+
next
  case (2 d s)
  then show ?case
    by (auto simp: json_elements.simps [of d s] split: if_splits list.splits option.splits
        dest!: skip_space_shorter)
      (blast intro: less_trans)
next
  case (3 d s)
  note eq = "3.prems" [unfolded json_members.simps [of d s]]
  obtain q s1 where s1: "skip_space s = q # s1" using eq by (cases "skip_space s") auto
  obtain k s2 where s2: "q = DQUOTE" "json_unquote s1 = Some (k, s2)" using eq s1 by (auto split: if_splits option.splits)
  obtain c s3 where s3: "skip_space s2 = c # s3" "\<not> (c \<noteq> CHR '':'' \<or> length s \<le> length s3)"
    using eq s1 s2 by (auto split: if_splits list.splits)
  obtain v r1 where v: "json_value d s3 = Some (v, r1)" using eq s1 s2 s3 by (auto split: if_splits option.splits)
  obtain e r' where e: "skip_space r1 = e # r'" using eq s1 s2 s3 v by (auto split: if_splits list.splits)
  have "length s3 < length s" "length r1 < length s3"
    using s3(2) "3.IH"(1) [OF s1 _ s2(2) refl s3(1,2) v] s2(1) by simp_all
  then have "length r' < length s" using skip_space_shorter [OF e] by simp
  moreover have "r = r' \<or> (\<exists>ms'. json_members d r' = Some (ms', r) \<and> e \<noteq> CHR ''}'' \<and> e = CHR '','' \<and> length r' < length s)"
    using eq s1 s2 s3 v e by (auto split: if_splits)
  ultimately show ?case
    using "3.IH"(2) [OF s1 _ s2(2) refl s3(1,2) v refl e] s2(1) by fastforce
qed

end
