(* ===== verification/Json_Prefix.thy ===== *)
theory Json_Prefix
  imports Go_Json
begin

text \<open>
  What the parser does not see cannot change what it returned: a value whose end is in the
  input is read in the same way when more input follows. So no proper prefix of the text of an
  object is itself read as a value, which is what makes an interrupted upload recognisable.
\<close>

lemma decode_rune_extend:
  assumes "c \<in> set s" "byte c < 0x80"
  shows "decode_rune (s @ t) = decode_rune s"
proof -
  have c: "\<not> cont c" using assms(2) by (simp add: in_range_def)
  have c2: "\<not> second_ok a c" for a using second_ok_cont c by blast
  obtain a r where s: "s = a # r" using assms(1) by (cases s) auto
  show ?thesis
  proof (cases "byte a < 0x80")
    case False
    then obtain b r2 where r: "r = b # r2" "c = b \<or> c \<in> set r2" using assms s by (cases r) auto
    consider "c = b" | d r3 where "c \<noteq> b" "r2 = d # r3" using r by (cases r2) auto
    then show ?thesis
    proof cases
      case 1
      then have "\<not> cont b" "\<not> second_ok a b" using c c2 by auto
      then show ?thesis by (simp add: s r(1) decode_rune_def split: list.split)
    next
      case 2
      then consider "c = d" | d2 r4 where "r3 = d2 # r4" using r by (cases r3) auto
      then show ?thesis
      proof cases
        case 1
        then have "\<not> cont d" using c by simp
        then show ?thesis using 2 by (simp add: s r(1) decode_rune_def split: list.split)
      qed (use 2 in \<open>simp add: s r(1) decode_rune_def\<close>)
    qed
  qed (simp add: s)
qed

lemma read_hex4_extend: "read_hex4 s = Some (r, s') \<Longrightarrow> read_hex4 (s @ t) = Some (r, s' @ t)"
  by (induction s rule: read_hex4.induct) (auto split: option.splits)

lemma json_unquote_no_hex:
  assumes "read_hex4 s = None"
  shows "json_unquote (BACKSLASH # CHR ''u'' # s) = None"
  using assms by (simp add: json_unquote.simps [of "BACKSLASH # _"] unescape_u read_unicode_def)

lemma read_unicode_extend:
  assumes "read_unicode s = Some (x, s')" "json_unquote s' \<noteq> None"
  shows "read_unicode (s @ t) = Some (x, s' @ t)"
proof -
  obtain r s1 where r: "read_hex4 s = Some (r, s1)" using assms(1) by (auto simp: read_unicode_def split: option.splits)
  note r' = read_hex4_extend [OF r, of t]
  show ?thesis
  proof (cases "is_surrogate r")
    case False
    then show ?thesis using assms(1) r r' by (simp add: read_unicode_def)
  next
    case True
    show ?thesis
    proof (cases "strip_prefix [BACKSLASH, CHR ''u''] s1")
      case None
      then have "s' = s1" "x = rune_error" using assms(1) r True by (simp_all add: read_unicode_def)
      moreover have "strip_prefix [BACKSLASH, CHR ''u''] (s1 @ t) = None"
      proof -
        obtain c cs where s1: "s1 = c # cs" using assms(2) calculation(1) by (cases s1) (auto simp: json_unquote.simps)
        show ?thesis
        proof (cases "c = BACKSLASH")
          case True
          then obtain d ds where "cs = d # ds"
            using assms(2) calculation(1) s1 by (cases cs) (auto simp: json_unquote.simps [of "[BACKSLASH]"])
          then show ?thesis using None s1 True by (auto split: if_splits)
        qed (simp add: s1)
      qed
      ultimately show ?thesis using True r' by (simp add: read_unicode_def)
    next
      case (Some s2)
      then have s1: "s1 = BACKSLASH # CHR ''u'' # s2" by (simp add: strip_prefix_Some_iff)
      show ?thesis
      proof (cases "read_hex4 s2")
        case None
        then have "s' = s1" using assms(1) r True Some by (simp add: read_unicode_def)
        then show ?thesis using assms(2) json_unquote_no_hex [OF None] s1 by simp
      next
        case h: (Some p)
        obtain r2 s3 where p: "p = (r2, s3)" by (cases p)
        show ?thesis
          using assms(1) r r' True Some h read_hex4_extend [of s2 r2 s3 t] s1
          by (auto simp: read_unicode_def p split: option.splits)
      qed
    qed
  qed
qed

lemma json_unquote_cases:
  assumes "json_unquote s = Some (v, r)"
  obtains (quote) "s = DQUOTE # r" "v = []"
  | (short) e es d v' where "s = BACKSLASH # e # es" "unescape e = Some d" "json_unquote es = Some (v', r)" "v = d # v'"
  | (unicode) es x s' v' where "s = BACKSLASH # CHR ''u'' # es" "read_unicode es = Some (x, s')"
      "json_unquote s' = Some (v', r)" "v = encode_rune x @ v'"
  | (plain) c cs v' where "s = c # cs" "c \<noteq> DQUOTE" "c \<noteq> BACKSLASH" "\<not> byte c < 0x20"
      "json_unquote (drop (rune_size s) s) = Some (v', r)" "v = encode_rune (fst (decode_rune s)) @ v'"
proof -
  obtain c cs where s: "s = c # cs" using assms by (cases s) (auto simp: json_unquote.simps)
  note step = assms [unfolded json_unquote.simps [of s], unfolded s list.case]
  consider (q) "c = DQUOTE" | (b) "c \<noteq> DQUOTE" "c = BACKSLASH" | (p) "c \<noteq> DQUOTE" "c \<noteq> BACKSLASH" by blast
  then show thesis
  proof cases
    case q
    then show ?thesis using step quote s by simp
  next
    case b
    then obtain e es where cs: "cs = e # es" using step by (cases cs) auto
    show ?thesis
    proof (cases "unescape e")
      case (Some d)
      then show ?thesis using step b cs short [of e es d] s by auto
    next
      case None
      then show ?thesis using step b cs unicode [of es] s by (auto split: if_splits option.splits)
    qed
  next
    case p
    then show ?thesis using step plain [of c cs] s by (auto split: if_splits)
  qed
qed

lemma read_unicode_suffix: "read_unicode s = Some (x, s') \<Longrightarrow> \<exists>p. s = p @ s'"
proof -
  have hex: "\<exists>p. s = p @ s'" if "read_hex4 s = Some (r, s')" for s r s'
    using that by (induction s rule: read_hex4.induct) (auto split: option.splits)
  assume "read_unicode s = Some (x, s')"
  then show ?thesis
    by (auto simp: read_unicode_def strip_prefix_Some_iff split: option.splits if_splits dest!: hex)
qed

lemma json_unquote_plain:
  "s = c # cs \<Longrightarrow> c \<noteq> DQUOTE \<Longrightarrow> c \<noteq> BACKSLASH \<Longrightarrow> \<not> byte c < 0x20 \<Longrightarrow>
     json_unquote s = map_option (map_prod (append (encode_rune (fst (decode_rune s)))) id)
       (json_unquote (drop (rune_size s) s))"
  by (subst json_unquote.simps) simp

lemma json_unquote_quote: "json_unquote s = Some (v, r) \<Longrightarrow> DQUOTE \<in> set s"
proof (induction s arbitrary: v rule: length_induct)
  case (1 s)
  from "1.prems" show ?case
  proof (cases rule: json_unquote_cases)
    case (short e es d v')
    then show ?thesis using 1(1) by auto
  next
    case (unicode es x s' v')
    have "set s' \<subseteq> set es" using read_unicode_suffix [OF unicode(2)] by auto
    then show ?thesis using 1(1) unicode(1,3) read_unicode_length [OF unicode(2)] by auto
  next
    case (plain c cs v')
    have "length (drop (rune_size s) s) < length s" using plain(1) rune_size_bounds [of s] by simp
    then have "DQUOTE \<in> set (drop (rune_size s) s)" using 1(1) plain(5) by blast
    then show ?thesis by (rule in_set_dropD)
  qed simp
qed

lemma json_unquote_extend: "json_unquote s = Some (v, r) \<Longrightarrow> json_unquote (s @ t) = Some (v, r @ t)"
proof (induction s arbitrary: v rule: length_induct)
  case (1 s)
  from "1.prems" show ?case
  proof (cases rule: json_unquote_cases)
    case quote
    then show ?thesis by (simp add: json_unquote.simps [of "DQUOTE # _"])
  next
    case (short e es d v')
    then have "json_unquote (es @ t) = Some (v', r @ t)" using 1(1) by simp
    then show ?thesis using short by (simp add: json_unquote.simps [of "BACKSLASH # _"])
  next
    case (unicode es x s' v')
    then have "json_unquote (s' @ t) = Some (v', r @ t)"
      using 1(1) read_unicode_length [OF unicode(2)] by simp
    moreover have "read_unicode (es @ t) = Some (x, s' @ t)"
      using unicode by (intro read_unicode_extend) simp_all
    ultimately show ?thesis using unicode by (simp add: json_unquote.simps [of "BACKSLASH # _"] unescape_u)
  next
    case (plain c cs v')
    have len: "length (drop (rune_size s) s) < length s" "rune_size s \<le> length s"
      using plain(1) rune_size_bounds [of s] by simp_all
    then have "json_unquote (drop (rune_size s) s @ t) = Some (v', r @ t)" using 1(1) plain(5) by blast
    moreover have "decode_rune (s @ t) = decode_rune s"
      using json_unquote_quote [OF "1.prems"] by (rule decode_rune_extend) simp
    moreover have "drop (rune_size s) (s @ t) = drop (rune_size s) s @ t" using len(2) by simp
    moreover have "json_unquote (s @ t) = map_option (map_prod (append (encode_rune (fst (decode_rune (s @ t))))) id)
       (json_unquote (drop (rune_size (s @ t)) (s @ t)))"
      by (rule json_unquote_plain [where c = c and cs = "cs @ t"]) (use plain(1-4) in simp_all)
    ultimately show ?thesis
      using plain(6) by simp
  qed
qed

lemma json_string_lit_extend:
  "json_string_lit s = Some (v, r) \<Longrightarrow> json_string_lit (s @ t) = Some (v, r @ t)"
proof -
  assume "json_string_lit s = Some (v, r)"
  then obtain x where x: "json_unquote s = Some (x, r)" "v = JString (take (length s - length r - 1) s) x"
    by (auto simp: json_string_lit_def split: option.splits)
  have "length s - length r - 1 \<le> length s" by simp
  then have "take (length s - length r - 1) (s @ t) = take (length s - length r - 1) s" by simp
  then show ?thesis using json_unquote_extend [OF x(1), of t] x(2) by (simp add: json_string_lit_def)
qed

text \<open>A number is extended unless something follows it that ends it.\<close>

lemma take_digits_extend: "take_digits s = Some (ds, r) \<Longrightarrow> r \<noteq> [] \<Longrightarrow> take_digits (s @ t) = Some (ds, r @ t)"
proof -
  assume d: "take_digits s = Some (ds, r)" and r: "r \<noteq> []"
  then have "takeWhile is_digit s = ds" "ds \<noteq> []" "dropWhile is_digit s = r"
    by (auto simp: take_digits_def split: list.splits)
  moreover from this r obtain c where "c \<in> set s" "\<not> is_digit c"
    by (metis dropWhile_eq_Nil_conv)
  ultimately show ?thesis
    by (auto simp: take_digits_def split: list.splits)
qed

lemmas take_digits_extend_Cons = take_digits_extend [of "c # cs" for c cs, unfolded append_Cons]

lemma number_parts_extend:
  "number_int s = Some (ds, r) \<Longrightarrow> r \<noteq> [] \<Longrightarrow> number_int (s @ t) = Some (ds, r @ t)"
  "number_frac s = Some (ds, r) \<Longrightarrow> r \<noteq> [] \<Longrightarrow> number_frac (s @ t) = Some (ds, r @ t)"
  "number_exp s = Some (ds, r) \<Longrightarrow> r \<noteq> [] \<Longrightarrow> number_exp (s @ t) = Some (ds, r @ t)"
  by (auto simp: number_int_def number_frac_def number_exp_def take_digits_extend take_digits_extend_Cons split: list.splits if_splits)

lemma json_number_extend: "json_number s = Some (n, r) \<Longrightarrow> r \<noteq> [] \<Longrightarrow> json_number (s @ t) = Some (n, r @ t)"
proof -
  assume n: "json_number s = Some (n, r)" and r: "r \<noteq> []"
  define sign where "sign = (case s of c # cs \<Rightarrow> if c = CHR ''-'' then ([c], cs) else ([], s) | [] \<Rightarrow> ([], []))"
  obtain p s0 where sign_eq: "sign = (p, s0)" by (cases sign)
  obtain i s1 where i: "number_int s0 = Some (i, s1)"
    using n by (auto simp: json_number_def sign_def [symmetric] sign_eq split: option.splits)
  obtain f s2 where f: "number_frac s1 = Some (f, s2)"
    using n i by (auto simp: json_number_def sign_def [symmetric] sign_eq split: option.splits)
  obtain e where e: "number_exp s2 = Some (e, r)" "n = p @ i @ f @ e"
    using n i f by (auto simp: json_number_def sign_def [symmetric] sign_eq split: option.splits)
  have "s2 \<noteq> []" using e(1) r number_parts_length(3) [OF e(1)] by auto
  moreover from this have "s1 \<noteq> []" using number_parts_length(2) [OF f] by auto
  moreover have "(case s @ t of c # cs \<Rightarrow> if c = CHR ''-'' then ([c], cs) else ([], s @ t) | [] \<Rightarrow> ([], [])) = (p, s0 @ t)"
    using sign_eq number_parts_length(1) [OF i] by (cases s) (auto simp: sign_def split: if_splits)
  ultimately show ?thesis
    using number_parts_extend(1) [OF i] number_parts_extend(2) [OF f] number_parts_extend(3) [OF e(1) r] e(2)
    by (simp add: json_number_def)
qed

lemma skip_space_extend: "skip_space s = c # cs \<Longrightarrow> skip_space (s @ t) = c # cs @ t"
  by (induction s) (auto simp: skip_space_def split: if_splits)

fun is_number :: "json \<Rightarrow> bool" where
  "is_number (JNumber lit) = True"
| "is_number j = False"

lemma json_extend_all:
  "json_value d s = Some (v, r) \<Longrightarrow> r \<noteq> [] \<or> \<not> is_number v \<Longrightarrow> json_value d (s @ t) = Some (v, r @ t)"
  "json_elements d s = Some (vs, r) \<Longrightarrow> json_elements d (s @ t) = Some (vs, r @ t)"
  "json_members d s = Some (ms, r) \<Longrightarrow> json_members d (s @ t) = Some (ms, r @ t)"
proof (induction d s and d s and d s arbitrary: v r and vs r and ms r
    rule: json_value_json_elements_json_members.induct)
  case (1 d s)
  obtain c cs where s: "skip_space s = c # cs"
    using "1.prems"(1) by (cases "skip_space s") (auto simp: json_value.simps [of d s])
  note eq = "1.prems"(1) [unfolded json_value.simps [of d s] s list.case]
  note eq' = json_value.simps [of d "s @ t", unfolded skip_space_extend [OF s] list.case]
  consider "c = DQUOTE" | "c = CHR ''{''" | "c = CHR ''[''" | "c = CHR ''t''" | "c = CHR ''f''" | "c = CHR ''n''"
    | (number) "c \<notin> set [DQUOTE, CHR ''{'', CHR ''['', CHR ''t'', CHR ''f'', CHR ''n'']" by auto
  then show ?case
  proof cases
    case 1
    then show ?thesis using eq eq' json_string_lit_extend by simp
  next
    case 2
    obtain e es where e: "skip_space cs = e # es" using eq 2 by (cases "skip_space cs") (auto split: if_splits)
    show ?thesis
      using eq eq' "1.IH"(1) [OF s _ 2 _ e] 2 skip_space_extend [OF e] e by (auto split: if_splits)
  next
    case 3
    obtain e es where e: "skip_space cs = e # es" using eq 3 by (cases "skip_space cs") (auto split: if_splits)
    show ?thesis
      using eq eq' "1.IH"(2) [OF s _ _ 3 _ e] 3 skip_space_extend [OF e] e by (auto split: if_splits)
  next
    case number
    then have "is_number v" "json_number (c # cs) = Some (case v of JNumber n \<Rightarrow> n, r)" using eq by auto
    then show ?thesis
      using number eq' eq "1.prems"(2) json_number_extend [of "c # cs" _ r t] by auto
  qed (use eq eq' in \<open>auto simp: strip_prefix_Some_iff\<close>)
next
  case (2 d s)
  note eq = "2.prems" [unfolded json_elements.simps [of d s]]
  obtain v r1 where v: "json_value d s = Some (v, r1)" using eq by (auto split: option.splits)
  obtain c r2 where r1: "skip_space r1 = c # r2" using eq v by (cases "skip_space r1") auto
  then have "r1 \<noteq> []" by (auto simp: skip_space_def)
  then have "json_value d (s @ t) = Some (v, r1 @ t)" using "2.IH"(1) [OF v] by simp
  then show ?case
    using eq v r1 skip_space_extend [OF r1, of t] "2.IH"(2) [OF v refl r1]
    by (auto simp: json_elements.simps [of d "s @ t"] split: if_splits)
next
  case (3 d s)
  note eq = "3.prems" [unfolded json_members.simps [of d s]]
  obtain q s1 where s1: "skip_space s = q # s1" using eq by (cases "skip_space s") auto
  obtain k s2 where s2: "q = DQUOTE" "json_unquote s1 = Some (k, s2)" using eq s1 by (auto split: if_splits option.splits)
  obtain c s3 where s3: "skip_space s2 = c # s3" "\<not> (c \<noteq> CHR '':'' \<or> length s \<le> length s3)"
    using eq s1 s2 by (auto split: if_splits list.splits)
  obtain v r1 where v: "json_value d s3 = Some (v, r1)" using eq s1 s2 s3 by (auto split: if_splits option.splits)
  obtain e r' where e: "skip_space r1 = e # r'" using eq s1 s2 s3 v by (auto split: if_splits list.splits)
  then have "r1 \<noteq> []" by (auto simp: skip_space_def)
  then have "json_value d (s3 @ t) = Some (v, r1 @ t)"
    using "3.IH"(1) [OF s1 _ s2(2) refl s3(1,2) v] s2(1) by simp
  then show ?case
    using eq s1 s2 s3 v e skip_space_extend [OF s1, of t] json_unquote_extend [OF s2(2), of t]
      skip_space_extend [OF s3(1), of t] skip_space_extend [OF e, of t]
      "3.IH"(2) [OF s1 _ s2(2) refl s3(1,2) v refl e]
    by (auto simp: json_members.simps [of d "s @ t"] split: if_splits)
qed

end
