(* ===== verification/Json_Codec.thy ===== *)
theory Json_Codec
  imports Json_Prefix
begin

text \<open>
  The encoder of \<open>encoding/json\<close> as a printer of syntax trees, its round trip through the
  parser, and the streaming \<open>Decoder\<close> over a request body. A locale states what a pair of an
  encoder and a decoder has to promise for a stream of lines to be read back value by value.
\<close>

section \<open>Printing\<close>

fun print_json :: "json \<Rightarrow> gostring" where
  "print_json JNull = ''null''"
| "print_json (JBool b) = (if b then ''true'' else ''false'')"
| "print_json (JNumber lit) = lit"
| "print_json (JString lit v) = DQUOTE # lit @ [DQUOTE]"
| "print_json (JArray js) = ''['' @ join_with '','' (map print_json js) @ '']''"
| "print_json (JObject ms) =
     ''{'' @ join_with '','' (map (\<lambda>(k, v). json_string k @ '':'' @ print_json v) ms) @ ''}''"

abbreviation json_str :: "gostring \<Rightarrow> json" where
  "json_str s \<equiv> JString (json_escape s) (to_valid s)"

text \<open>What the parser makes of a printed tree: the keys of objects become valid UTF-8.\<close>

fun norm_json :: "json \<Rightarrow> json" where
  "norm_json (JArray js) = JArray (map norm_json js)"
| "norm_json (JObject ms) = JObject (map (\<lambda>(k, v). (to_valid k, norm_json v)) ms)"
| "norm_json j = j"

text \<open>
  Trees whose leaves hold literals of their kind, at most \<open>d\<close> levels deep, and the texts that
  may follow a literal.
\<close>

definition number_end :: "gostring \<Rightarrow> bool" where
  "number_end s \<longleftrightarrow> (case s of [] \<Rightarrow> True | c # _ \<Rightarrow> \<not> is_digit c \<and> c \<notin> set ''.eE'')"

fun printable :: "nat \<Rightarrow> json \<Rightarrow> bool" where
  "printable d JNull = True"
| "printable d (JBool b) = True"
| "printable d (JNumber lit) = (lit \<noteq> [] \<and> (is_digit (hd lit) \<or> hd lit = CHR ''-'')
     \<and> (\<forall>t. number_end t \<longrightarrow> json_number (lit @ t) = Some (lit, t)))"
| "printable d (JString lit v) = (\<forall>t. json_unquote (lit @ DQUOTE # t) = Some (v, t))"
| "printable d (JArray js) = (0 < d \<and> list_all (printable (d - 1)) js)"
| "printable d (JObject ms) = (0 < d \<and> list_all (\<lambda>(k, v). printable (d - 1) v) ms)"

lemma skip_space_cons [simp]: "\<not> json_space c \<Longrightarrow> skip_space (c # s) = c # s"
  by (simp add: skip_space_def)

lemma json_space_simps [simp]:
  "\<not> json_space DQUOTE" "\<not> json_space (CHR ''{'')" "\<not> json_space (CHR ''}'')" "\<not> json_space (CHR ''['')"
  "\<not> json_space (CHR '']'')" "\<not> json_space (CHR '','')" "\<not> json_space (CHR '':'')" "\<not> json_space (CHR ''t'')"
  "\<not> json_space (CHR ''f'')" "\<not> json_space (CHR ''n'')" "\<not> json_space (CHR ''-'')" "json_space NL"
  by (simp_all add: json_space_def)

lemma number_end_simps [simp]:
  "number_end []" "number_end (CHR '','' # s)" "number_end (CHR ''}'' # s)" "number_end (CHR '']'' # s)"
  "number_end (NL # s)"
  by (simp_all add: number_end_def is_digit_def)

lemma json_string_lit_print:
  "(\<And>t. json_unquote (lit @ DQUOTE # t) = Some (v, t)) \<Longrightarrow>
     json_string_lit (lit @ DQUOTE # rest) = Some (JString lit v, rest)"
  by (simp add: json_string_lit_def)

lemma json_key_print: "json_unquote (tl (json_string k @ t)) = Some (to_valid k, t)"
  by (simp add: json_string_def json_unquote_escape)

lemma json_value_number:
  assumes "printable d (JNumber lit)" "number_end rest"
  shows "json_value d (lit @ rest) = Some (JNumber lit, rest)"
proof -
  obtain c cs where lit: "lit = c # cs" using assms(1) by (cases lit) auto
  then have c: "is_digit c \<or> c = CHR ''-''" using assms(1) by simp
  then have "\<not> json_space c" "c \<noteq> DQUOTE" "c \<noteq> CHR ''{''" "c \<noteq> CHR ''[''" "c \<noteq> CHR ''t''" "c \<noteq> CHR ''f''" "c \<noteq> CHR ''n''"
    by (auto simp: json_space_def is_digit_def)
  moreover have "json_number (c # cs @ rest) = Some (c # cs, rest)" using assms lit by simp
  ultimately show ?thesis by (simp add: json_value.simps [of d] lit)
qed

lemma json_value_space: "json_value d (skip_space s) = json_value d s"
proof -
  have "skip_space (skip_space s) = skip_space s" by (simp add: skip_space_def)
  then show ?thesis by (simp add: json_value.simps)
qed

text \<open>What follows an element, and a member.\<close>

lemma json_elements_step:
  assumes "json_value d s = Some (v, c # t)" "length t < length s" "\<not> json_space c"
  shows "json_elements d s = (if c = CHR '']'' then Some ([v], t)
     else if c = CHR '','' then map_option (map_prod (Cons v) id) (json_elements d t) else None)"
  using assms by (simp add: json_elements.simps [of d s])

lemma json_members_step:
  assumes "json_value d s = Some (v, c # t)" "length t < length s" "\<not> json_space c"
  shows "json_members d (json_string k @ CHR '':'' # s) = (if c = CHR ''}'' then Some ([(to_valid k, v)], t)
     else if c = CHR '','' then map_option (map_prod (Cons (to_valid k, v)) id) (json_members d t) else None)"
  using assms
  by (subst json_members.simps)
    (simp add: json_string_def json_unquote_escape)

lemma join_with_Cons: "join_with sep (x # xs) = (if xs = [] then x else x @ sep @ join_with sep xs)"
  by (cases xs) auto

lemma print_elements:
  assumes "\<And>j rest. j \<in> set js \<Longrightarrow> number_end rest \<Longrightarrow> json_value d (print_json j @ rest) = Some (norm_json j, rest)"
    "js \<noteq> []"
  shows "json_elements d (join_with '','' (map print_json js) @ CHR '']'' # rest) = Some (map norm_json js, rest)"
  using assms
proof (induction js)
  case (Cons j js)
  have v: "json_value d (print_json j @ c # r) = Some (norm_json j, c # r)" if "c \<in> set '',]''" for c r
    using Cons.prems(1) that by auto
  show ?case
  proof (cases "js = []")
    case True
    then show ?thesis using json_elements_step [OF v [of "CHR '']''" rest]] by simp
  next
    case False
    define r where "r = join_with '','' (map print_json js) @ CHR '']'' # rest"
    have "json_elements d r = Some (map norm_json js, rest)"
      using Cons.IH Cons.prems(1) False by (simp add: r_def)
    then show ?thesis
      using json_elements_step [OF v [of "CHR '',''" r]] False by (simp add: join_with_Cons r_def)
  qed
qed simp

abbreviation print_member :: "gostring \<times> json \<Rightarrow> gostring" where
  "print_member \<equiv> \<lambda>(k, v). json_string k @ '':'' @ print_json v"

lemma print_members:
  assumes "\<And>k v rest. (k, v) \<in> set ms \<Longrightarrow> number_end rest \<Longrightarrow> json_value d (print_json v @ rest) = Some (norm_json v, rest)"
    "ms \<noteq> []"
  shows "json_members d (join_with '','' (map print_member ms) @ CHR ''}'' # rest)
     = Some (map (\<lambda>(k, v). (to_valid k, norm_json v)) ms, rest)"
  using assms
proof (induction ms)
  case (Cons m ms)
  obtain k v where m: "m = (k, v)" by (cases m)
  have v: "json_value d (print_json v @ c # r) = Some (norm_json v, c # r)" if "c \<in> set '',}''" for c r
    using Cons.prems(1) [of k v "c # r"] that by (auto simp: m)
  show ?case
  proof (cases "ms = []")
    case True
    then show ?thesis using json_members_step [OF v [of "CHR ''}''" rest]] by (simp add: m)
  next
    case False
    define r where "r = join_with '','' (map print_member ms) @ CHR ''}'' # rest"
    have "json_members d r = Some (map (\<lambda>(k, v). (to_valid k, norm_json v)) ms, rest)"
      unfolding r_def by (rule Cons.IH [OF _ False]) (use Cons.prems(1) in auto)
    then show ?thesis
      using json_members_step [OF v [of "CHR '',''" r]] False by (simp add: m join_with_Cons r_def)
  qed
qed simp

lemma print_json_hd:
  assumes "printable d j"
  shows "\<exists>c cs. print_json j = c # cs \<and> \<not> json_space c \<and> c \<noteq> CHR '']''"
proof (cases j)
  case (JNumber lit)
  with assms show ?thesis by (cases lit) (auto simp: json_space_def is_digit_def)
qed (use assms in auto)

lemma print_parse:
  "printable d j \<Longrightarrow> number_end rest \<Longrightarrow> json_value d (print_json j @ rest) = Some (norm_json j, rest)"
proof (induction d j arbitrary: rest rule: printable.induct)
  case (3 d lit)
  then show ?case by (simp add: json_value_number)
next
  case (5 d js)
  show ?case
  proof (cases js)
    case (Cons j js')
    define s where "s = join_with '','' (map print_json js) @ CHR '']'' # rest"
    have "json_elements (d - 1) s = Some (map norm_json js, rest)"
      unfolding s_def using 5 Cons by (intro print_elements) (auto simp: list_all_iff)
    moreover obtain c cs where "s = c # cs" "\<not> json_space c" "c \<noteq> CHR '']''"
      using print_json_hd [of "d - 1" j] 5(2) unfolding s_def Cons by (cases "js' = []") (auto simp: join_with_Cons)
    moreover have "print_json (JArray js) @ rest = CHR ''['' # s" by (simp add: s_def)
    ultimately show ?thesis using 5(2) by (simp add: json_value.simps [of d "CHR ''['' # _"] del: One_nat_def)
  qed (use 5 in \<open>simp add: json_value.simps [of d "CHR ''['' # _"]\<close>)
next
  case (6 d ms)
  show ?case
  proof (cases ms)
    case (Cons m ms')
    define s where "s = join_with '','' (map print_member ms) @ CHR ''}'' # rest"
    have "json_members (d - 1) s = Some (map (\<lambda>(k, v). (to_valid k, norm_json v)) ms, rest)"
      unfolding s_def
    proof (rule print_members)
      fix k v rest assume "(k, v) \<in> set ms" "number_end rest"
      with 6(1) [OF this(1) refl] 6(2)
      show "json_value (d - 1) (print_json v @ rest) = Some (norm_json v, rest)" by (auto simp: list_all_iff)
    qed (simp add: Cons)
    moreover obtain cs where "s = DQUOTE # cs"
      unfolding s_def Cons by (cases m; cases "ms' = []") (auto simp: join_with_Cons json_string_def)
    moreover have "print_json (JObject ms) @ rest = CHR ''{'' # s" by (simp add: s_def)
    ultimately show ?thesis using 6(2) by (simp add: json_value.simps [of d "CHR ''{'' # _"] del: One_nat_def)
  qed (use 6 in \<open>simp add: json_value.simps [of d "CHR ''{'' # _"]\<close>)
qed (simp_all add: json_value.simps [of _ "_ # _"] json_string_lit_print)

section \<open>Leaves\<close>

lemma printable_json_str [simp]: "printable d (json_str s)"
  by (simp add: json_unquote_escape)

lemma format_nat_hd: "0 < n \<Longrightarrow> hd (format_nat n) \<noteq> CHR ''0''"
proof (induction n rule: format_nat.induct)
  case (1 n)
  show ?case
  proof (cases "n < 10")
    case True
    have "byte (digit_char n) \<noteq> byte (CHR ''0'')" using True 1(2) byte_digit_char [of n] by simp
    then show ?thesis using True by (auto simp: format_nat.simps [of n])
  next
    case False
    then have "0 < n div 10" by simp
    with 1(1) [OF False] False show ?thesis by (simp add: format_nat.simps [of n])
  qed
qed

lemma number_end_rest:
  assumes "number_end t"
  shows "number_frac t = Some ([], t)" "number_exp t = Some ([], t)"
    "takeWhile is_digit t = []" "dropWhile is_digit t = t"
  using assms by (auto simp: number_end_def number_frac_def number_exp_def split: list.splits)

lemma number_int_format:
  assumes "number_end t"
  shows "number_int (format_nat n @ t) = Some (format_nat n, t)"
proof -
  obtain c cs where f: "format_nat n = c # cs" by (cases "format_nat n") auto
  have digits: "list_all is_digit (format_nat n)" by (rule format_nat_digits)
  show ?thesis
  proof (cases "n = 0")
    case True
    then have "format_nat n = ''0''" by (simp add: format_nat.simps digit_char_def)
    then show ?thesis by (simp add: number_int_def)
  next
    case False
    then have "c \<noteq> CHR ''0''" using format_nat_hd [of n] f by simp
    moreover have "takeWhile is_digit (format_nat n @ t) = format_nat n" "dropWhile is_digit (format_nat n @ t) = t"
      using digits number_end_rest [OF assms] by (simp_all add: dropWhile_append list_all_iff)
    ultimately show ?thesis by (simp add: number_int_def take_digits_def f)
  qed
qed

lemma printable_int [simp]: "printable d (JNumber (format_int i))"
proof -
  have "json_number (format_int i @ t) = Some (format_int i, t)" if "number_end t" for t
  proof (cases "i < 0")
    case True
    then show ?thesis
      using number_int_format [OF that] number_end_rest [OF that] by (simp add: json_number_def format_int_def)
  next
    case False
    obtain c cs where f: "format_nat (nat i) = c # cs" "is_digit c"
      using format_nat_digits [of "nat i"] by (cases "format_nat (nat i)") auto
    then have "c \<noteq> CHR ''-''" by (auto simp: is_digit_def)
    then show ?thesis
      using False f number_int_format [OF that, of "nat i"] number_end_rest [OF that]
      by (simp add: json_number_def format_int_def)
  qed
  moreover have "format_int i \<noteq> [] \<and> (is_digit (hd (format_int i)) \<or> hd (format_int i) = CHR ''-'')"
    using format_nat_digits [of "nat i"] by (cases "format_nat (nat i)") (auto simp: format_int_def)
  ultimately show ?thesis by simp
qed

text \<open>A literal of harmless ASCII is its own escape.\<close>

lemma json_escape_safe: "list_all html_safe s \<Longrightarrow> json_escape s = s"
proof (induction s)
  case (Cons c s)
  then have "byte c < 0x80" by (simp add: html_safe_def)
  with Cons show ?case by (simp add: json_escape.simps [of "c # s"] json_rune_def json_byte_def)
qed (simp add: json_escape.simps)

lemma printable_safe [simp]: "list_all html_safe s \<Longrightarrow> printable d (JString s s)"
proof -
  assume safe: "list_all html_safe s"
  then have "is_ascii s" by (auto simp: is_ascii_def html_safe_def list_all_iff)
  then show ?thesis using json_unquote_escape [of s] by (simp add: json_escape_safe [OF safe])
qed

text \<open>No proper prefix of a printed object or array is a value.\<close>

fun composite :: "json \<Rightarrow> bool" where
  "composite (JArray js) = True"
| "composite (JObject ms) = True"
| "composite j = False"

lemma composite_norm [simp]: "composite (norm_json j) = composite j"
  by (cases j) simp_all

lemma json_value_space_append: "list_all json_space pre \<Longrightarrow> json_value d (pre @ s) = json_value d s"
  by (subst (1 2) json_value_space [symmetric]) (simp add: skip_space_def dropWhile_append list_all_iff)

lemma bracket_not_number:
  "json_value d (c # s) = Some (v, r) \<Longrightarrow> c = CHR ''{'' \<or> c = CHR ''['' \<Longrightarrow> \<not> is_number v"
  by (auto simp: json_value.simps [of d "c # s"] split: if_splits list.splits)

lemma prefix_not_value:
  assumes "composite j" "printable d j" "print_json j = p @ q" "q \<noteq> []" "p \<noteq> []"
  shows "json_value d p = None"
proof (rule ccontr)
  assume "json_value d p \<noteq> None"
  then obtain v r where v: "json_value d p = Some (v, r)" by auto
  obtain c p' where p: "p = c # p'" using assms(5) by (cases p) auto
  have "c = CHR ''{'' \<or> c = CHR ''[''" using assms(1,3) p by (cases j) auto
  then have "json_value d (p @ q @ [NL]) = Some (v, r @ q @ [NL])"
    using json_extend_all(1) [OF v] bracket_not_number v p by blast
  moreover have "json_value d (p @ q @ [NL]) = Some (norm_json j, [NL])"
    using print_parse [OF assms(2), of "[NL]"] assms(3) by simp
  ultimately show False using assms(4) by simp
qed

section \<open>Streams of values\<close>

text \<open>How the reader behind the decoder ends: with \<open>io.EOF\<close>, or with an error.\<close>

datatype body_end = Closed | Broken gostring

text \<open>\<open>http.MaxBytesReader\<close>: the first \<open>limit\<close> bytes, then an error if there are more.\<close>

definition max_bytes_reader :: "int \<Rightarrow> gostring \<times> body_end \<Rightarrow> gostring \<times> body_end" where
  "max_bytes_reader limit = (\<lambda>(s, e).
     if int (length s) \<le> limit then (s, e) else (take (nat limit) s, Broken ''http: request body too large''))"

definition max_nesting_depth :: nat where
  "max_nesting_depth = 10000"

text \<open>
  The results of calling \<open>Decode\<close> until it reports an error or \<open>io.EOF\<close>. A literal ends where
  the next byte is seen or the reader is at its end, so one at a broken end is not returned;
  an object or array is. The texts of syntax and type errors are a parameter.
\<close>

function decode_stream ::
    "(json \<Rightarrow> 'a option) \<Rightarrow> (body_end \<Rightarrow> gostring \<Rightarrow> gostring) \<Rightarrow> body_end \<Rightarrow> gostring \<Rightarrow> (gostring + 'a) list"
where
  "decode_stream dec bad e s =
     (if skip_space s = [] then (case e of Closed \<Rightarrow> [] | Broken err \<Rightarrow> [Inl err])
      else
        (case json_value max_nesting_depth s of
           None \<Rightarrow> [Inl (bad e s)]
         | Some (j, r) \<Rightarrow>
             (case (if r = [] \<and> \<not> composite j then e else Closed) of
                Broken err \<Rightarrow> [Inl err]
              | Closed \<Rightarrow>
                  (case dec j of
                     None \<Rightarrow> [Inl (bad e s)]
                   | Some x \<Rightarrow> Inr x # decode_stream dec bad e r))))"
  by pat_completeness auto
termination
  by (relation "measure (\<lambda>(dec, bad, e, s). length s)") (auto dest: json_value_length_all(1))

declare decode_stream.simps [simp del]

text \<open>\<open>json.Unmarshal\<close>: one value and nothing behind it but white space.\<close>

definition unmarshal :: "(json \<Rightarrow> 'a option) \<Rightarrow> (gostring \<Rightarrow> gostring) \<Rightarrow> gostring \<Rightarrow> gostring + 'a" where
  "unmarshal dec bad s =
     (case json_value max_nesting_depth s of
        None \<Rightarrow> Inl (bad s)
      | Some (j, r) \<Rightarrow>
          (if skip_space r \<noteq> [] then Inl (bad s)
           else (case dec j of None \<Rightarrow> Inl (bad s) | Some x \<Rightarrow> Inr x)))"

lemma unmarshal_print:
  "printable max_nesting_depth j \<Longrightarrow> dec (norm_json j) = Some x \<Longrightarrow> unmarshal dec bad (print_json j) = Inr x"
  using print_parse [of max_nesting_depth j "[]"] by (simp add: unmarshal_def skip_space_def)

text \<open>\<open>Encoder.Encode\<close>: the value and a newline.\<close>

definition encode_line :: "('a \<Rightarrow> json option) \<Rightarrow> 'a \<Rightarrow> gostring option" where
  "encode_line enc x = map_option (\<lambda>j. print_json j @ [NL]) (enc x)"

definition encode_lines :: "('a \<Rightarrow> json option) \<Rightarrow> 'a list \<Rightarrow> gostring" where
  "encode_lines enc xs = concat (map (\<lambda>x. case encode_line enc x of Some l \<Rightarrow> l | None \<Rightarrow> []) xs)"

text \<open>What a decoder delivers last: nothing or one error, an error if the reader broke.\<close>

definition ends_with_error :: "body_end \<Rightarrow> (gostring + 'c) list \<Rightarrow> bool" where
  "ends_with_error e rest \<longleftrightarrow> (rest = [] \<and> e = Closed) \<or> (\<exists>err. rest = [Inl err])"

lemma decode_blank:
  "list_all json_space s \<Longrightarrow> ends_with_error e (decode_stream dec bad e s)"
  by (cases e) (simp_all add: ends_with_error_def decode_stream.simps [of dec bad _ s] skip_space_def list_all_iff)

text \<open>
  The contract of an encoder and a decoder: what is encoded is an object within the nesting
  limit, and the tree that the parser returns for it decodes to what \<open>norm\<close> says, for every
  value within the range of the decoder's types.
\<close>

locale json_lines =
  fixes enc :: "'a \<Rightarrow> json option"
    and dec :: "json \<Rightarrow> 'b option"
    and norm :: "'a \<Rightarrow> 'b"
    and fits :: "'a \<Rightarrow> bool"
  assumes enc_printable: "enc x = Some j \<Longrightarrow> printable max_nesting_depth j"
    and enc_composite: "enc x = Some j \<Longrightarrow> composite j"
    and dec_enc: "enc x = Some j \<Longrightarrow> fits x \<Longrightarrow> dec (norm_json j) = Some (norm x)"
begin

lemma line_parses:
  assumes "enc x = Some j" "list_all json_space pre"
  shows "json_value max_nesting_depth (pre @ print_json j @ NL # rest) = Some (norm_json j, NL # rest)"
  using print_parse [OF enc_printable [OF assms(1)], of "NL # rest"]
  by (simp add: json_value_space_append [OF assms(2)])

lemma line_not_blank: "enc x = Some j \<Longrightarrow> skip_space (pre @ print_json j @ t) \<noteq> []"
proof -
  assume e: "enc x = Some j"
  obtain c cs where "print_json j = c # cs" "\<not> json_space c"
    using print_json_hd [OF enc_printable [OF e]] by auto
  then show ?thesis by (simp add: skip_space_def)
qed

lemma stream_reads_back:
  assumes "list_all (\<lambda>x. enc x \<noteq> None \<and> fits x) xs" "list_all json_space pre"
  shows "decode_stream dec bad Closed (pre @ encode_lines enc xs) = map (Inr \<circ> norm) xs"
  using assms
proof (induction xs arbitrary: pre)
  case Nil
  then show ?case
    by (simp add: decode_stream.simps encode_lines_def skip_space_def list_all_iff)
next
  case (Cons x xs)
  then obtain j where j: "enc x = Some j" "fits x" by auto
  have "encode_lines enc (x # xs) = print_json j @ NL # encode_lines enc xs"
    by (simp add: encode_lines_def encode_line_def j)
  moreover have "decode_stream dec bad Closed (NL # encode_lines enc xs) = map (Inr \<circ> norm) xs"
    using Cons.IH [of "[NL]"] Cons.prems(1) by simp
  ultimately show ?case
    using line_parses [OF j(1) Cons.prems(2)] line_not_blank [OF j(1)] dec_enc [OF j] enc_composite [OF j(1)]
    by (simp add: decode_stream.simps [of dec bad Closed "pre @ _"])
qed

text \<open>
  A stream that is cut after \<open>n\<close> bytes gives the values whose text is complete, and then
  what \<open>ends_with_error\<close> says.
\<close>

lemma encode_lines_Cons:
  "enc x = Some j \<Longrightarrow> encode_lines enc (x # xs) = print_json j @ NL # encode_lines enc xs"
  by (simp add: encode_lines_def encode_line_def)

lemma cut_stream:
  assumes "list_all (\<lambda>x. enc x \<noteq> None \<and> fits x) xs" "list_all json_space pre"
  shows "\<exists>k rest. decode_stream dec bad e (pre @ take n (encode_lines enc xs)) = map (Inr \<circ> norm) (take k xs) @ rest
     \<and> ends_with_error e rest \<and> k \<le> length xs \<and> length (encode_lines enc (take k xs)) \<le> n + 1
     \<and> (k < length xs \<longrightarrow> n + 1 < length (encode_lines enc (take (Suc k) xs)))"
  using assms
proof (induction xs arbitrary: pre n)
  case Nil
  have "ends_with_error e (decode_stream dec bad e pre)" by (rule decode_blank [OF Nil(2)])
  then show ?case by (intro exI [of _ 0]) (simp add: encode_lines_def)
next
  case (Cons x xs)
  then obtain j where j: "enc x = Some j" "fits x" by auto
  define p where "p = print_json j"
  have lines: "encode_lines enc (x # zs) = p @ NL # encode_lines enc zs" for zs
    unfolding p_def by (rule encode_lines_Cons [OF j(1)])
  show ?case
  proof (cases "n < length p")
    case True
    then have t: "take n (encode_lines enc (x # xs)) = take n p" unfolding lines by simp
    have err: "ends_with_error e (decode_stream dec bad e (pre @ take n p))"
    proof (cases "n = 0")
      case False
      then have "json_value max_nesting_depth (take n p) = None"
        using prefix_not_value [OF enc_composite enc_printable, OF j(1) j(1), of "take n p" "drop n p"] True
        by (cases "p = []") (auto simp: p_def)
      then have "json_value max_nesting_depth (pre @ take n p) = None"
        by (simp add: json_value_space_append [OF Cons.prems(2)])
      moreover obtain c cs where "take n p = c # cs" "\<not> json_space c"
        using print_json_hd [OF enc_printable [OF j(1)]] False True unfolding p_def by (cases n) auto
      ultimately show ?thesis by (simp add: decode_stream.simps [of dec bad e "pre @ _"] ends_with_error_def skip_space_def)
    qed (use decode_blank [OF Cons.prems(2)] in simp)
    show ?thesis
      unfolding t using err True by (intro exI [of _ 0]) (simp add: lines, simp add: encode_lines_def)
  next
    case False
    let ?r = "take (n - length p) (NL # encode_lines enc xs)"
    have t: "take n (encode_lines enc (x # xs)) = p @ ?r" unfolding lines using False by simp
    have "number_end ?r" by (cases "n - length p") simp_all
    then have "json_value max_nesting_depth (pre @ p @ ?r) = Some (norm_json j, ?r)"
      unfolding p_def json_value_space_append [OF Cons.prems(2)] by (rule print_parse [OF enc_printable [OF j(1)]])
    then have step: "decode_stream dec bad e (pre @ p @ ?r) = Inr (norm x) # decode_stream dec bad e ?r"
      using line_not_blank [OF j(1), of pre ?r] dec_enc [OF j] enc_composite [OF j(1)]
      by (simp add: decode_stream.simps [of dec bad e "pre @ _"] p_def)
    show ?thesis
    proof (cases "n - length p")
      case 0
      then have "ends_with_error e (decode_stream dec bad e ?r)" using decode_blank [of "[]"] by simp
      moreover have "length (p @ NL # encode_lines enc []) < length (encode_lines enc (take 2 (x # xs)))" if "0 < length xs"
      proof -
        obtain y ys where "xs = y # ys" "enc y \<noteq> None" using \<open>0 < length xs\<close> Cons.prems(1) by (cases xs) auto
        then show ?thesis using encode_lines_Cons [of y _ "[]"] by (auto simp: lines encode_lines_Cons [of y] numeral_2_eq_2)
      qed
      ultimately show ?thesis
        unfolding t step using False 0
        by (intro exI [of _ 1]) (auto simp: lines numeral_2_eq_2 encode_lines_def [of _ "[]"])
    next
      case (Suc m)
      then have r: "?r = [NL] @ take m (encode_lines enc xs)" by simp
      obtain k rest where k: "decode_stream dec bad e ([NL] @ take m (encode_lines enc xs)) = map (Inr \<circ> norm) (take k xs) @ rest"
        "ends_with_error e rest" "k \<le> length xs" "length (encode_lines enc (take k xs)) \<le> m + 1"
        "k < length xs \<longrightarrow> m + 1 < length (encode_lines enc (take (Suc k) xs))"
      proof -
        have "list_all (\<lambda>x. enc x \<noteq> None \<and> fits x) xs" "list_all json_space [NL]" using Cons.prems(1) by simp_all
        from Cons.IH [OF this] show thesis using that by blast
      qed
      have "decode_stream dec bad e (pre @ take n (encode_lines enc (x # xs)))
         = Inr (norm x) # map (Inr \<circ> norm) (take k xs) @ rest"
        unfolding t step unfolding r by (simp only: k(1))
      then show ?thesis
        using k(2-5) Suc by (intro exI [of _ "Suc k"] exI [of _ rest]) (auto simp: lines)
    qed
  qed
qed

lemma line_unmarshals:
  assumes "encode_line enc x = Some l" "fits x"
  shows "unmarshal dec bad l = Inr (norm x)"
proof -
  obtain j where j: "enc x = Some j" "l = print_json j @ [NL]"
    using assms(1) by (auto simp: encode_line_def)
  show ?thesis
    using line_parses [OF j(1), of "[]" "[]"] dec_enc [OF j(1) assms(2)]
    by (simp add: unmarshal_def j(2) skip_space_def)
qed

end

end
