(* ===== verification/Json_Decode.thy ===== *)
theory Json_Decode
  imports Json_Codec Go_Float "HOL-Library.AList"
begin

text \<open>
  Decoding parsed JSON into Go variables, as \<open>encoding/json\<close> does for the types that the program
  uses: the members of an object in order, a key matched exactly or else case-folded, null
  ignored or clearing, unknown keys skipped, a value of the wrong type an error.
\<close>

text \<open>\<open>foldName\<close>: the smallest rune of the case orbit, for the orbits that hold an ASCII rune.\<close>

definition fold_rune :: "nat \<Rightarrow> nat" where
  "fold_rune r =
     (if 0x61 \<le> r \<and> r \<le> 0x7A then r - 0x20
      else if r = 0x17F then 0x53
      else if r = 0x212A then 0x4B
      else r)"

definition fold_name :: "gostring \<Rightarrow> nat list" where
  "fold_name s = map fold_rune (runes s)"

definition find_field :: "gostring list \<Rightarrow> gostring \<Rightarrow> gostring option" where
  "find_field names k = (if k \<in> set names then Some k else find (\<lambda>n. fold_name n = fold_name k) names)"

text \<open>A value for a Go variable that holds \<open>old\<close>.\<close>

fun dec_int :: "int \<Rightarrow> json \<Rightarrow> int option" where
  "dec_int old (JNumber lit) = parse_int64 lit"
| "dec_int old JNull = Some old"
| "dec_int old _ = None"

fun dec_string :: "gostring \<Rightarrow> json \<Rightarrow> gostring option" where
  "dec_string old (JString lit v) = Some v"
| "dec_string old JNull = Some old"
| "dec_string old _ = None"

fun dec_bool :: "bool \<Rightarrow> json \<Rightarrow> bool option" where
  "dec_bool old (JBool b) = Some b"
| "dec_bool old JNull = Some old"
| "dec_bool old _ = None"

fun dec_opt_int :: "int option \<Rightarrow> json \<Rightarrow> int option option" where
  "dec_opt_int old JNull = Some None"
| "dec_opt_int old j = map_option Some (dec_int 0 j)"

fun dec_float :: "float64 \<Rightarrow> json \<Rightarrow> float64 option" where
  "dec_float old (JNumber lit) = parse_float lit"
| "dec_float old JNull = Some old"
| "dec_float old _ = None"

text \<open>
  A slice keeps its backing array when the member occurs again: the elements of the new array
  are decoded over the old ones, also those beyond its length.
\<close>

fun dec_elements :: "gostring list \<Rightarrow> json list \<Rightarrow> gostring list option" where
  "dec_elements old [] = Some []"
| "dec_elements old (j # js) =
     (case dec_string (case old of [] \<Rightarrow> [] | o1 # _ \<Rightarrow> o1) j of
        None \<Rightarrow> None
      | Some s \<Rightarrow> map_option (Cons s) (dec_elements (tl old) js))"

fun dec_strings :: "gostring list \<Rightarrow> json \<Rightarrow> (gostring list \<times> gostring list) option" where
  "dec_strings backing (JArray js) =
     map_option (\<lambda>vs. (vs, if vs = [] then [] else vs @ drop (length vs) backing)) (dec_elements backing js)"
| "dec_strings backing JNull = Some ([], [])"
| "dec_strings backing _ = None"

text \<open>A map keeps its entries and takes the new ones.\<close>

fun dec_entries :: "(gostring \<times> gostring) list \<Rightarrow> (gostring \<times> json) list \<Rightarrow> (gostring \<times> gostring) list option" where
  "dec_entries m [] = Some m"
| "dec_entries m ((k, j) # ms) =
     (case dec_string [] j of
        None \<Rightarrow> None
      | Some s \<Rightarrow> dec_entries (AList.update k s m) ms)"

fun dec_map :: "(gostring \<times> gostring) list \<Rightarrow> json \<Rightarrow> (gostring \<times> gostring) list option" where
  "dec_map m (JObject ms) = dec_entries m ms"
| "dec_map m JNull = Some []"
| "dec_map m _ = None"

text \<open>The members of an object, for any struct: \<open>set_field\<close> stores a value in a known field.\<close>

fun dec_members ::
    "gostring list \<Rightarrow> (gostring \<Rightarrow> json \<Rightarrow> 's \<Rightarrow> 's option) \<Rightarrow> (gostring \<times> json) list \<Rightarrow> 's \<Rightarrow> 's option"
where
  "dec_members names set_field [] s = Some s"
| "dec_members names set_field ((k, j) # ms) s =
     (case find_field names k of
        None \<Rightarrow> dec_members names set_field ms s
      | Some f \<Rightarrow>
          (case set_field f j s of
             None \<Rightarrow> None
           | Some s' \<Rightarrow> dec_members names set_field ms s'))"

fun dec_struct ::
    "gostring list \<Rightarrow> (gostring \<Rightarrow> json \<Rightarrow> 's \<Rightarrow> 's option) \<Rightarrow> 's \<Rightarrow> json \<Rightarrow> 's option"
where
  "dec_struct names set_field s (JObject ms) = dec_members names set_field ms s"
| "dec_struct names set_field s JNull = Some s"
| "dec_struct names set_field s _ = None"

text \<open>
  Where the code ignores the error of \<open>Unmarshal\<close> the variable keeps what was decoded: a syntax
  error is found before anything is stored, a value of the wrong type is passed over.
\<close>

fun dec_members_lenient ::
    "gostring list \<Rightarrow> (gostring \<Rightarrow> json \<Rightarrow> 's \<Rightarrow> 's option) \<Rightarrow> (gostring \<times> json) list \<Rightarrow> 's \<Rightarrow> 's"
where
  "dec_members_lenient names set_field [] s = s"
| "dec_members_lenient names set_field ((k, j) # ms) s =
     dec_members_lenient names set_field ms
       (case find_field names k of
          None \<Rightarrow> s
        | Some f \<Rightarrow> (case set_field f j s of None \<Rightarrow> s | Some s' \<Rightarrow> s'))"

fun dec_struct_lenient ::
    "gostring list \<Rightarrow> (gostring \<Rightarrow> json \<Rightarrow> 's \<Rightarrow> 's option) \<Rightarrow> 's \<Rightarrow> json \<Rightarrow> 's"
where
  "dec_struct_lenient names set_field s (JObject ms) = dec_members_lenient names set_field ms s"
| "dec_struct_lenient names set_field s _ = s"

definition unmarshal_lenient :: "(json \<Rightarrow> 's) \<Rightarrow> 's \<Rightarrow> gostring \<Rightarrow> 's" where
  "unmarshal_lenient dec old s = (case unmarshal Some id s of Inl _ \<Rightarrow> old | Inr j \<Rightarrow> dec j)"

section \<open>Facts\<close>

definition int64 :: "int \<Rightarrow> bool" where
  "int64 i \<longleftrightarrow> - (2 ^ 63) \<le> i \<and> i < 2 ^ 63"

lemma parse_int64_format [simp]: "int64 i \<Longrightarrow> parse_int64 (format_int i) = Some i"
  by (simp add: int64_def parse_int64_format_int)

abbreviation norm_members :: "(gostring \<times> json) list \<Rightarrow> (gostring \<times> json) list" where
  "norm_members \<equiv> map (\<lambda>(k, v). (to_valid k, norm_json v))"

lemma dec_members_append:
  "dec_members names f (xs @ ys) s = Option.bind (dec_members names f xs s) (dec_members names f ys)"
  by (induction names f xs s rule: dec_members.induct) (auto split: option.splits)

lemma dec_member:
  "k \<in> set names \<Longrightarrow> is_ascii k \<Longrightarrow> f k (norm_json j) s = Some s' \<Longrightarrow>
     dec_members names f (norm_members [(k, j)]) s = Some s'"
  by (simp add: find_field_def)

lemma dec_elements_strs: "dec_elements [] (map json_str ss) = Some (map to_valid ss)"
  by (induction ss) simp_all

lemma dec_entries_strs:
  "dec_entries m (map (\<lambda>(k, v). (to_valid k, json_str v)) es)
     = Some (fold (\<lambda>(k, v). AList.update (to_valid k) (to_valid v)) es m)"
  by (induction es arbitrary: m) auto

end
