(* ===== verification/Discord_Sender.thy ===== *)
theory Discord_Sender
  imports Msg_Sender Protocol Json_Decode Go_Duration
begin

text \<open>
  \<open>internal/discord/sender.go\<close>: the sender that posts messages to Discord, with its retry
  loop and rate-limit window. Time is the field \<open>clock\<close>; sleeping and waiting for the network
  advance it. The network is the parameter \<open>env\<close>: \<open>env n\<close> is the latency and the outcome of
  the \<open>n\<close>-th request the sender ever makes. The record \<open>lib\<close> holds what the machine makes of a
  float that is out of the range of \<open>int64\<close>, and the check of \<open>http.NewRequest\<close>. \<open>posts\<close> and \<open>delivered\<close> are history variables: the requests made
  and the messages that a 2xx response confirmed.
\<close>

record http_response =
  hr_status :: int
  hr_status_line :: gostring
  hr_body :: gostring
  hr_remaining :: gostring     \<comment> \<open>X-RateLimit-Remaining\<close>
  hr_reset_after :: gostring   \<comment> \<open>X-RateLimit-Reset-After\<close>
  hr_retry_after :: gostring   \<comment> \<open>Retry-After\<close>

datatype http_outcome =
    TransportError gostring
  | BodyReadError gostring
  | Response http_response

type_synonym http_env = "nat \<Rightarrow> nat \<times> http_outcome"

record discord_lib =
  float_conv :: "float64 \<Rightarrow> int"
  request_error :: "gostring \<Rightarrow> gostring option"

record post =
  p_url :: gostring
  p_authorization :: gostring
  p_content :: gostring
  p_mentions :: "gostring list"
  p_flags :: int
  p_time :: time

record sender =
  bot_token :: gostring
  base_url :: gostring
  next_send :: time
  max_retries :: nat
  clock :: time
  posts :: "post list"
  delivered :: "(gostring \<times> gostring) list"

definition default_api_base_url :: gostring where
  "default_api_base_url = ''https://discord.com/api/v10''"

definition new_sender :: "gostring \<Rightarrow> gostring \<Rightarrow> time \<Rightarrow> gostring + sender" where
  "new_sender token url now =
     (let token = trim_space token in
      if token = [] then Inl ''Discord bot token is required''
      else
        (let url = trim_right_char CHR ''/'' (trim_space url);
             url = (if url = [] then default_api_base_url else url)
         in Inr \<lparr>bot_token = token, base_url = url, next_send = 0, max_retries = 6,
                 clock = now, posts = [], delivered = []\<rparr>))"

section \<open>Rate limits\<close>

definition duration_from_seconds :: "discord_lib \<Rightarrow> float64 \<Rightarrow> duration" where
  "duration_from_seconds lib f = float_to_int64 (float_conv lib) (float_mult f (Finite (of_int second)))"

definition update_rate_window :: "discord_lib \<Rightarrow> http_response \<Rightarrow> sender \<Rightarrow> sender" where
  "update_rate_window lib r s =
     (if hr_remaining r \<noteq> ''0'' then s
      else (case parse_float (hr_reset_after r) of
              None \<Rightarrow> s
            | Some x \<Rightarrow>
                if float_le_zero x then s
                else s\<lparr>next_send := clock s + duration_from_seconds lib x\<rparr>))"

definition parse_retry_after :: "discord_lib \<Rightarrow> gostring \<Rightarrow> duration" where
  "parse_retry_after lib raw =
     (case parse_float (trim_space raw) of
        None \<Rightarrow> 0
      | Some x \<Rightarrow> if float_le_zero x then 0 else duration_from_seconds lib x)"

text \<open>At most 16 KiB of a body are read.\<close>

definition read_body :: "http_response \<Rightarrow> gostring" where
  "read_body r = take 16384 (hr_body r)"

text \<open>The field \<open>RetryAfter\<close> after \<open>json.Unmarshal\<close>, whose error is ignored; the others are not used.\<close>

definition rate_limit_fields :: "gostring list" where
  "rate_limit_fields = [''message'', ''retry_after'', ''global'']"

definition set_rate_limit_field :: "gostring \<Rightarrow> json \<Rightarrow> float64 \<Rightarrow> float64 option" where
  "set_rate_limit_field f j x = (if f = ''retry_after'' then dec_float x j else Some x)"

definition unmarshal_retry_after :: "gostring \<Rightarrow> float64" where
  "unmarshal_retry_after =
     unmarshal_lenient (dec_struct_lenient rate_limit_fields set_rate_limit_field (Finite 0)) (Finite 0)"

definition retry_backoff :: "nat \<Rightarrow> duration" where
  "retry_backoff attempt =
     (let a = (if 5 < attempt then 5 else attempt) in 2 ^ a * 250 * millisecond)"

text \<open>The wait that a 429 response asks for.\<close>

definition rate_limit_wait :: "discord_lib \<Rightarrow> http_response \<Rightarrow> nat \<Rightarrow> duration" where
  "rate_limit_wait lib r attempt =
     (let wait = duration_from_seconds lib (unmarshal_retry_after (read_body r));
          header_wait = parse_retry_after lib (hr_retry_after r);
          wait = (if wait < header_wait then header_wait else wait)
      in if wait \<le> 0 then retry_backoff attempt else wait)"

section \<open>The retry loop\<close>

text \<open>\<open>time.Sleep(time.Until(s.nextSend))\<close>, if that is positive.\<close>

definition await_window :: "sender \<Rightarrow> sender" where
  "await_window s = s\<lparr>clock := max (clock s) (next_send s)\<rparr>"

definition sleep :: "duration \<Rightarrow> sender \<Rightarrow> sender" where
  "sleep d s = s\<lparr>clock := clock s + max 0 d\<rparr>"

definition request_url :: "sender \<Rightarrow> gostring \<Rightarrow> gostring" where
  "request_url s ch = base_url s @ ''/channels/'' @ ch @ ''/messages''"

text \<open>\<open>s.http.Do(req)\<close>: record the request, let its latency pass, return the outcome.\<close>

definition do_request :: "http_env \<Rightarrow> gostring \<Rightarrow> gostring \<Rightarrow> sender \<Rightarrow> sender \<times> http_outcome" where
  "do_request env ch content s =
     (let p = \<lparr>p_url = request_url s ch, p_authorization = ''Bot '' @ bot_token s,
               p_content = content, p_mentions = [], p_flags = 2 ^ 12, p_time = clock s\<rparr>;
          (latency, outcome) = env (length (posts s))
      in (s\<lparr>clock := clock s + int latency, posts := posts s @ [p]\<rparr>, outcome))"

text \<open>\<open>http.StatusText\<close>\<close>

definition status_text :: "int \<Rightarrow> gostring" where
  "status_text code = (case map_of
     [(100, ''Continue''), (101, ''Switching Protocols''), (102, ''Processing''), (103, ''Early Hints''),
      (200, ''OK''), (201, ''Created''), (202, ''Accepted''), (203, ''Non-Authoritative Information''),
      (204, ''No Content''), (205, ''Reset Content''), (206, ''Partial Content''), (207, ''Multi-Status''),
      (208, ''Already Reported''), (226, ''IM Used''), (300, ''Multiple Choices''), (301, ''Moved Permanently''),
      (302, ''Found''), (303, ''See Other''), (304, ''Not Modified''), (305, ''Use Proxy''),
      (307, ''Temporary Redirect''), (308, ''Permanent Redirect''), (400, ''Bad Request''), (401, ''Unauthorized''),
      (402, ''Payment Required''), (403, ''Forbidden''), (404, ''Not Found''), (405, ''Method Not Allowed''),
      (406, ''Not Acceptable''), (407, ''Proxy Authentication Required''), (408, ''Request Timeout''),
      (409, ''Conflict''), (410, ''Gone''), (411, ''Length Required''), (412, ''Precondition Failed''),
      (413, ''Request Entity Too Large''), (414, ''Request URI Too Long''), (415, ''Unsupported Media Type''),
      (416, ''Requested Range Not Satisfiable''), (417, ''Expectation Failed''), (418, ''I'' @ [SQUOTE] @ ''m a teapot''),
      (421, ''Misdirected Request''), (422, ''Unprocessable Entity''), (423, ''Locked''), (424, ''Failed Dependency''),
      (425, ''Too Early''), (426, ''Upgrade Required''), (428, ''Precondition Required''), (429, ''Too Many Requests''),
      (431, ''Request Header Fields Too Large''), (451, ''Unavailable For Legal Reasons''),
      (500, ''Internal Server Error''), (501, ''Not Implemented''), (502, ''Bad Gateway''),
      (503, ''Service Unavailable''), (504, ''Gateway Timeout''), (505, ''HTTP Version Not Supported''),
      (506, ''Variant Also Negotiates''), (507, ''Insufficient Storage''), (508, ''Loop Detected''),
      (510, ''Not Extended''), (511, ''Network Authentication Required'')] code of
     Some text \<Rightarrow> text | None \<Rightarrow> [])"

text \<open>One iteration of the loop: return from \<open>Send\<close>, or go on with this \<open>lastErr\<close>.\<close>

datatype attempt_result = Return "gostring option" | Again gostring

definition api_error :: "http_response \<Rightarrow> gostring" where
  "api_error r =
     (let message = trim_space (read_body r);
          message = (if message = [] then status_text (hr_status r) else message)
      in ''Discord API returned '' @ hr_status_line r @ '': '' @ message)"

definition attempt_once ::
    "discord_lib \<Rightarrow> http_env \<Rightarrow> gostring \<Rightarrow> gostring \<Rightarrow> nat \<Rightarrow> sender \<Rightarrow> sender \<times> attempt_result" where
  "attempt_once lib env ch content attempt s =
     (let s1 = await_window s in
      case request_error lib (request_url s1 ch) of
        Some e \<Rightarrow> (s1, Return (Some e))
      | None \<Rightarrow>
          (case do_request env ch content s1 of
             (s2, TransportError e) \<Rightarrow>
               if attempt = max_retries s then (s2, Return (Some e))
               else (sleep (retry_backoff attempt) s2, Again e)
           | (s2, BodyReadError e) \<Rightarrow> (s2, Return (Some e))
           | (s2, Response r) \<Rightarrow>
               (let s3 = update_rate_window lib r s2 in
                if 200 \<le> hr_status r \<and> hr_status r < 300
                then (s3\<lparr>delivered := delivered s3 @ [(ch, content)]\<rparr>, Return None)
                else if hr_status r = 429
                then (let wait = rate_limit_wait lib r attempt
                      in (s3\<lparr>next_send := clock s3 + wait\<rparr>,
                          Again (''Discord rate limited request for '' @ duration_string wait)))
                else if hr_status r < 500 \<or> attempt = max_retries s
                then (s3, Return (Some (api_error r)))
                else (sleep (retry_backoff attempt) s3, Again (api_error r)))))"

text \<open>\<open>for attempt := 0; attempt <= s.maxRetries; attempt++\<close>, with the iterations left.\<close>

fun send_loop ::
    "discord_lib \<Rightarrow> http_env \<Rightarrow> gostring \<Rightarrow> gostring \<Rightarrow> nat \<Rightarrow> nat \<Rightarrow> gostring option \<Rightarrow> sender
      \<Rightarrow> sender \<times> gostring option" where
  "send_loop lib env ch content attempt 0 last_err s = (s, last_err)"
| "send_loop lib env ch content attempt (Suc left) last_err s =
     (case attempt_once lib env ch content attempt s of
        (s', Return r) \<Rightarrow> (s', r)
      | (s', Again e) \<Rightarrow> send_loop lib env ch content (Suc attempt) left (Some e) s')"

definition discord_send :: "discord_lib \<Rightarrow> http_env \<Rightarrow> sender send" where
  "discord_send lib env s ch content =
     (let ch = trim_space ch in
      if ch = [] then (s, Some ''Discord channel ID is required'')
      else if content = [] then (s, None)
      else send_loop lib env ch content 0 (max_retries s + 1) None s)"

section \<open>Facts\<close>

lemmas sender_steps = await_window_def sleep_def do_request_def update_rate_window_def

text \<open>What one attempt does, by its outcome.\<close>

definition succeeds :: "http_outcome \<Rightarrow> bool" where
  "succeeds out = (case out of Response r \<Rightarrow> 200 \<le> hr_status r \<and> hr_status r < 300 | _ \<Rightarrow> False)"

definition retryable :: "http_outcome \<Rightarrow> bool" where
  "retryable out =
     (case out of
        TransportError _ \<Rightarrow> True
      | BodyReadError _ \<Rightarrow> False
      | Response r \<Rightarrow> hr_status r = 429 \<or> 500 \<le> hr_status r)"

lemma sleep_frame [simp]:
  "max_retries (sleep d s) = max_retries s" "base_url (sleep d s) = base_url s"
  "delivered (sleep d s) = delivered s" "posts (sleep d s) = posts s"
  "next_send (sleep d s) = next_send s" "clock s \<le> clock (sleep d s)"
  by (simp_all add: sleep_def)

lemma await_window_frame [simp]:
  "max_retries (await_window s) = max_retries s" "base_url (await_window s) = base_url s"
  "delivered (await_window s) = delivered s" "posts (await_window s) = posts s"
  "next_send (await_window s) = next_send s" "clock (await_window s) = max (clock s) (next_send s)"
  by (simp_all add: await_window_def)

lemma update_rate_window_frame [simp]:
  "max_retries (update_rate_window lib r s) = max_retries s"
  "base_url (update_rate_window lib r s) = base_url s"
  "delivered (update_rate_window lib r s) = delivered s"
  "posts (update_rate_window lib r s) = posts s"
  "clock (update_rate_window lib r s) = clock s"
  by (simp_all add: update_rate_window_def split: option.split)

lemma do_request_frame:
  "do_request env ch content s = (s', out) \<Longrightarrow>
     max_retries s' = max_retries s \<and> base_url s' = base_url s \<and> delivered s' = delivered s
     \<and> next_send s' = next_send s \<and> clock s \<le> clock s' \<and> snd (env (length (posts s))) = out
     \<and> (\<exists>p. posts s' = posts s @ [p] \<and> p_time p = clock s)"
  by (auto simp: do_request_def Let_def split: prod.splits)

lemma request_url_await [simp]: "request_url (await_window s) ch = request_url s ch"
  by (simp add: request_url_def)

text \<open>The ways one attempt can go.\<close>

lemma attempt_cases:
  assumes "attempt_once lib env ch content attempt s = (s', res)"
  obtains (invalid) e where "request_error lib (request_url s ch) = Some e"
      "s' = await_window s" "res = Return (Some e)"
  | (transport_last) s2 e where "do_request env ch content (await_window s) = (s2, TransportError e)"
      "attempt = max_retries s" "s' = s2" "res = Return (Some e)"
  | (transport) s2 e where "do_request env ch content (await_window s) = (s2, TransportError e)"
      "attempt \<noteq> max_retries s" "s' = sleep (retry_backoff attempt) s2" "res = Again e"
  | (unreadable) s2 e where "do_request env ch content (await_window s) = (s2, BodyReadError e)"
      "s' = s2" "res = Return (Some e)"
  | (ok) s2 r where "do_request env ch content (await_window s) = (s2, Response r)"
      "200 \<le> hr_status r" "hr_status r < 300" "res = Return None"
      "s' = (update_rate_window lib r s2)\<lparr>delivered := delivered s2 @ [(ch, content)]\<rparr>"
  | (limited) s2 r where "do_request env ch content (await_window s) = (s2, Response r)"
      "hr_status r = 429"
      "s' = (update_rate_window lib r s2)\<lparr>next_send := clock s2 + rate_limit_wait lib r attempt\<rparr>"
      "res = Again (''Discord rate limited request for '' @ duration_string (rate_limit_wait lib r attempt))"
  | (refused) s2 r where "do_request env ch content (await_window s) = (s2, Response r)"
      "hr_status r < 200 \<or> 300 \<le> hr_status r" "hr_status r \<noteq> 429"
      "hr_status r < 500 \<or> attempt = max_retries s"
      "s' = update_rate_window lib r s2" "res = Return (Some (api_error r))"
  | (server) s2 r where "do_request env ch content (await_window s) = (s2, Response r)"
      "500 \<le> hr_status r" "attempt \<noteq> max_retries s"
      "s' = sleep (retry_backoff attempt) (update_rate_window lib r s2)" "res = Again (api_error r)"
proof (cases "request_error lib (request_url s ch)")
  case (Some e)
  with assms show thesis by (intro invalid) (auto simp: attempt_once_def Let_def)
next
  case None
  obtain s2 out where d: "do_request env ch content (await_window s) = (s2, out)"
    by (cases "do_request env ch content (await_window s)")
  note a = assms [unfolded attempt_once_def Let_def request_url_await None d option.case prod.case]
  show thesis
  proof (cases out)
    case (TransportError e)
    with a d show thesis by (cases "attempt = max_retries s") (simp_all add: transport_last transport)
  next
    case (BodyReadError e)
    with a d show thesis by (simp add: unreadable)
  next
    case (Response r)
    note a = a [unfolded Response http_outcome.case] and d = d [unfolded Response]
    consider "200 \<le> hr_status r \<and> hr_status r < 300" | "hr_status r = 429"
      | "hr_status r < 200 \<or> 300 \<le> hr_status r" "hr_status r \<noteq> 429" "hr_status r < 500 \<or> attempt = max_retries s"
      | "500 \<le> hr_status r" "attempt \<noteq> max_retries s"
      by linarith
    then show thesis
    proof cases
      case 1 with a show thesis by (intro ok [OF d]) simp_all
    next
      case 2 with a show thesis by (intro limited [OF d]) simp_all
    next
      case 3
      then have "\<not> (200 \<le> hr_status r \<and> hr_status r < 300)" by linarith
      with a 3 show thesis by (intro refused [OF d]) simp_all
    next
      case 4 with a show thesis by (intro server [OF d]) simp_all
    qed
  qed
qed

lemma attempt_frame:
  assumes "attempt_once lib env ch content attempt s = (s', r)"
  shows "max_retries s' = max_retries s" "base_url s' = base_url s"
    "r \<noteq> Return None \<Longrightarrow> delivered s' = delivered s"
    "r = Return None \<Longrightarrow> delivered s' = delivered s @ [(ch, content)]"
    "length (posts s') \<le> Suc (length (posts s))" "prefix (posts s) (posts s')"
  using assms by (cases rule: attempt_cases; force dest: do_request_frame)+

lemma attempt_progress:
  assumes "attempt_once lib env ch content attempt s = (s', r)"
    "request_error lib (request_url s ch) = None"
  shows "length (posts s') = Suc (length (posts s))"
    "succeeds (snd (env (length (posts s)))) \<longleftrightarrow> r = Return None"
    "r = Again e \<Longrightarrow> retryable (snd (env (length (posts s))))"
    "retryable (snd (env (length (posts s)))) \<Longrightarrow> attempt < max_retries s \<Longrightarrow> \<exists>e. r = Again e"
  using assms
  by (cases rule: attempt_cases; force dest: do_request_frame simp: succeeds_def retryable_def)+

text \<open>
  The loop succeeds exactly when some remaining attempt succeeds and everything before it is
  worth a retry.
\<close>

lemma send_loop_None_iff:
  assumes "request_error lib (request_url s ch) = None"
    "attempt + left = Suc (max_retries s)" "left = 0 \<longrightarrow> last_err \<noteq> None"
  shows "snd (send_loop lib env ch content attempt left last_err s) = None \<longleftrightarrow>
     (\<exists>i < left. succeeds (snd (env (length (posts s) + i)))
          \<and> (\<forall>j < i. retryable (snd (env (length (posts s) + j)))))"
  using assms
proof (induction left arbitrary: attempt last_err s)
  case (Suc left)
  let ?n = "length (posts s)"
  obtain s1 r where a: "attempt_once lib env ch content attempt s = (s1, r)"
    by (cases "attempt_once lib env ch content attempt s")
  note f = attempt_frame [OF a] and p = attempt_progress [OF a Suc.prems(1)]
  have split_ex: "(\<exists>i < Suc left. succeeds (snd (env (?n + i))) \<and> (\<forall>j < i. retryable (snd (env (?n + j)))))
     \<longleftrightarrow> succeeds (snd (env ?n)) \<or> (retryable (snd (env ?n))
        \<and> (\<exists>i < left. succeeds (snd (env (Suc ?n + i))) \<and> (\<forall>j < i. retryable (snd (env (Suc ?n + j))))))"
    by (auto simp: Ex_less_Suc2 All_less_Suc2)
  show ?case
  proof (cases r)
    case (Return res)
    have "succeeds (snd (env ?n)) \<longleftrightarrow> res = None" using p(2) Return by simp
    moreover have "left = 0" if "retryable (snd (env ?n))"
      using p(4) [OF that] Return Suc.prems(2) by (cases "attempt < max_retries s") auto
    ultimately show ?thesis unfolding split_ex using a Return by auto
  next
    case (Again e)
    have "request_url s1 ch = request_url s ch" using f(2) by (simp add: request_url_def)
    then have "snd (send_loop lib env ch content (Suc attempt) left (Some e) s1) = None \<longleftrightarrow>
       (\<exists>i < left. succeeds (snd (env (Suc ?n + i))) \<and> (\<forall>j < i. retryable (snd (env (Suc ?n + j)))))"
      using Suc.IH [of s1 "Suc attempt" "Some e"] Suc.prems f(1) p(1) by simp
    then show ?thesis unfolding split_ex using a Again p(2,3) by auto
  qed
qed auto

lemma send_loop_frame:
  assumes "send_loop lib env ch content attempt left last_err s = (s', r)"
    "left = 0 \<longrightarrow> last_err \<noteq> None"
  shows "max_retries s' = max_retries s" "base_url s' = base_url s"
    "delivered s' = (if r = None then delivered s @ [(ch, content)] else delivered s)"
    "length (posts s') \<le> left + length (posts s)" "prefix (posts s) (posts s')"
proof -
  have "max_retries s' = max_retries s \<and> base_url s' = base_url s
    \<and> delivered s' = (if r = None then delivered s @ [(ch, content)] else delivered s)
    \<and> length (posts s') \<le> left + length (posts s) \<and> prefix (posts s) (posts s')"
    using assms
  proof (induction left arbitrary: attempt last_err s)
    case (Suc left)
    obtain s1 q where a: "attempt_once lib env ch content attempt s = (s1, q)"
      by (cases "attempt_once lib env ch content attempt s")
    note f = attempt_frame [OF a]
    show ?case
    proof (cases q)
      case (Return res)
      with a Suc.prems have "s' = s1" "r = res" by auto
      with f Return show ?thesis by auto
    next
      case (Again e)
      with a Suc.prems have "send_loop lib env ch content (Suc attempt) left (Some e) s1 = (s', r)"
        by simp
      moreover have "left = 0 \<longrightarrow> Some e \<noteq> None" by simp
      ultimately have IH: "max_retries s' = max_retries s1 \<and> base_url s' = base_url s1
        \<and> delivered s' = (if r = None then delivered s1 @ [(ch, content)] else delivered s1)
        \<and> length (posts s') \<le> left + length (posts s1) \<and> prefix (posts s1) (posts s')"
        by (rule Suc.IH)
      have "prefix (posts s) (posts s')" using IH f(6) by (blast intro: prefix_order.trans)
      moreover have "length (posts s') \<le> Suc left + length (posts s)" using IH f(5) by linarith
      ultimately show ?thesis using IH f(1-3) Again by simp
    qed
  qed auto
  then show "max_retries s' = max_retries s" "base_url s' = base_url s"
    "delivered s' = (if r = None then delivered s @ [(ch, content)] else delivered s)"
    "length (posts s') \<le> left + length (posts s)" "prefix (posts s) (posts s')"
    by - (elim conjE, assumption)+
qed

lemma discord_send_frame:
  assumes "discord_send lib env s ch content = (s', r)"
  shows "delivered s' =
      (if r = None \<and> content \<noteq> [] then delivered s @ [(trim_space ch, content)] else delivered s)"
    "length (posts s') \<le> Suc (max_retries s) + length (posts s)" "prefix (posts s) (posts s')"
    "max_retries s' = max_retries s"
proof -
  have "delivered s' =
      (if r = None \<and> content \<noteq> [] then delivered s @ [(trim_space ch, content)] else delivered s)
    \<and> length (posts s') \<le> Suc (max_retries s) + length (posts s) \<and> prefix (posts s) (posts s')
    \<and> max_retries s' = max_retries s"
  proof (cases "trim_space ch = [] \<or> content = []")
    case True
    with assms show ?thesis by (auto simp: discord_send_def Let_def split: if_splits)
  next
    case False
    with assms have "send_loop lib env (trim_space ch) content 0 (max_retries s + 1) None s = (s', r)"
      by (simp add: discord_send_def Let_def del: send_loop.simps)
    note f = send_loop_frame [OF this, simplified]
    show ?thesis using f False by simp
  qed
  then show "delivered s' =
      (if r = None \<and> content \<noteq> [] then delivered s @ [(trim_space ch, content)] else delivered s)"
    "length (posts s') \<le> Suc (max_retries s) + length (posts s)" "prefix (posts s) (posts s')"
    "max_retries s' = max_retries s"
    by - (elim conjE, assumption)+
qed

section \<open>The sender provides the interface of the daemon\<close>

interpretation ds: message_sender "discord_send lib env" delivered
  by unfold_locales (auto dest: discord_send_frame(1))

section \<open>Timing\<close>

lemma retry_backoff_bounds: "250 * millisecond \<le> retry_backoff a" "retry_backoff a \<le> 8 * second"
proof -
  define k where "k = (if 5 < a then 5 else a)"
  have "(1::int) \<le> 2 ^ k" by simp
  moreover have "(2::int) ^ k \<le> 2 ^ 5" by (rule power_increasing) (simp_all add: k_def)
  ultimately show "250 * millisecond \<le> retry_backoff a" "retry_backoff a \<le> 8 * second"
    by (simp_all add: retry_backoff_def k_def [symmetric] Let_def)
qed

lemma retry_backoff_mono: "a \<le> b \<Longrightarrow> retry_backoff a \<le> retry_backoff b"
proof -
  assume ab: "a \<le> b"
  have "(2::int) ^ (if 5 < a then 5 else a) \<le> 2 ^ (if 5 < b then 5 else b)"
    by (rule power_increasing) (use ab in auto)
  then show ?thesis by (simp add: retry_backoff_def Let_def)
qed

lemma rate_limit_wait_pos: "0 < rate_limit_wait lib r attempt"
  using retry_backoff_bounds(1) [of attempt] by (simp add: rate_limit_wait_def Let_def)

lemma rate_limit_wait_ge:
  "parse_retry_after lib (hr_retry_after r) \<le> rate_limit_wait lib r attempt"
  "duration_from_seconds lib (unmarshal_retry_after (read_body r)) \<le> rate_limit_wait lib r attempt"
  using retry_backoff_bounds(1) [of attempt] by (auto simp: rate_limit_wait_def Let_def)

text \<open>
  The number of seconds that a reply asks for, in its header or in its body, as an exact number,
  and a bound on the wait: two roundings and a truncation to nanoseconds.
\<close>

definition asks_to_wait :: "http_response \<Rightarrow> rat \<Rightarrow> bool" where
  "asks_to_wait r x \<longleftrightarrow>
     number_of_text (trim_space (hr_retry_after r)) = Some x
     \<or> (\<exists>ms k lit. unmarshal Some id (read_body r) = Inr (JObject ms)
          \<and> filter (\<lambda>(k, j). find_field rate_limit_fields k = Some ''retry_after'') ms = [(k, JNumber lit)]
          \<and> number_of_text lit = Some x)"

lemma retry_after_member:
  "filter (\<lambda>(k, j). find_field rate_limit_fields k = Some ''retry_after'') ms = js \<Longrightarrow>
     dec_members_lenient rate_limit_fields set_rate_limit_field ms x
     = foldl (\<lambda>x (k, j). case dec_float x j of None \<Rightarrow> x | Some x' \<Rightarrow> x') x js"
proof (induction ms arbitrary: js x)
  case (Cons m ms)
  obtain k j where m: "m = (k, j)" by (cases m)
  show ?case
  proof (cases "find_field rate_limit_fields k = Some ''retry_after''")
    case True
    with Cons show ?thesis by (auto simp: m set_rate_limit_field_def)
  next
    case False
    with Cons show ?thesis by (auto simp: m set_rate_limit_field_def split: option.split)
  qed
qed simp

lemma asked_wait_is_kept:
  assumes "asks_to_wait r x" "2 powi (- 1022) \<le> x" "x \<le> 9 * 10 ^ 9"
  shows "\<lfloor>x * 10 ^ 9 * (1 - 1 / 2 ^ 52)\<rfloor> \<le> rate_limit_wait lib r attempt"
proof -
  obtain v where v: "round64 x = Finite v" "0 < v"
    "\<lfloor>x * 10 ^ 9 * (1 - 1 / 2 ^ 52)\<rfloor> \<le> float_to_int64 (float_conv lib) (float_mult (Finite v) (Finite (10 ^ 9)))"
    using read_and_scaled [OF assms(2), of "10 ^ 9"] assms(3) by auto
  then have d: "\<lfloor>x * 10 ^ 9 * (1 - 1 / 2 ^ 52)\<rfloor> \<le> duration_from_seconds lib (Finite v)"
    by (simp add: duration_from_seconds_def)
  note float = parse_float_number [OF _ v(1)]
  from assms(1) show ?thesis unfolding asks_to_wait_def
  proof (elim disjE exE conjE)
    assume "number_of_text (trim_space (hr_retry_after r)) = Some x"
    then have "parse_retry_after lib (hr_retry_after r) = duration_from_seconds lib (Finite v)"
      using float v(2) by (simp add: parse_retry_after_def)
    with d rate_limit_wait_ge(1) [of lib r attempt] show ?thesis by linarith
  next
    fix ms k lit
    assume "unmarshal Some id (read_body r) = Inr (JObject ms)" "number_of_text lit = Some x"
      and f: "filter (\<lambda>(k, j). find_field rate_limit_fields k = Some ''retry_after'') ms = [(k, JNumber lit)]"
    then have "unmarshal_retry_after (read_body r) = Finite v"
      using float retry_after_member [OF f, of "Finite 0"]
      by (simp add: unmarshal_retry_after_def unmarshal_lenient_def)
    with d rate_limit_wait_ge(2) [of lib r attempt] show ?thesis by simp
  qed
qed

text \<open>
  The window is honoured: no request of a \<open>Send\<close> is made before the window that was open when it
  was called, and windows only move on. What a machine makes of a float out of range may be a
  time in the past, so this holds where the replies name durations that are not negative.
\<close>

definition durations_ok :: "discord_lib \<Rightarrow> http_env \<Rightarrow> bool" where
  "durations_ok lib env \<longleftrightarrow>
     (\<forall>n r x. snd (env n) = Response r \<longrightarrow> parse_float (hr_reset_after r) = Some x \<longrightarrow> \<not> float_le_zero x
        \<longrightarrow> 0 \<le> duration_from_seconds lib x)"

definition posts_after :: "time \<Rightarrow> sender \<Rightarrow> sender \<Rightarrow> bool" where
  "posts_after t s s' \<longleftrightarrow>
     (\<exists>ps. posts s' = posts s @ ps \<and> (\<forall>p \<in> set ps. t \<le> p_time p)) \<and> t \<le> next_send s'"

lemma update_rate_window_mono:
  "durations_ok lib env \<Longrightarrow> snd (env n) = Response r \<Longrightarrow> next_send s \<le> clock s
    \<Longrightarrow> next_send s \<le> next_send (update_rate_window lib r s)"
  by (auto simp: update_rate_window_def durations_ok_def intro: add_increasing2 split: option.split)

lemma attempt_window:
  assumes "attempt_once lib env ch content attempt s = (s', res)" "durations_ok lib env"
  shows "posts_after (next_send s) s s'"
  using assms(1)
proof (cases rule: attempt_cases)
  case (limited s2 r)
  from do_request_frame [OF limited(1)] show ?thesis
    using rate_limit_wait_pos [of lib r attempt] limited(3) by (auto simp: posts_after_def)
next
  case (ok s2 r)
  from do_request_frame [OF ok(1)] show ?thesis
    using update_rate_window_mono [OF assms(2), of _ r s2] ok(5) by (auto simp: posts_after_def)
next
  case (refused s2 r)
  from do_request_frame [OF refused(1)] show ?thesis
    using update_rate_window_mono [OF assms(2), of _ r s2] refused(5) by (auto simp: posts_after_def)
next
  case (server s2 r)
  from do_request_frame [OF server(1)] show ?thesis
    using update_rate_window_mono [OF assms(2), of _ r s2] server(4) by (auto simp: posts_after_def)
qed (auto simp: posts_after_def dest: do_request_frame)

lemma posts_after_trans:
  "posts_after t s s1 \<Longrightarrow> posts_after t' s1 s2 \<Longrightarrow> t \<le> t' \<Longrightarrow> posts_after t s s2"
  by (fastforce simp: posts_after_def)

lemma posts_after_next: "posts_after t s s1 \<Longrightarrow> t \<le> next_send s1"
  by (simp add: posts_after_def)

lemma send_loop_window:
  "send_loop lib env ch content attempt left last_err s = (s', r) \<Longrightarrow> durations_ok lib env \<Longrightarrow>
     posts_after (next_send s) s s'"
proof (induction left arbitrary: attempt last_err s)
  case (Suc left)
  obtain s1 q where a: "attempt_once lib env ch content attempt s = (s1, q)"
    by (cases "attempt_once lib env ch content attempt s")
  note w = attempt_window [OF a Suc.prems(2)]
  show ?case
  proof (cases q)
    case (Again e)
    with a Suc.prems have "send_loop lib env ch content (Suc attempt) left (Some e) s1 = (s', r)" by simp
    then have "posts_after (next_send s1) s1 s'" using Suc.IH Suc.prems(2) by blast
    with w show ?thesis by (blast intro: posts_after_trans posts_after_next)
  qed (use a w Suc.prems in auto)
qed (simp add: posts_after_def)

section \<open>Properties\<close>

text \<open>An instance of the library parameters (the conversion of amd64) and two networks, for the examples.\<close>

definition sample_lib :: discord_lib where
  "sample_lib = \<lparr>float_conv = (\<lambda>_. - (2 ^ 63)), request_error = (\<lambda>_. None)\<rparr>"

definition sample_sender :: sender where
  "sample_sender =
     \<lparr>bot_token = ''token'', base_url = default_api_base_url, next_send = 7, max_retries = 6,
      clock = 5, posts = [], delivered = []\<rparr>"

definition reply_status :: "int \<Rightarrow> http_response" where
  "reply_status st =
     \<lparr>hr_status = st, hr_status_line = [], hr_body = [], hr_remaining = ''0'', hr_reset_after = ''1'',
      hr_retry_after = ''2''\<rparr>"

definition ok_env :: http_env where
  "ok_env n = (0, Response (reply_status 200))"

definition limited_env :: http_env where
  "limited_env n = (0, Response (reply_status (if n = 0 then 429 else 200)))"

lemma parse_small_numbers: "parse_float ''1'' = Some (Finite 1)" "parse_float ''2'' = Some (Finite 2)"
  by code_simp+

lemma seconds_of_int: "\<bar>n * 10 ^ 9\<bar> \<le> 2 ^ 53 \<Longrightarrow> duration_from_seconds lib (Finite (of_int n)) = n * second"
proof -
  assume n: "\<bar>n * 10 ^ 9\<bar> \<le> 2 ^ 53"
  then have "- (2 ^ 63) \<le> n * second" "n * second < 2 ^ 63" by (simp_all add: abs_le_iff)
  moreover have "round64 (of_int n * of_int second) = Finite (of_int (n * second))"
    using round64_int [of "n * second"] n by simp
  ultimately show ?thesis
    by (simp add: duration_from_seconds_def float_to_int64_def rat_trunc_def del: of_int_mult)
qed

lemma sample_durations_ok: "durations_ok sample_lib ok_env" "durations_ok sample_lib limited_env"
  using seconds_of_int [of 1 sample_lib]
  by (auto simp: durations_ok_def ok_env_def limited_env_def reply_status_def parse_small_numbers)

text \<open>C10: \<open>Send\<close> succeeds exactly when one of the \<open>maxRetries + 1\<close> next replies of the network
  is a success (2xx) and every reply before it is worth a retry (no reply, 429 or 5xx).\<close>

theorem discord_send_succeeds_iff:
  assumes "trim_space ch \<noteq> []" "content \<noteq> []" "request_error lib (request_url s (trim_space ch)) = None"
  shows "snd (discord_send lib env s ch content) = None \<longleftrightarrow>
     (\<exists>i < Suc (max_retries s). succeeds (snd (env (length (posts s) + i)))
        \<and> (\<forall>j < i. retryable (snd (env (length (posts s) + j)))))"
proof -
  have "snd (send_loop lib env (trim_space ch) content 0 (Suc (max_retries s)) None s) = None \<longleftrightarrow>
     (\<exists>i < Suc (max_retries s). succeeds (snd (env (length (posts s) + i)))
        \<and> (\<forall>j < i. retryable (snd (env (length (posts s) + j)))))"
    by (rule send_loop_None_iff [OF assms(3)]) simp_all
  then show ?thesis using assms(1,2) by (simp add: discord_send_def Let_def del: send_loop.simps)
qed

lemma discord_send_succeeds_iff_witness:
  "snd (discord_send sample_lib limited_env sample_sender ''123'' ''hi'') = None"
proof -
  have "trim_space ''123'' = ''123''" by (rule trim_space_all_graphic) (simp add: graphic_def)
  then show ?thesis
    using discord_send_succeeds_iff [of "''123''" "''hi''" sample_lib sample_sender limited_env]
    by (auto simp: sample_lib_def sample_sender_def succeeds_def retryable_def limited_env_def
        reply_status_def intro: exI [of _ 1])
qed




text \<open>An open rate-limit window holds across calls: \<open>Send\<close> makes no request before the window
  that earlier replies left, and never moves the window back.\<close>

lemma discord_send_keeps_window:
  assumes "durations_ok lib env"
  shows "posts_after (next_send s) s (fst (discord_send lib env s ch content))"
proof -
  obtain s' r where l: "send_loop lib env (trim_space ch) content 0 (max_retries s + 1) None s = (s', r)"
    by (cases "send_loop lib env (trim_space ch) content 0 (max_retries s + 1) None s")
  have "posts_after (next_send s) s s" by (simp add: posts_after_def)
  then show ?thesis
    using send_loop_window [OF l assms] l by (simp add: discord_send_def Let_def del: send_loop.simps)
qed

lemma discord_send_keeps_window_witness:
  "posts_after 7 sample_sender (fst (discord_send sample_lib ok_env sample_sender ''123'' ''hi''))"
  using discord_send_keeps_window [OF sample_durations_ok(1), of sample_sender "''123''" "''hi''"]
  by (simp add: sample_sender_def)

end
