(* ===== verification/Daemon_Server.thy ===== *)
theory Daemon_Server
  imports Daemon_Config Discord_Sender
begin

text \<open>
  The handler of \<open>POST /v1/runs/stream\<close> in \<open>internal/daemon/server.go\<close>, composed with the
  batcher and a message sender. The request body reaches the handler as the outcomes of
  \<open>decoder.Decode\<close>: an event or the text of an error (malformed JSON, the size limit of
  \<open>MaxBytesReader\<close>, a broken connection); the end of the list is \<open>io.EOF\<close>; \<open>Daemon_Body\<close> makes
  them from the bytes of the body. Each outcome
  comes with the actions that the batcher's goroutine performs before it, so a request is
  one input together with one interleaving, and theorems about all requests are about all
  interleavings. Parameters: the hash \<open>sha256\<close> and the quoting of the verb \<open>%q\<close>.
\<close>

datatype background = Receive | TickFires

fun background_op :: "background \<Rightarrow> batcher_op" where
  "background_op Receive = Recv"
| "background_op TickFires = Tick"

type_synonym decoded = "gostring + event"

record request =
  rq_authorization :: gostring
  rq_start :: "decoded option"                       \<comment> \<open>\<open>None\<close>: end of the body\<close>
  rq_items :: "(background list \<times> decoded) list"
  rq_at_eof :: "background list"                     \<comment> \<open>between the last outcome and \<open>Close\<close>\<close>
  rq_closing :: "background list"                    \<comment> \<open>while \<open>Close\<close> waits\<close>

type_synonym reply = "int \<times> stream_response"

definition max_output_event_data_bytes :: nat where
  "max_output_event_data_bytes = 64 * 1024"

definition truncation_notice :: gostring where
  "truncation_notice = [NL] @ ''[output event truncated by daemon]'' @ [NL]"

definition authorized :: "(gostring \<Rightarrow> gostring) \<Rightarrow> config \<Rightarrow> gostring \<Rightarrow> bool" where
  "authorized sha256 cfg header =
     (if \<not> has_prefix header ''Bearer '' then False
      else sha256 (trim_space (trim_prefix header ''Bearer '')) = sha256 (shared_token cfg))"

definition send_long :: "'w send \<Rightarrow> 'w \<Rightarrow> gostring \<Rightarrow> gostring \<Rightarrow> 'w \<times> gostring option" where
  "send_long send w channel content = send_parts send w channel (split_utf8 content 1900)"

definition batcher_config_for :: "config \<Rightarrow> event \<Rightarrow> batcher_config" where
  "batcher_config_for cfg start =
     \<lparr>bc_channel_id = ev_channel_id start, bc_run_id = ev_run_id start,
      bc_max_log = max_log_chunk_bytes cfg, bc_strip = strip_ansi_output cfg,
      bc_queue_size = nat (queue_size cfg)\<rparr>"

definition event_data :: "event \<Rightarrow> gostring" where
  "event_data e =
     (if max_output_event_data_bytes < length (ev_data e)
      then take max_output_event_data_bytes (ev_data e) @ truncation_notice
      else ev_data e)"

text \<open>How the read loop ends: with the exit event seen last, and the stream error if any.\<close>

fun stream_loop ::
    "(gostring \<Rightarrow> gostring) \<Rightarrow> batcher_config \<Rightarrow> 'w send \<Rightarrow> event \<Rightarrow> (background list \<times> decoded) list
      \<Rightarrow> background list \<Rightarrow> event option \<Rightarrow> batcher \<times> 'w
      \<Rightarrow> (batcher \<times> 'w) \<times> event option \<times> gostring option" where
  "stream_loop quote bcfg send start [] at_eof exit s =
     (batcher_run bcfg send (map background_op at_eof) s, exit, None)"
| "stream_loop quote bcfg send start ((bg, item) # items) at_eof exit s =
     (let s1 = batcher_run bcfg send (map background_op bg) s in
      case item of
        Inl err \<Rightarrow> (s1, exit, Some err)
      | Inr e \<Rightarrow>
          if ev_version e \<noteq> protocol_version \<or> ev_run_id e \<noteq> ev_run_id start
          then (s1, exit, Some ''event version or run ID mismatch'')
          else if ev_type e = event_output
          then stream_loop quote bcfg send start items at_eof exit
                 (batcher_step bcfg send (Add (ev_stream e) (event_data e)) s1)
          else if ev_type e = event_exit
          then stream_loop quote bcfg send start items at_eof (Some e) s1
          else (s1, exit, Some (''unsupported event type '' @ quote (ev_type e))))"

definition warning_sign :: gostring where
  "warning_sign = [CHR 0xE2, CHR 0x9A, CHR 0xA0, CHR 0xEF, CHR 0xB8, CHR 0x8F]"

definition interrupted_message :: "event \<Rightarrow> gostring \<Rightarrow> gostring" where
  "interrupted_message start err =
     warning_sign @ '' **Run relay interrupted**'' @ [NL]
       @ code_line ''Run: '' (short_run_id (ev_run_id start)) @ [NL]
       @ code_line ''Reason: '' (inline_code err)"

definition no_exit_message :: "event \<Rightarrow> gostring" where
  "no_exit_message start =
     warning_sign @ '' **Run connection closed without an exit event**'' @ [NL]
       @ code_line ''Run: '' (short_run_id (ev_run_id start))"

definition reject :: "gostring \<Rightarrow> gostring \<Rightarrow> stream_response" where
  "reject run_id err = zero_response\<lparr>rs_run_id := run_id, rs_error := err\<rparr>"

text \<open>From \<open>streamDone\<close> on.\<close>

definition finish_stream ::
    "batcher_config \<Rightarrow> 'w send \<Rightarrow> event \<Rightarrow> background list \<Rightarrow> batcher \<times> 'w \<Rightarrow> event option
      \<Rightarrow> gostring option \<Rightarrow> 'w \<times> reply" where
  "finish_stream bcfg send start closing s exit stream_err =
     (case close_batcher bcfg send (map background_op closing) s of
        (b, w) \<Rightarrow>
          (let run_id = ev_run_id start; channel = ev_channel_id start;
               dropped_bytes = int (dropped b); batch_err = first_err b
           in case stream_err of
                Some err \<Rightarrow>
                  (fst (send_long send w channel (interrupted_message start err)),
                   400, (reject run_id err)\<lparr>rs_dropped_bytes := dropped_bytes\<rparr>)
              | None \<Rightarrow>
                  (case exit of
                     None \<Rightarrow>
                       (fst (send_long send w channel (no_exit_message start)),
                        400, (reject run_id ''stream closed without exit event'')
                               \<lparr>rs_dropped_bytes := dropped_bytes\<rparr>)
                   | Some exit_event \<Rightarrow>
                       (case send_long send w channel (format_exit start exit_event (dropped b) batch_err) of
                          (w', send_err) \<Rightarrow>
                            (let err = record_error batch_err send_err in
                             (w', (if err = None then 200 else 502),
                              \<lparr>rs_run_id = run_id, rs_accepted = (err = None),
                               rs_dropped_bytes = dropped_bytes,
                               rs_error = (if err = None then []
                                           else ''one or more Discord messages failed'')\<rparr>))))))"

text \<open>The handler after it holds a slot of the semaphore.\<close>

definition channel_allowed :: "config \<Rightarrow> gostring \<Rightarrow> bool" where
  "channel_allowed cfg ch \<longleftrightarrow>
     \<not> 0 < length (allowed_channel_ids cfg) \<or> ch \<in> set (allowed_channel_ids cfg)"

definition relay_run ::
    "(gostring \<Rightarrow> gostring) \<Rightarrow> config \<Rightarrow> 'w send \<Rightarrow> request \<Rightarrow> 'w \<Rightarrow> 'w \<times> reply" where
  "relay_run quote cfg send rq w =
     (case rq_start rq of
        None \<Rightarrow> (w, 400, reject [] ''missing or invalid start event'')
      | Some (Inl _) \<Rightarrow> (w, 400, reject [] ''missing or invalid start event'')
      | Some (Inr start) \<Rightarrow>
          (case validate_start start of
             Some err \<Rightarrow> (w, 400, reject (ev_run_id start) err)
           | None \<Rightarrow>
               if \<not> channel_allowed cfg (ev_channel_id start)
               then (w, 403, reject (ev_run_id start) ''channel ID is not allowed by the relay'')
               else
                 (case send_long send w (ev_channel_id start) (format_start start) of
                    (w1, Some _) \<Rightarrow> (w1, 502, reject (ev_run_id start) ''failed to send Discord message'')
                  | (w1, None) \<Rightarrow>
                      (let bcfg = batcher_config_for cfg start in
                       case stream_loop quote bcfg send start (rq_items rq) (rq_at_eof rq) None
                              (new_batcher, w1) of
                         (s, exit, err) \<Rightarrow>
                           finish_stream bcfg send start (rq_closing rq) s exit err))))"

text \<open>
  The semaphore of \<open>NewServer\<close>: a channel with a buffer of \<open>MaxConcurrentRuns\<close> slots. A
  handler arrives, is turned away (401, 429) or takes a slot, and gives it back when it
  returns; the state is the number of slots in use and the identities of the running handlers.
\<close>

record server_state =
  slots :: nat
  running :: "nat list"

definition new_server :: server_state where
  "new_server = \<lparr>slots = 0, running = []\<rparr>"

definition arrive ::
    "(gostring \<Rightarrow> gostring) \<Rightarrow> config \<Rightarrow> nat \<Rightarrow> gostring \<Rightarrow> server_state
      \<Rightarrow> server_state \<times> (int \<times> gostring) option" where
  "arrive sha256 cfg h auth sv =
     (if \<not> authorized sha256 cfg auth then (sv, Some (401, ''unauthorized''))
      else if int (slots sv) < max_concurrent_runs cfg
      then (sv\<lparr>slots := slots sv + 1, running := h # running sv\<rparr>, None)
      else (sv, Some (429, ''maximum concurrent runs reached'')))"

definition release :: "nat \<Rightarrow> server_state \<Rightarrow> server_state" where
  "release h sv = sv\<lparr>slots := slots sv - 1, running := remove1 h (running sv)\<rparr>"

text \<open>The whole handler, identified by \<open>h\<close>.\<close>

definition handle_stream ::
    "(gostring \<Rightarrow> gostring) \<Rightarrow> (gostring \<Rightarrow> gostring) \<Rightarrow> config \<Rightarrow> 'w send \<Rightarrow> nat \<Rightarrow> request
      \<Rightarrow> server_state \<times> 'w \<Rightarrow> (server_state \<times> 'w) \<times> reply" where
  "handle_stream sha256 quote cfg send h rq =
     (\<lambda>(sv, w).
        case arrive sha256 cfg h (rq_authorization rq) sv of
          (sv1, Some (status, err)) \<Rightarrow> ((sv1, w), status, reject [] err)
        | (sv1, None) \<Rightarrow>
            (case relay_run quote cfg send rq w of (w', reply) \<Rightarrow> ((release h sv1, w'), reply)))"

section \<open>The loop as a run of the batcher\<close>

text \<open>The actions on the batcher that the loop performs, and the output events it relays.\<close>

fun loop_ops :: "event \<Rightarrow> (background list \<times> decoded) list \<Rightarrow> background list \<Rightarrow> batcher_op list" where
  "loop_ops start [] at_eof = map background_op at_eof"
| "loop_ops start ((bg, item) # items) at_eof =
     map background_op bg @
     (case item of
        Inl _ \<Rightarrow> []
      | Inr e \<Rightarrow>
          if ev_version e \<noteq> protocol_version \<or> ev_run_id e \<noteq> ev_run_id start then []
          else if ev_type e = event_output
          then Add (ev_stream e) (event_data e) # loop_ops start items at_eof
          else if ev_type e = event_exit then loop_ops start items at_eof
          else [])"

fun relayed_events :: "event \<Rightarrow> (background list \<times> decoded) list \<Rightarrow> event list" where
  "relayed_events start [] = []"
| "relayed_events start ((bg, item) # items) =
     (case item of
        Inl _ \<Rightarrow> []
      | Inr e \<Rightarrow>
          if ev_version e \<noteq> protocol_version \<or> ev_run_id e \<noteq> ev_run_id start then []
          else if ev_type e = event_output then e # relayed_events start items
          else if ev_type e = event_exit then relayed_events start items
          else [])"

definition event_record :: "event \<Rightarrow> output_record" where
  "event_record e = \<lparr>or_stream = ev_stream e, or_data = event_data e\<rparr>"

definition event_records :: "event list \<Rightarrow> output_record list" where
  "event_records es = map event_record (filter (\<lambda>e. ev_data e \<noteq> []) es)"

lemma stream_loop_run:
  "fst (stream_loop quote bcfg send start items at_eof exit s)
     = batcher_run bcfg send (loop_ops start items at_eof) s"
proof (induction items arbitrary: s exit)
  case (Cons i items)
  obtain bg item where i: "i = (bg, item)" by (cases i)
  show ?case by (simp add: i Cons.IH batcher_run_append Let_def split: sum.split)
qed simp

lemma add_records_append [simp]: "add_records (xs @ ys) = add_records xs @ add_records ys"
  by (induction xs rule: add_records.induct) auto

lemma add_records_background [simp]: "add_records (map background_op bg) = []"
proof (induction bg)
  case (Cons a bg)
  then show ?case by (cases a) auto
qed simp

lemma close_not_background [simp]: "CloseEvents \<notin> set (map background_op bg)"
  by (auto elim: background_op.elims dest: sym)

lemma event_data_empty_iff [simp]: "event_data e = [] \<longleftrightarrow> ev_data e = []"
  by (auto simp: event_data_def max_output_event_data_bytes_def)

lemma loop_ops_adds: "add_records (loop_ops start items at_eof) = event_records (relayed_events start items)"
  by (induction items)
    (auto simp: event_records_def event_record_def split: sum.split)

lemma loop_ops_open: "CloseEvents \<notin> set (loop_ops start items at_eof)"
proof (induction items)
  case Nil
  then show ?case using close_not_background [of at_eof] by simp
next
  case (Cons i items)
  obtain bg item where i: "i = (bg, item)" by (cases i)
  show ?case using Cons close_not_background [of bg] by (auto simp: i split: sum.split)
qed

text \<open>
  The batcher from its creation to the end of \<open>Close\<close>: done, its history complete and every
  offered byte accounted for, for every interleaving.
\<close>

lemma batcher_lifecycle:
  assumes loop: "stream_loop quote bcfg send start items at_eof None (new_batcher, w) = (s, exit, err)"
    and close: "close_batcher bcfg send (map background_op closing) s = (b, w')"
  shows "finished b" "batcher_inv bcfg b" "sends bcfg send (new_batcher, w) (b, w')"
    "\<exists>acc. subseq acc (event_records (relayed_events start items))
       \<and> log_bytes (flush_log b) = concat (map (record_bytes bcfg) acc) @ final_notice b
       \<and> data_bytes acc + dropped b = data_bytes (event_records (relayed_events start items))
       \<and> (length (relayed_events start items) \<le> bc_queue_size bcfg \<longrightarrow>
            acc = event_records (relayed_events start items))"
proof -
  let ?ops = "loop_ops start items at_eof" and ?rs = "event_records (relayed_events start items)"
  let ?acc = "accepted_records bcfg send ?ops (new_batcher, w)"
  have run: "batcher_run bcfg send ?ops (new_batcher, w) = s"
    using stream_loop_run [of quote bcfg send start items at_eof None "(new_batcher, w)"] loop by simp
  obtain b1 w1 where s: "s = (b1, w1)" by (cases s)
  note r = run_effect [OF run [unfolded s] batcher_inv_new]
  note c = close_batcher_effect [OF close [unfolded s] r(1)]
  have new: "\<not> closed new_batcher" "\<not> finished new_batcher" "dropped new_batcher = 0"
    "queue new_batcher = []" by (simp_all add: new_batcher_def)
  show "finished b" "batcher_inv bcfg b" by (rule c)+
  show "sends bcfg send (new_batcher, w) (b, w')" using r(2) c(4) by (rule sends_trans)
  have len: "length ?rs \<le> length (relayed_events start items)"
    by (simp add: event_records_def)
  have "\<not> finished b1"
  proof
    assume "finished b1"
    then have "closed b1" using r(1) by (simp add: batcher_inv_def)
    moreover have "\<not> closed b1"
      using run_keeps_open [OF run [unfolded s] batcher_inv_new new(1) loop_ops_open] .
    ultimately show False by simp
  qed
  then have "in_flight bcfg b = concat (map (record_bytes bcfg) ?acc) @ final_notice b"
    using r(3) c(5) new by (simp add: final_notice_def)
  then have "log_bytes (flush_log b) = concat (map (record_bytes bcfg) ?acc) @ final_notice b"
    using finished_in_flight [OF c(1,2)] by simp
  moreover have "data_bytes ?acc + dropped b = data_bytes ?rs"
    using r(4) c(3) new offered_bytes_open [OF loop_ops_open new(1) batcher_inv_new]
    by (simp add: loop_ops_adds)
  moreover have "subseq ?acc ?rs" using accepted_subseq by (metis loop_ops_adds)
  moreover have "?acc = ?rs" if "length (relayed_events start items) \<le> bc_queue_size bcfg"
    using accepted_all [OF loop_ops_open new(1) batcher_inv_new, of start items at_eof bcfg send w]
      that len new
    by (simp add: loop_ops_adds)
  ultimately show "\<exists>acc. subseq acc ?rs
       \<and> log_bytes (flush_log b) = concat (map (record_bytes bcfg) acc) @ final_notice b
       \<and> data_bytes acc + dropped b = data_bytes ?rs
       \<and> (length (relayed_events start items) \<le> bc_queue_size bcfg \<longrightarrow> acc = ?rs)"
    by blast
qed

section \<open>Delivery\<close>

text \<open>
  \<open>posted ch w w' P\<close>: from \<open>w\<close> to \<open>w'\<close> only messages for channel \<open>ch\<close> were delivered,
  each satisfying \<open>P\<close>.
\<close>

definition only_to ::
    "('w \<Rightarrow> (gostring \<times> gostring) list) \<Rightarrow> gostring \<Rightarrow> (gostring \<Rightarrow> bool) \<Rightarrow> 'w \<Rightarrow> 'w \<Rightarrow> bool" where
  "only_to dlv ch P w w' \<longleftrightarrow> (\<exists>ms. dlv w' = dlv w @ map (Pair ch) ms \<and> list_all P ms)"

lemma only_to_refl: "only_to dlv ch P w w"
  unfolding only_to_def by (intro exI [of _ "[]"]) simp

lemma only_to_trans: "only_to dlv ch P w w1 \<Longrightarrow> only_to dlv ch P w1 w2 \<Longrightarrow> only_to dlv ch P w w2"
proof -
  assume "only_to dlv ch P w w1" "only_to dlv ch P w1 w2"
  then obtain ms1 ms2 where "dlv w1 = dlv w @ map (Pair ch) ms1" "list_all P ms1"
    "dlv w2 = dlv w1 @ map (Pair ch) ms2" "list_all P ms2" by (auto simp: only_to_def)
  then show "only_to dlv ch P w w2" unfolding only_to_def by (intro exI [of _ "ms1 @ ms2"]) simp
qed

lemma list_all_subseq: "subseq xs ys \<Longrightarrow> list_all P ys \<Longrightarrow> list_all P xs"
  by (induction rule: list_emb.induct) auto

text \<open>Discord takes at most 2000 characters, and a character is at least a byte.\<close>

definition fits_discord :: "gostring \<Rightarrow> bool" where
  "fits_discord m \<longleftrightarrow> m \<noteq> [] \<and> length m \<le> 2000"

lemma send_long_parts: "content \<noteq> [] \<Longrightarrow> list_all fits_discord (split_utf8 content 1900)"
proof -
  assume ne: "content \<noteq> []"
  have "fits_discord p" if p: "p \<in> set (split_utf8 content 1900)" for p
    using split_utf8_length [OF _ p] split_utf8_nonempty [OF _ ne p] by (simp add: fits_discord_def)
  then show ?thesis by (simp add: list_all_iff)
qed

lemma messages_fit:
  assumes "list_all (\<lambda>(s, d). known_stream s \<and> d \<noteq> []) logged" "4 \<le> bc_max_log bcfg" "bc_max_log bcfg \<le> 1800"
  shows "list_all fits_discord (messages_of bcfg logged)"
  unfolding list_all_iff
proof
  fix m assume "m \<in> set (messages_of bcfg logged)"
  then obtain s d where m: "m \<in> set (output_messages bcfg s d)" and s: "known_stream s"
    using messages_of_all [OF _ assms(1)] by metis
  show "fits_discord m"
    using output_messages_length [OF m s assms(2)] output_messages_nonempty [OF m] assms(3)
    by (simp add: fits_discord_def)
qed

context message_sender
begin

lemma send_long_only_to:
  assumes "send_long send w ch content = (w', r)" "content \<noteq> []" "trim_space ch = ch"
  shows "only_to delivered ch fits_discord w w'"
    "r = None \<Longrightarrow> delivered w' = delivered w @ map (Pair ch) (split_utf8 content 1900)"
proof -
  let ?ps = "split_utf8 content 1900"
  have fit: "list_all fits_discord ?ps" using assms(2) by (rule send_long_parts)
  then have ne: "\<forall>p \<in> set ?ps. p \<noteq> []" by (auto simp: list_all_iff fits_discord_def)
  show ok: "delivered w' = delivered w @ map (Pair ch) ?ps" if "r = None"
    using send_parts_ok [of w ch ?ps w'] ne assms that by (simp add: send_long_def)
  show "only_to delivered ch fits_discord w w'"
  proof (cases r)
    case None
    with ok fit show ?thesis unfolding only_to_def by blast
  next
    case (Some e)
    then obtain k where "delivered w' = delivered w @ map (Pair ch) (take k ?ps)"
      using send_parts_failed [of w ch ?ps w' e] ne assms by (auto simp: send_long_def)
    moreover have "list_all fits_discord (take k ?ps)"
      using fit by (metis append_take_drop_id list_all_append)
    ultimately show ?thesis unfolding only_to_def by blast
  qed
qed

lemma batcher_only_to:
  assumes "sends bcfg send (new_batcher, w) (b, w')" "batcher_inv bcfg b"
    "4 \<le> bc_max_log bcfg" "bc_max_log bcfg \<le> 1800" "trim_space (bc_channel_id bcfg) = bc_channel_id bcfg"
  shows "only_to delivered (bc_channel_id bcfg) fits_discord w w'"
    "first_err b = None \<Longrightarrow>
       delivered w' = delivered w @ map (Pair (bc_channel_id bcfg)) (messages_of bcfg (flush_log b))"
proof -
  have logged: "flush_log b = flush_log new_batcher @ flush_log b" by (simp add: new_batcher_def)
  have "list_all fits_discord (messages_of bcfg (flush_log b))"
    using assms(2-4) by (intro messages_fit) (simp_all add: batcher_inv_def)
  then show "only_to delivered (bc_channel_id bcfg) fits_discord w w'"
    using sends_delivered(1) [OF assms(1) logged] assms(5) list_all_subseq unfolding only_to_def by metis
  show "delivered w' = delivered w @ map (Pair (bc_channel_id bcfg)) (messages_of bcfg (flush_log b))"
    if "first_err b = None"
    using sends_delivered(2) [OF assms(1) logged that] assms(5) by simp
qed

end


section \<open>The stream a run is made of\<close>

text \<open>
  The protocol as a predicate: every item is an event of the run, of type output or exit. The
  loop reports no error exactly on such a stream, relays its output events and ends with its
  last exit event.
\<close>

definition belongs_to :: "event \<Rightarrow> event \<Rightarrow> bool" where
  "belongs_to start e \<longleftrightarrow>
     ev_version e = protocol_version \<and> ev_run_id e = ev_run_id start
     \<and> (ev_type e = event_output \<or> ev_type e = event_exit)"

definition well_formed_stream :: "event \<Rightarrow> (background list \<times> decoded) list \<Rightarrow> bool" where
  "well_formed_stream start items \<longleftrightarrow>
     list_all (\<lambda>(bg, item). case item of Inl _ \<Rightarrow> False | Inr e \<Rightarrow> belongs_to start e) items"

definition stream_events :: "(background list \<times> decoded) list \<Rightarrow> event list" where
  "stream_events items = concat (map (\<lambda>(bg, item). case item of Inl _ \<Rightarrow> [] | Inr e \<Rightarrow> [e]) items)"

definition outputs_of :: "(background list \<times> decoded) list \<Rightarrow> event list" where
  "outputs_of items = filter (\<lambda>e. ev_type e = event_output) (stream_events items)"

definition exits_of :: "(background list \<times> decoded) list \<Rightarrow> event list" where
  "exits_of items = filter (\<lambda>e. ev_type e = event_exit) (stream_events items)"

lemma output_not_exit [simp]: "event_output \<noteq> event_exit" "event_exit \<noteq> event_output"
  by (simp_all add: protocol_names)

lemma stream_loop_error_iff:
  "snd (snd (stream_loop quote bcfg send start items at_eof exit s)) = None \<longleftrightarrow>
     well_formed_stream start items"
proof (induction items arbitrary: s exit)
  case (Cons i items)
  obtain bg item where i: "i = (bg, item)" by (cases i)
  show ?case
    by (auto simp: i Cons.IH Let_def well_formed_stream_def belongs_to_def split: sum.split)
qed (simp add: well_formed_stream_def)

lemma stream_loop_exit:
  "well_formed_stream start items \<Longrightarrow>
     fst (snd (stream_loop quote bcfg send start items at_eof exit s)) =
       (if exits_of items = [] then exit else Some (last (exits_of items)))"
proof (induction items arbitrary: s exit)
  case (Cons i items)
  obtain bg item where i: "i = (bg, item)" by (cases i)
  from Cons.prems i obtain e where e: "item = Inr e" "belongs_to start e"
    and wf: "well_formed_stream start items"
    by (auto simp: well_formed_stream_def split: sum.splits)
  show ?case
    using e by (auto simp: i Let_def Cons.IH [OF wf] belongs_to_def exits_of_def stream_events_def)
qed (simp add: exits_of_def stream_events_def)

lemma relayed_events_outputs: "well_formed_stream start items \<Longrightarrow> relayed_events start items = outputs_of items"
proof (induction items)
  case (Cons i items)
  obtain bg item where i: "i = (bg, item)" by (cases i)
  from Cons.prems i obtain e where e: "item = Inr e" "belongs_to start e"
    and wf: "well_formed_stream start items"
    by (auto simp: well_formed_stream_def split: sum.splits)
  show ?case
    using e by (auto simp: i Cons.IH [OF wf] belongs_to_def outputs_of_def stream_events_def)
qed (simp add: outputs_of_def stream_events_def)

section \<open>A whole run\<close>

lemma validate_start_channel: "validate_start e = None \<Longrightarrow> isDiscordChannelID (ev_channel_id e)"
  by (auto simp: validate_start_def split: if_splits)

lemma interruption_nonempty [simp]: "interrupted_message s e \<noteq> []" "no_exit_message s \<noteq> []"
  by (simp_all add: interrupted_message_def no_exit_message_def warning_sign_def)

lemma batcher_config_for_simps [simp]:
  "bc_channel_id (batcher_config_for cfg start) = ev_channel_id start"
  "bc_max_log (batcher_config_for cfg start) = max_log_chunk_bytes cfg"
  "bc_queue_size (batcher_config_for cfg start) = nat (queue_size cfg)"
  by (simp_all add: batcher_config_for_def)

text \<open>A run that gets as far as the batcher, split into its four phases.\<close>

definition admitted :: "config \<Rightarrow> request \<Rightarrow> event \<Rightarrow> bool" where
  "admitted cfg rq start \<longleftrightarrow>
     rq_start rq = Some (Inr start) \<and> validate_start start = None
     \<and> channel_allowed cfg (ev_channel_id start)"

lemma relay_run_cases:
  assumes "relay_run quote cfg send rq w = (w', st, resp)"
  obtains (refused) "w' = w" "st = 400 \<or> st = 403" "\<not> rs_accepted resp"
      "\<nexists>start. admitted cfg rq start"
  | (start_failed) start e where "admitted cfg rq start"
      "send_long send w (ev_channel_id start) (format_start start) = (w', Some e)"
      "st = 502" "\<not> rs_accepted resp"
  | (streamed) start w1 b1 w2 exit err b w3 where "admitted cfg rq start"
      "send_long send w (ev_channel_id start) (format_start start) = (w1, None)"
      "stream_loop quote (batcher_config_for cfg start) send start (rq_items rq) (rq_at_eof rq) None
         (new_batcher, w1) = ((b1, w2), exit, err)"
      "close_batcher (batcher_config_for cfg start) send (map background_op (rq_closing rq)) (b1, w2) = (b, w3)"
      "finish_stream (batcher_config_for cfg start) send start (rq_closing rq) (b1, w2) exit err
         = (w', st, resp)"
proof (cases "\<exists>start. admitted cfg rq start")
  case False
  then show thesis
    using assms by (intro refused)
      (auto simp: relay_run_def admitted_def reject_def zero_response_def
        split: option.splits sum.splits if_splits)
next
  case True
  then obtain start where adm: "admitted cfg rq start" by blast
  obtain w1 r where s: "send_long send w (ev_channel_id start) (format_start start) = (w1, r)"
    by (cases "send_long send w (ev_channel_id start) (format_start start)")
  show thesis
  proof (cases r)
    case (Some e)
    with assms adm s show thesis
      by (intro start_failed [OF adm, of e])
        (auto simp: relay_run_def admitted_def reject_def zero_response_def)
  next
    case None
    let ?bcfg = "batcher_config_for cfg start"
    obtain b1 w2 exit err where l: "stream_loop quote ?bcfg send start (rq_items rq) (rq_at_eof rq) None
       (new_batcher, w1) = ((b1, w2), exit, err)"
      by (metis prod.collapse)
    obtain b w3 where c: "close_batcher ?bcfg send (map background_op (rq_closing rq)) (b1, w2) = (b, w3)"
      by (cases "close_batcher ?bcfg send (map background_op (rq_closing rq)) (b1, w2)")
    have "finish_stream ?bcfg send start (rq_closing rq) (b1, w2) exit err = (w', st, resp)"
      using assms adm s None l by (simp add: relay_run_def admitted_def Let_def)
    with adm s None l c show thesis by (intro streamed) auto
  qed
qed


text \<open>The reply of a run that was streamed.\<close>

lemma finish_stream_reply:
  assumes "finish_stream bcfg send start closing s exit err = (w', st, resp)"
    "close_batcher bcfg send (map background_op closing) s = (b, w)"
  shows "rs_dropped_bytes resp = int (dropped b)" "rs_run_id resp = ev_run_id start"
    "st = 200 \<longleftrightarrow> rs_accepted resp" "st \<in> {200, 400, 502}" "rs_error resp = [] \<longrightarrow> st = 200 \<or> err = Some []"
    "rs_accepted resp \<Longrightarrow> err = None \<and> first_err b = None \<and>
       (\<exists>e. exit = Some e \<and> send_long send w (ev_channel_id start) (format_exit start e (dropped b) None)
          = (w', None))"
    "err = None \<Longrightarrow> first_err b = None \<Longrightarrow> exit = Some e \<Longrightarrow>
       send_long send w (ev_channel_id start) (format_exit start e (dropped b) None) = (w'', None) \<Longrightarrow>
       st = 200"
  using assms
  by (auto simp: finish_stream_def reject_def zero_response_def Let_def record_error_None_iff
      split: option.splits prod.splits if_splits)

context message_sender
begin

lemma finish_stream_only_to:
  assumes "finish_stream bcfg send start closing s exit err = (w', st, resp)"
    "close_batcher bcfg send (map background_op closing) s = (b, w)"
    "trim_space (ev_channel_id start) = ev_channel_id start"
  shows "only_to delivered (ev_channel_id start) fits_discord w w'"
proof -
  have "\<exists>content. content \<noteq> [] \<and> w' = fst (send_long send w (ev_channel_id start) content)"
  proof (cases err)
    case (Some e)
    with assms(1,2) have "w' = fst (send_long send w (ev_channel_id start) (interrupted_message start e))"
      by (simp add: finish_stream_def Let_def)
    then show ?thesis by (intro exI [of _ "interrupted_message start e"]) simp
  next
    case None
    show ?thesis
    proof (cases exit)
      case None
      with \<open>err = None\<close> assms(1,2)
      have "w' = fst (send_long send w (ev_channel_id start) (no_exit_message start))"
        by (simp add: finish_stream_def Let_def)
      then show ?thesis by (intro exI [of _ "no_exit_message start"]) simp
    next
      case (Some e)
      with \<open>err = None\<close> assms(1,2)
      have "w' = fst (send_long send w (ev_channel_id start) (format_exit start e (dropped b) (first_err b)))"
        by (simp add: finish_stream_def Let_def split: prod.splits)
      then show ?thesis by (intro exI [of _ "format_exit start e (dropped b) (first_err b)"]) simp
    qed
  qed
  then obtain content r where "send_long send w (ev_channel_id start) content = (w', r)" "content \<noteq> []"
    by (metis prod.collapse)
  then show ?thesis using send_long_only_to(1) assms(3) by blast
qed

text \<open>Whatever happens, a run posts to its own channel only, and only what Discord can take.\<close>

lemma relay_run_confined:
  assumes "relay_run quote cfg send rq w = (w', st, resp)" "config_ok cfg"
  shows "w' = w \<or> (\<exists>start. admitted cfg rq start \<and> only_to delivered (ev_channel_id start) fits_discord w w')"
  using assms(1)
proof (cases rule: relay_run_cases)
  case (start_failed start e)
  have "trim_space (ev_channel_id start) = ev_channel_id start"
    using start_failed(1) by (simp add: admitted_def validate_start_channel isDiscordChannelID_trim)
  then show ?thesis using send_long_only_to(1) [OF start_failed(2)] start_failed(1) by auto
next
  case (streamed start w1 b1 w2 exit err b w3)
  let ?ch = "ev_channel_id start" and ?bcfg = "batcher_config_for cfg start"
  have ch: "trim_space ?ch = ?ch"
    using streamed(1) by (simp add: admitted_def validate_start_channel isDiscordChannelID_trim)
  note life = batcher_lifecycle [OF streamed(3,4)]
  have "only_to delivered ?ch fits_discord w w1"
    using send_long_only_to(1) [OF streamed(2)] ch by simp
  moreover have "only_to delivered ?ch fits_discord w1 w3"
    using batcher_only_to(1) [OF life(3,2)] assms(2) ch by (simp add: config_ok_def)
  moreover have "only_to delivered ?ch fits_discord w3 w'"
    by (rule finish_stream_only_to [OF streamed(5,4) ch])
  ultimately have "only_to delivered ?ch fits_discord w w'" by (blast intro: only_to_trans)
  with streamed(1) show ?thesis by blast
qed simp

text \<open>
  What an accepted run has delivered: the start message, the history of the batcher and the
  exit message, the history carrying exactly the bytes that the queue took.
\<close>

lemma relay_run_accepted:
  assumes "relay_run quote cfg send rq w = (w', st, resp)" "rs_accepted resp" "config_ok cfg"
  obtains start logged acc n where "admitted cfg rq start" "well_formed_stream start (rq_items rq)"
    "exits_of (rq_items rq) \<noteq> []" "st = 200" "rs_dropped_bytes resp = int n"
    "delivered w' = delivered w @ map (Pair (ev_channel_id start))
       (split_utf8 (format_start start) 1900 @ messages_of (batcher_config_for cfg start) logged
        @ split_utf8 (format_exit start (last (exits_of (rq_items rq))) n None) 1900)"
    "log_bytes logged = concat (map (record_bytes (batcher_config_for cfg start)) acc)
       @ (if 0 < n then tag stream_system (overflow_notice n) else [])"
    "subseq acc (event_records (outputs_of (rq_items rq)))"
    "data_bytes acc + n = data_bytes (event_records (outputs_of (rq_items rq)))"
    "int (length (outputs_of (rq_items rq))) \<le> queue_size cfg \<longrightarrow>
       acc = event_records (outputs_of (rq_items rq))"
  using assms(1)
proof (cases rule: relay_run_cases)
  case (streamed start w1 b1 w2 exit err b w3)
  let ?ch = "ev_channel_id start" and ?bcfg = "batcher_config_for cfg start"
  have ch: "trim_space ?ch = ?ch"
    using streamed(1) by (simp add: admitted_def validate_start_channel isDiscordChannelID_trim)
  note life = batcher_lifecycle [OF streamed(3,4)] and fin = finish_stream_reply [OF streamed(5,4)]
  from fin(6) [OF assms(2)] obtain e where err: "err = None" "first_err b = None" "exit = Some e"
    and last_send: "send_long send w3 ?ch (format_exit start e (dropped b) None) = (w', None)" by blast
  have wf: "well_formed_stream start (rq_items rq)"
    using stream_loop_error_iff [of quote ?bcfg send start "rq_items rq" "rq_at_eof rq" None "(new_batcher, w1)"]
      streamed(3) err by simp
  have ex: "exits_of (rq_items rq) \<noteq> []" "e = last (exits_of (rq_items rq))"
    using stream_loop_exit [OF wf, of quote ?bcfg send "rq_at_eof rq" None "(new_batcher, w1)"]
      streamed(3) err by (auto split: if_splits)
  obtain acc where acc: "subseq acc (event_records (outputs_of (rq_items rq)))"
    "log_bytes (flush_log b) = concat (map (record_bytes ?bcfg) acc) @ final_notice b"
    "data_bytes acc + dropped b = data_bytes (event_records (outputs_of (rq_items rq)))"
    "length (outputs_of (rq_items rq)) \<le> bc_queue_size ?bcfg \<longrightarrow>
       acc = event_records (outputs_of (rq_items rq))"
    using life(4) unfolding relayed_events_outputs [OF wf] by blast
  have d1: "delivered w1 = delivered w @ map (Pair ?ch) (split_utf8 (format_start start) 1900)"
    using send_long_only_to(2) [OF streamed(2)] ch by simp
  have d2: "delivered w3 = delivered w1 @ map (Pair ?ch) (messages_of ?bcfg (flush_log b))"
    using batcher_only_to(2) [OF life(3,2)] assms(3) ch err by (simp add: config_ok_def)
  have d3: "delivered w' = delivered w3 @ map (Pair ?ch) (split_utf8 (format_exit start e (dropped b) None) 1900)"
    using send_long_only_to(2) [OF last_send] ch by simp
  show thesis
  proof (rule that [OF streamed(1) wf ex(1) _ fin(1)])
    show "st = 200" using fin(3) assms(2) by simp
    show "delivered w' = delivered w @ map (Pair ?ch)
       (split_utf8 (format_start start) 1900 @ messages_of ?bcfg (flush_log b)
        @ split_utf8 (format_exit start (last (exits_of (rq_items rq))) (dropped b) None) 1900)"
      by (simp add: d1 d2 d3 ex(2))
    show "log_bytes (flush_log b) = concat (map (record_bytes ?bcfg) acc)
       @ (if 0 < dropped b then tag stream_system (overflow_notice (dropped b)) else [])"
      using acc(2) life(1) by (simp add: final_notice_def)
    show "int (length (outputs_of (rq_items rq))) \<le> queue_size cfg \<longrightarrow>
       acc = event_records (outputs_of (rq_items rq))"
      using acc(4) by (simp add: le_nat_iff nat_le_iff)
  qed (fact acc)+
qed (use assms(2) in simp_all)

end


text \<open>With a sender that does not fail, a well-formed run with an exit event is accepted.\<close>

lemma relay_run_completes:
  assumes "admitted cfg rq start" "well_formed_stream start (rq_items rq)"
    "exits_of (rq_items rq) \<noteq> []" "reliable send (ev_channel_id start)"
  obtains w' resp where "relay_run quote cfg send rq w = (w', 200, resp)" "rs_accepted resp"
proof -
  let ?ch = "ev_channel_id start" and ?bcfg = "batcher_config_for cfg start"
  have long: "snd (send_long send w ?ch c) = None" for w c
    using send_parts_reliable [OF assms(4)] by (simp add: send_long_def)
  obtain w' st resp where rr: "relay_run quote cfg send rq w = (w', st, resp)"
    by (cases "relay_run quote cfg send rq w")
  then show thesis
  proof (cases rule: relay_run_cases)
    case refused
    with assms(1) show thesis by blast
  next
    case (start_failed start' e)
    then have "start' = start" using assms(1) by (simp add: admitted_def)
    with start_failed(2) long [of w "format_start start"] show thesis by simp
  next
    case (streamed start' w1 b1 w2 exit err b w3)
    then have st: "start' = start" using assms(1) by (simp add: admitted_def)
    note l = streamed(3) [unfolded st] and c = streamed(4) [unfolded st] and f = streamed(5) [unfolded st]
    have err: "err = None"
      using stream_loop_error_iff [of quote ?bcfg send start "rq_items rq" "rq_at_eof rq" None "(new_batcher, w1)"]
        l assms(2) by simp
    have ex: "exit = Some (last (exits_of (rq_items rq)))"
      using stream_loop_exit [OF assms(2), of quote ?bcfg send "rq_at_eof rq" None "(new_batcher, w1)"]
        l assms(3) by simp
    have "first_err b = None"
      using batcher_lifecycle(3) [OF l c] send_all_reliable [OF assms(4)]
      by (auto simp: sends_def new_batcher_def) (metis snd_conv)
    moreover obtain w'' where "send_long send w3 ?ch
        (format_exit start (last (exits_of (rq_items rq))) (dropped b) None) = (w'', None)"
      using long by (metis prod.collapse)
    ultimately have "st = 200" using finish_stream_reply(7) [OF f c err _ ex] by blast
    then show thesis using that finish_stream_reply(3) [OF f c] rr by simp
  qed
qed

section \<open>Admission of concurrent runs\<close>

text \<open>Handlers that overlap in any way, as a step relation on the semaphore.\<close>

datatype server_event = Arrive nat gostring "(int \<times> gostring) option" | Done nat

inductive server_step ::
    "(gostring \<Rightarrow> gostring) \<Rightarrow> config \<Rightarrow> server_state \<Rightarrow> server_event \<Rightarrow> server_state \<Rightarrow> bool"
  for sha256 cfg where
  arrives: "h \<notin> set (running sv) \<Longrightarrow> arrive sha256 cfg h auth sv = (sv', refused) \<Longrightarrow>
     server_step sha256 cfg sv (Arrive h auth refused) sv'"
| returns: "h \<in> set (running sv) \<Longrightarrow> server_step sha256 cfg sv (Done h) (release h sv)"

inductive_simps server_step_simps:
  "server_step sha256 cfg sv (Arrive h auth refused) sv'"
  "server_step sha256 cfg sv (Done h) sv'"

inductive server_reachable ::
    "(gostring \<Rightarrow> gostring) \<Rightarrow> config \<Rightarrow> server_state \<Rightarrow> bool" for sha256 cfg where
  initially: "server_reachable sha256 cfg new_server"
| stepping: "server_reachable sha256 cfg sv \<Longrightarrow> server_step sha256 cfg sv ev sv' \<Longrightarrow>
     server_reachable sha256 cfg sv'"

definition server_inv :: "config \<Rightarrow> server_state \<Rightarrow> bool" where
  "server_inv cfg sv \<longleftrightarrow>
     slots sv = length (running sv) \<and> distinct (running sv) \<and> int (slots sv) \<le> max_concurrent_runs cfg"

lemma server_step_inv:
  "server_step sha256 cfg sv ev sv' \<Longrightarrow> server_inv cfg sv \<Longrightarrow> server_inv cfg sv'"
proof (induction rule: server_step.induct)
  case (arrives h sv auth sv' refused)
  then show ?case by (auto simp: arrive_def server_inv_def split: if_splits)
next
  case (returns h sv)
  then have "0 < length (running sv)" by (cases "running sv") auto
  with returns show ?case by (auto simp: server_inv_def release_def length_remove1)
qed

lemma server_reachable_inv:
  "server_reachable sha256 cfg sv \<Longrightarrow> 1 \<le> max_concurrent_runs cfg \<Longrightarrow> server_inv cfg sv"
proof (induction rule: server_reachable.induct)
  case initially
  then show ?case by (simp add: server_inv_def new_server_def)
next
  case (stepping sv ev sv')
  then show ?case using server_step_inv by blast
qed

section \<open>Properties\<close>

lemma discord_send_reliable:
  assumes "\<And>n. succeeds (snd (env n))" "\<And>url. request_error lib url = None" "trim_space ch \<noteq> []"
  shows "reliable (discord_send lib env) ch"
  unfolding reliable_def
proof (intro allI)
  fix s content
  have "snd (send_loop lib env (trim_space ch) content 0 (Suc (max_retries s)) None s) = None"
    using send_loop_None_iff [of lib s "trim_space ch" 0 "Suc (max_retries s)" None env content] assms(1,2)
    by auto
  then show "snd (discord_send lib env s ch content) = None"
    using assms(3) by (simp add: discord_send_def Let_def del: send_loop.simps)
qed

text \<open>A request with one output event, for the examples.\<close>

definition sample_start :: event where
  "sample_start =
     zero_event\<lparr>ev_version := 2, ev_type := ''start'', ev_run_id := ''run'',
       ev_channel_id := ''12345678901234567'', ev_command := [''true'']\<rparr>"

definition sample_request :: request where
  "sample_request =
     \<lparr>rq_authorization = ''Bearer s'', rq_start = Some (Inr sample_start),
      rq_items =
        [([], Inr (zero_event\<lparr>ev_version := 2, ev_type := ''output'', ev_run_id := ''run'',
                     ev_stream := ''stdout'', ev_data := ''hello''\<rparr>)),
         ([Receive], Inr (zero_event\<lparr>ev_version := 2, ev_type := ''exit'', ev_run_id := ''run'',
                            ev_exit_code := Some 0\<rparr>))],
      rq_at_eof = [TickFires], rq_closing = []\<rparr>"

lemma sample_runs [simp]: "max_concurrent_runs sample_config = 32"
  by (simp add: sample_config_def sample_initial)

lemma sample_config_ok: "config_ok sample_config"
  by (rule load_config_ok [OF sample_config_loads])

lemma sample_channel: "isDiscordChannelID ''12345678901234567''"
  by (rule isDiscordChannelID_short) (simp_all add: is_digit_def)

lemma sample_admitted: "admitted sample_config sample_request sample_start"
proof -
  have "trim_space ''run'' = ''run''" by (rule trim_space_all_graphic) (simp add: graphic_def)
  then show ?thesis
    by (simp add: admitted_def sample_request_def validate_start_def sample_start_def zero_event_def
        protocol_names sample_channel channel_allowed_def sample_config_def sample_initial)
qed

lemma sample_stream:
  "well_formed_stream sample_start (rq_items sample_request)" "exits_of (rq_items sample_request) \<noteq> []"
  by (simp_all add: well_formed_stream_def sample_request_def belongs_to_def sample_start_def zero_event_def
      protocol_names exits_of_def stream_events_def)

lemma sample_authorized: "authorized sha256 sample_config (rq_authorization sample_request)"
proof -
  have "trim_space ''s'' = ''s''" by (rule trim_space_all_graphic) (simp add: graphic_def)
  then show ?thesis
    by (simp add: authorized_def sample_request_def sample_config_def sample_initial has_prefix_def
        trim_prefix_def)
qed

text \<open>C17: Whatever the request and the network do, a run posts only to its own channel, which is a
  valid and allowed channel ID, only if the request carries the shared token, and only
  nonempty messages of at most 2000 bytes, the most Discord takes.\<close>

theorem run_confined:
  assumes "config_ok cfg"
    "handle_stream sha256 quote cfg (discord_send lib env) h rq (sv, w) = ((sv', w'), st, resp)"
  shows "w' = w \<or>
     authorized sha256 cfg (rq_authorization rq)
     \<and> (\<exists>start. rq_start rq = Some (Inr start) \<and> isDiscordChannelID (ev_channel_id start)
          \<and> (allowed_channel_ids cfg \<noteq> [] \<longrightarrow> ev_channel_id start \<in> set (allowed_channel_ids cfg))
          \<and> only_to delivered (ev_channel_id start) fits_discord w w')"
proof (cases "arrive sha256 cfg h (rq_authorization rq) sv")
  case (Pair sv1 r)
  show ?thesis
  proof (cases r)
    case None
    then obtain w1 reply where rr: "relay_run quote cfg (discord_send lib env) rq w = (w1, reply)" "w1 = w'"
      using assms(2) Pair by (auto simp: handle_stream_def split: prod.splits)
    have "authorized sha256 cfg (rq_authorization rq)"
      using Pair None by (auto simp: arrive_def split: if_splits)
    then have "w' = w \<or> (\<exists>start. admitted cfg rq start \<and> only_to delivered (ev_channel_id start) fits_discord w w')"
      using ds.relay_run_confined [of quote cfg lib env rq w w' "fst reply" "snd reply"] rr assms(1) by auto
    moreover have "rq_start rq = Some (Inr start)" "isDiscordChannelID (ev_channel_id start)"
      "allowed_channel_ids cfg \<noteq> [] \<longrightarrow> ev_channel_id start \<in> set (allowed_channel_ids cfg)"
      if "admitted cfg rq start" for start
      using that by (auto simp: admitted_def validate_start_channel channel_allowed_def)
    ultimately show ?thesis using \<open>authorized sha256 cfg (rq_authorization rq)\<close> by blast
  next
    case (Some q)
    with Pair assms(2) show ?thesis by (cases q) (auto simp: handle_stream_def)
  qed
qed

text \<open>C1: Once accepted, a run has been relayed completely: the stream was well formed with an exit
  event; delivered are the start message, the log messages and the message for the last exit
  event, in this order; the log carries every byte of the accepted output events in order,
  followed by the overflow notice if bytes were dropped; the reply counts exactly the bytes
  missing; and nothing is missing when the output events fit the queue.\<close>

theorem accepted_run_relayed:
  assumes "config_ok cfg" "rs_accepted resp"
    "handle_stream sha256 quote cfg (discord_send lib env) h rq (sv, w) = ((sv', w'), st, resp)"
  shows "\<exists>start logged acc n. st = 200 \<and> admitted cfg rq start
     \<and> well_formed_stream start (rq_items rq) \<and> exits_of (rq_items rq) \<noteq> []
     \<and> delivered w' = delivered w @ map (Pair (ev_channel_id start))
         (split_utf8 (format_start start) 1900 @ messages_of (batcher_config_for cfg start) logged
          @ split_utf8 (format_exit start (last (exits_of (rq_items rq))) n None) 1900)
     \<and> log_bytes logged = concat (map (record_bytes (batcher_config_for cfg start)) acc)
         @ (if 0 < n then tag stream_system (overflow_notice n) else [])
     \<and> subseq acc (event_records (outputs_of (rq_items rq)))
     \<and> data_bytes acc + n = data_bytes (event_records (outputs_of (rq_items rq)))
     \<and> rs_dropped_bytes resp = int n
     \<and> (int (length (outputs_of (rq_items rq))) \<le> queue_size cfg \<longrightarrow>
          acc = event_records (outputs_of (rq_items rq)))"
proof -
  have "relay_run quote cfg (discord_send lib env) rq w = (w', st, resp)"
    using assms(2,3) by (auto simp: handle_stream_def reject_def zero_response_def split: prod.splits option.splits)
  then show ?thesis by (rule ds.relay_run_accepted [OF _ assms(2,1)]) blast
qed

lemma handle_stream_reliable:
  assumes "authorized sha256 cfg (rq_authorization rq)" "int (slots sv) < max_concurrent_runs cfg"
    "admitted cfg rq start" "well_formed_stream start (rq_items rq)" "exits_of (rq_items rq) \<noteq> []"
    "\<And>ch. trim_space ch \<noteq> [] \<Longrightarrow> reliable send ch"
  shows "\<exists>sv' w' resp. handle_stream sha256 quote cfg send h rq (sv, w) = ((sv', w'), 200, resp)
     \<and> rs_accepted resp \<and> sv' = sv"
proof -
  have "isDiscordChannelID (ev_channel_id start)"
    using assms(3) by (simp add: admitted_def validate_start_channel)
  then have "trim_space (ev_channel_id start) \<noteq> []"
    using isDiscordChannelID_trim by (fastforce simp: isDiscordChannelID_iff)
  note rel = assms(6) [OF this]
  obtain w' resp where "relay_run quote cfg send rq w = (w', 200, resp)" "rs_accepted resp"
    by (rule relay_run_completes [OF assms(3-5) rel])
  then show ?thesis using assms(1,2) by (simp add: handle_stream_def arrive_def release_def)
qed

text \<open>An authorized request for an allowed channel, whose stream is well formed and has an exit
  event, is accepted with status 200 whenever a slot is free and Discord answers every request
  with success, under every interleaving with the batcher.\<close>

lemma well_formed_run_accepted:
  assumes "authorized sha256 cfg (rq_authorization rq)" "int (slots sv) < max_concurrent_runs cfg"
    "admitted cfg rq start" "well_formed_stream start (rq_items rq)" "exits_of (rq_items rq) \<noteq> []"
    "\<And>n. succeeds (snd (env n))" "\<And>url. request_error lib url = None"
  shows "\<exists>sv' w' resp. handle_stream sha256 quote cfg (discord_send lib env) h rq (sv, w)
     = ((sv', w'), 200, resp) \<and> rs_accepted resp \<and> sv' = sv"
  by (rule handle_stream_reliable [OF assms(1-5)]) (rule discord_send_reliable [OF assms(6,7)])

lemma well_formed_run_accepted_witness:
  "\<exists>sv' w' resp. handle_stream (\<lambda>x. x) (\<lambda>x. x) sample_config (discord_send sample_lib ok_env) 1
     sample_request (new_server, sample_sender) = ((sv', w'), 200, resp) \<and> rs_accepted resp \<and> sv' = new_server"
  by (rule well_formed_run_accepted [OF sample_authorized _ sample_admitted sample_stream])
    (simp_all add: new_server_def sample_config_def sample_initial ok_env_def reply_status_def succeeds_def
      sample_lib_def)

lemma sample_relayed:
  obtains w' resp where "relay_run (\<lambda>x. x) sample_config (discord_send sample_lib ok_env) sample_request sample_sender
     = (w', 200, resp)" "rs_accepted resp"
proof -
  have "trim_space (ev_channel_id sample_start) \<noteq> []"
    using isDiscordChannelID_trim [OF sample_channel] by (simp add: sample_start_def)
  then have "reliable (discord_send sample_lib ok_env) (ev_channel_id sample_start)"
    by (intro discord_send_reliable)
      (simp_all add: ok_env_def reply_status_def succeeds_def sample_lib_def)
  then show thesis by (rule relay_run_completes [OF sample_admitted sample_stream]) (rule that)
qed

lemma sample_handled:
  obtains w' resp where "handle_stream (\<lambda>x. x) (\<lambda>x. x) sample_config (discord_send sample_lib ok_env) 1
     sample_request (new_server, sample_sender) = ((new_server, w'), 200, resp)" "rs_accepted resp"
proof -
  obtain w' resp where "relay_run (\<lambda>x. x) sample_config (discord_send sample_lib ok_env) sample_request
     sample_sender = (w', 200, resp)" "rs_accepted resp"
    by (rule sample_relayed)
  with that show thesis
    by (simp add: handle_stream_def arrive_def sample_authorized new_server_def release_def)
qed

lemma run_confined_witness:
  "\<exists>w' reply. handle_stream (\<lambda>x. x) (\<lambda>x. x) sample_config (discord_send sample_lib ok_env) 1
     sample_request (new_server, sample_sender) = ((new_server, w'), reply)
   \<and> (w' = sample_sender \<or> only_to delivered ''12345678901234567'' fits_discord sample_sender w')"
proof -
  obtain w' resp where h: "handle_stream (\<lambda>x. x) (\<lambda>x. x) sample_config (discord_send sample_lib ok_env) 1
     sample_request (new_server, sample_sender) = ((new_server, w'), 200, resp)"
    by (rule sample_handled)
  show ?thesis
    using run_confined [OF sample_config_ok h] h
    by (auto simp: sample_request_def sample_start_def)
qed

lemma accepted_run_relayed_witness:
  "\<exists>w' resp logged n. delivered w' = map (Pair (ev_channel_id sample_start))
       (split_utf8 (format_start sample_start) 1900
        @ messages_of (batcher_config_for sample_config sample_start) logged
        @ split_utf8 (format_exit sample_start (last (exits_of (rq_items sample_request))) n None) 1900)
     \<and> handle_stream (\<lambda>x. x) (\<lambda>x. x) sample_config (discord_send sample_lib ok_env) 1
         sample_request (new_server, sample_sender) = ((new_server, w'), 200, resp)"
proof -
  obtain w' resp where h: "handle_stream (\<lambda>x. x) (\<lambda>x. x) sample_config (discord_send sample_lib ok_env) 1
     sample_request (new_server, sample_sender) = ((new_server, w'), 200, resp)" "rs_accepted resp"
    by (rule sample_handled)
  have d: "delivered sample_sender = []" and s: "rq_start sample_request = Some (Inr sample_start)"
    by (simp_all add: sample_sender_def sample_request_def)
  show ?thesis
    using accepted_run_relayed [OF sample_config_ok h(2,1)] h(1) unfolding admitted_def d s by auto
qed

text \<open>A request that is turned away (401, 403, 429) leaves the sender and the semaphore as
  they were: nothing reaches Discord.\<close>

lemma refused_request_silent:
  assumes "handle_stream sha256 quote cfg (discord_send lib env) h rq (sv, w) = ((sv', w'), st, resp)"
    "st = 401 \<or> st = 403 \<or> st = 429"
  shows "w' = w \<and> sv' = sv \<and> \<not> rs_accepted resp"
proof (cases "arrive sha256 cfg h (rq_authorization rq) sv")
  case (Pair sv1 r)
  show ?thesis
  proof (cases r)
    case None
    then have rr: "relay_run quote cfg (discord_send lib env) rq w = (w', st, resp)" "sv' = release h sv1"
      using assms(1) Pair by (auto simp: handle_stream_def split: prod.splits)
    have "sv' = sv" using Pair None rr(2) by (auto simp: arrive_def release_def split: if_splits)
    moreover from rr(1) have "w' = w \<and> \<not> rs_accepted resp"
    proof (cases rule: relay_run_cases)
      case (streamed start w1 b1 w2 exit err b w3)
      then show ?thesis using finish_stream_reply(4) [OF streamed(5,4)] assms(2) by auto
    qed (use assms(2) in simp_all)
    ultimately show ?thesis by simp
  next
    case (Some q)
    with Pair assms(1) show ?thesis
      by (cases q) (auto simp: handle_stream_def arrive_def reject_def zero_response_def split: if_splits)
  qed
qed

lemma refused_request_silent_witness:
  "\<exists>resp. handle_stream (\<lambda>x. x) (\<lambda>x. x) sample_config (discord_send sample_lib ok_env) 1
     (sample_request\<lparr>rq_authorization := ''Basic s''\<rparr>) (new_server, sample_sender)
     = ((new_server, sample_sender), 401, resp) \<and> \<not> rs_accepted resp"
proof -
  obtain sv' w' st resp where h: "handle_stream (\<lambda>x. x) (\<lambda>x. x) sample_config (discord_send sample_lib ok_env) 1
     (sample_request\<lparr>rq_authorization := ''Basic s''\<rparr>) (new_server, sample_sender) = ((sv', w'), st, resp)"
    by (metis prod.collapse)
  moreover have "st = 401"
    using h by (auto simp: handle_stream_def arrive_def authorized_def has_prefix_def split: if_splits)
  ultimately show ?thesis using refused_request_silent [OF h] by simp
qed

text \<open>C19: However handlers arrive and return, never more of them run at once than
  \<open>MaxConcurrentRuns\<close>, and the slots in use are exactly those of the running handlers.\<close>

theorem running_bounded:
  assumes "server_reachable sha256 cfg sv" "1 \<le> max_concurrent_runs cfg"
  shows "int (length (running sv)) \<le> max_concurrent_runs cfg \<and> slots sv = length (running sv)
    \<and> distinct (running sv)"
  using server_reachable_inv [OF assms] by (simp add: server_inv_def)

lemma running_bounded_witness:
  "\<exists>sv. server_reachable (\<lambda>x. x) sample_config sv \<and> running sv = [1]
     \<and> int (length (running sv)) \<le> max_concurrent_runs sample_config"
proof -
  define sv where "sv = \<lparr>slots = 1, running = [1]\<rparr>"
  have "server_step (\<lambda>x. x) sample_config new_server (Arrive 1 (rq_authorization sample_request) None) sv"
    by (simp add: server_step_simps arrive_def sample_authorized new_server_def sv_def)
  then have r: "server_reachable (\<lambda>x. x) sample_config sv" by (rule stepping [OF initially])
  have "1 \<le> max_concurrent_runs sample_config" by simp
  with running_bounded [OF r] r show ?thesis by (auto simp: sv_def)
qed



end
