(* ===== verification/Go_Date.thy ===== *)
theory Go_Date
  imports Protocol Go_Strconv
begin

text \<open>
  Package \<open>time\<close>, as far as times are sent: the proleptic Gregorian calendar, the RFC 3339 text
  of a UTC time with nanoseconds (\<open>Time.MarshalJSON\<close>) and the strict parser of
  \<open>Time.UnmarshalJSON\<close>. A time is its distance in nanoseconds from 1 January of year 1.
\<close>

section \<open>Calendar\<close>

definition leap_year :: "int \<Rightarrow> bool" where
  "leap_year y \<longleftrightarrow> 4 dvd y \<and> (\<not> 100 dvd y \<or> 400 dvd y)"

definition days_before_year :: "int \<Rightarrow> int" where
  "days_before_year y = 365 * (y - 1) + (y - 1) div 4 - (y - 1) div 100 + (y - 1) div 400"

definition year_of_day :: "int \<Rightarrow> int" where
  "year_of_day d =
     (let n400 = d div 146097; r400 = d mod 146097;
          n100 = min 3 (r400 div 36524); r100 = r400 - 36524 * n100;
          n4 = r100 div 1461; r4 = r100 mod 1461;
          n1 = min 3 (r4 div 365)
      in 400 * n400 + 100 * n100 + 4 * n4 + n1 + 1)"

definition month_lengths :: "int \<Rightarrow> int list" where
  "month_lengths y = [31, if leap_year y then 29 else 28, 31, 30, 31, 30, 31, 31, 30, 31, 30, 31]"

definition days_in_month :: "int \<Rightarrow> nat \<Rightarrow> int" where
  "days_in_month y m = month_lengths y ! (m - 1)"

text \<open>Month (from \<open>m\<close>) and day of the month, for the \<open>d\<close>-th day from the start of the list.\<close>

fun find_month :: "int list \<Rightarrow> nat \<Rightarrow> int \<Rightarrow> nat \<times> int" where
  "find_month [] m d = (m, d + 1)"
| "find_month (l # ls) m d = (if d < l then (m, d + 1) else find_month ls (Suc m) (d - l))"

definition date_of_day :: "int \<Rightarrow> int \<times> nat \<times> int" where
  "date_of_day d = (let y = year_of_day d in (y, find_month (month_lengths y) 1 (d - days_before_year y)))"

definition day_of_date :: "int \<Rightarrow> nat \<Rightarrow> int \<Rightarrow> int" where
  "day_of_date y m dd = days_before_year y + sum_list (take (m - 1) (month_lengths y)) + dd - 1"

lemma days_before_year_cycles:
  assumes "0 \<le> b" "b \<le> 3" "0 \<le> c" "c \<le> 24" "0 \<le> e" "e \<le> 3"
  shows "days_before_year (400 * a + 100 * b + 4 * c + e + 1) = 146097 * a + 36524 * b + 1461 * c + 365 * e"
proof -
  let ?n = "400 * a + 100 * b + 4 * c + e"
  have "?n div 4 = 100 * a + 25 * b + c" by (rule int_div_pos_eq [where r = e]) (use assms in simp_all)
  moreover have "?n div 100 = 4 * a + b" by (rule int_div_pos_eq [where r = "4 * c + e"]) (use assms in simp_all)
  moreover have "?n div 400 = a" by (rule int_div_pos_eq [where r = "100 * b + 4 * c + e"]) (use assms in simp_all)
  moreover have "?n + 1 - 1 = ?n" by simp
  ultimately have n: "days_before_year (?n + 1) = 365 * ?n + (100 * a + 25 * b + c) - (4 * a + b) + a"
    by (simp only: days_before_year_def)
  show ?thesis unfolding n by (simp add: algebra_simps)
qed

lemma year_of_day_bounds:
  "days_before_year (year_of_day d) \<le> d" "d < days_before_year (year_of_day d + 1)"
proof -
  define a r where "a = d div 146097" and "r = d mod 146097"
  define b r2 where "b = min 3 (r div 36524)" and "r2 = r - 36524 * b"
  define c r3 where "c = r2 div 1461" and "r3 = r2 mod 1461"
  define e where "e = min 3 (r3 div 365)"
  have y: "year_of_day d = 400 * a + 100 * b + 4 * c + e + 1"
    by (simp only: year_of_day_def Let_def e_def r3_def c_def r2_def b_def r_def a_def)
  have d: "d = 146097 * a + r" "0 \<le> r" "r < 146097" by (simp_all add: a_def r_def)
  have r: "r = 36524 * b + r2" by (simp add: r2_def)
  have b: "0 \<le> b" "b \<le> 3" "0 \<le> r2" "r2 \<le> 36524" "b < 3 \<Longrightarrow> r2 < 36524"
    using d(2,3) by (auto simp: b_def r2_def min_def)
  have r2: "r2 = 1461 * c + r3" "0 \<le> r3" "r3 < 1461" by (simp_all add: c_def r3_def)
  have c: "0 \<le> c" "c \<le> 24" using b(3,4) r2 by linarith+
  have e: "0 \<le> e" "e \<le> 3" "365 * e \<le> r3" "e < 3 \<Longrightarrow> r3 < 365 * e + 365"
    using r2(2,3) by (auto simp: e_def min_def)
  have before: "days_before_year (year_of_day d) = 146097 * a + 36524 * b + 1461 * c + 365 * e"
    unfolding y by (rule days_before_year_cycles [OF b(1,2) c e(1,2)])
  then show "days_before_year (year_of_day d) \<le> d" using d(1) r r2(1) e(3) by linarith
  consider (plain) "e < 3" | (four) "e = 3" "c < 24" | (hundred) "e = 3" "c = 24" "b < 3"
    | (all) "e = 3" "c = 24" "b = 3" using b(2) c(2) e(2) by linarith
  then show "d < days_before_year (year_of_day d + 1)"
  proof cases
    case plain
    then have "days_before_year (400 * a + 100 * b + 4 * c + (e + 1) + 1)
       = 146097 * a + 36524 * b + 1461 * c + 365 * (e + 1)"
      using b c e by (intro days_before_year_cycles) simp_all
    moreover have "year_of_day d + 1 = 400 * a + 100 * b + 4 * c + (e + 1) + 1" by (simp add: y)
    ultimately show ?thesis using d(1) r r2(1) e(4) [OF plain] by (simp only:) simp
  next
    case four
    have "days_before_year (400 * a + 100 * b + 4 * (c + 1) + 0 + 1) = 146097 * a + 36524 * b + 1461 * (c + 1) + 365 * 0"
      using b c four by (intro days_before_year_cycles) simp_all
    moreover have "year_of_day d + 1 = 400 * a + 100 * b + 4 * (c + 1) + 0 + 1" by (simp add: y four)
    ultimately show ?thesis using d(1) r r2(1,3) by (simp only:) simp
  next
    case hundred
    have "days_before_year (400 * a + 100 * (b + 1) + 4 * 0 + 0 + 1) = 146097 * a + 36524 * (b + 1) + 1461 * 0 + 365 * 0"
      using b hundred by (intro days_before_year_cycles) simp_all
    moreover have "year_of_day d + 1 = 400 * a + 100 * (b + 1) + 4 * 0 + 0 + 1" by (simp add: y hundred)
    ultimately show ?thesis using d(1) r b(5) [OF hundred(3)] by (simp only:) simp
  next
    case all
    have "days_before_year (400 * (a + 1) + 100 * 0 + 4 * 0 + 0 + 1) = 146097 * (a + 1) + 36524 * 0 + 1461 * 0 + 365 * 0"
      by (intro days_before_year_cycles) simp_all
    moreover have "year_of_day d + 1 = 400 * (a + 1) + 100 * 0 + 4 * 0 + 0 + 1" by (simp add: y all)
    ultimately show ?thesis using d(1,3) by (simp only:) simp
  qed
qed

lemma div_pred:
  assumes "0 < (k :: int)"
  shows "y div k = (y - 1) div k + (if k dvd y then 1 else 0)"
proof (cases "k dvd y")
  case True
  then obtain q where "y = k * q" by blast
  moreover have "(k * q - 1) div k = q - 1"
    using assms by (intro int_div_pos_eq [where r = "k - 1"]) (simp_all add: algebra_simps)
  ultimately show ?thesis using assms by simp
next
  case False
  then have "0 < y mod k" using assms by (simp add: dvd_eq_mod_eq_0 order_less_le)
  moreover have "y = k * (y div k) + y mod k" "y mod k < k" using assms by simp_all
  ultimately have "(y - 1) div k = y div k"
    by (intro int_div_pos_eq [where r = "y mod k - 1"]) linarith+
  with False show ?thesis by simp
qed

lemma year_length: "days_before_year (y + 1) - days_before_year y = sum_list (month_lengths y)"
proof -
  have dvds: "400 dvd y \<Longrightarrow> 100 dvd y" "100 dvd y \<Longrightarrow> 4 dvd y"
    using dvd_trans [of 100 400 y] dvd_trans [of 4 100 y] by simp_all
  have "y + 1 - 1 = y" by simp
  then have next_year: "days_before_year (y + 1) = 365 * y + y div 4 - y div 100 + y div 400"
    by (simp only: days_before_year_def)
  have leap: "365 * y + A - B + C - (365 * (y - 1) + A' - B' + C') = 365 + (if P \<and> (\<not> Q \<or> R) then 1 else 0)"
    if "A = A' + (if P then 1 else 0)" "B = B' + (if Q then 1 else 0)" "C = C' + (if R then 1 else 0)"
      "R \<Longrightarrow> Q" "Q \<Longrightarrow> P" for A A' B B' C C' :: int and P Q R
    using that by (cases P; cases Q; cases R; simp)
  have "days_before_year (y + 1) - days_before_year y = 365 + (if leap_year y then 1 else 0)"
    unfolding next_year
    unfolding days_before_year_def leap_year_def
  proof (rule leap [where A = "y div 4" and A' = "(y - 1) div 4" and B = "y div 100" and B' = "(y - 1) div 100"
        and C = "y div 400" and C' = "(y - 1) div 400" and P = "4 dvd y" and Q = "100 dvd y" and R = "400 dvd y"])
    show "y div 4 = (y - 1) div 4 + (if 4 dvd y then 1 else 0)" by (rule div_pred) simp
    show "y div 100 = (y - 1) div 100 + (if 100 dvd y then 1 else 0)" by (rule div_pred) simp
    show "y div 400 = (y - 1) div 400 + (if 400 dvd y then 1 else 0)" by (rule div_pred) simp
  qed (fact dvds)+
  then show ?thesis by (simp add: month_lengths_def)
qed

lemma find_month_found:
  assumes "find_month ls m d = (m', dd)" "0 \<le> d" "d < sum_list ls"
  shows "m \<le> m' \<and> m' < m + length ls \<and> 1 \<le> dd \<and> dd \<le> ls ! (m' - m) \<and> sum_list (take (m' - m) ls) + dd - 1 = d"
  using assms
proof (induction ls m d rule: find_month.induct)
  case (2 l ls m d)
  show ?case
  proof (cases "d < l")
    case False
    with 2 have "Suc m \<le> m' \<and> m' < Suc m + length ls \<and> 1 \<le> dd \<and> dd \<le> ls ! (m' - Suc m)
      \<and> sum_list (take (m' - Suc m) ls) + dd - 1 = d - l" by simp
    moreover from this have "m' - m = Suc (m' - Suc m)" by arith
    ultimately show ?thesis by auto
  qed (use 2 in auto)
qed simp

lemma date_of_day:
  assumes "date_of_day d = (y, m, dd)"
  shows "1 \<le> m" "m \<le> 12" "1 \<le> dd" "dd \<le> days_in_month y m" "day_of_date y m dd = d" "y = year_of_day d"
proof -
  define k where "k = d - days_before_year y"
  have y: "y = year_of_day d" and f: "find_month (month_lengths y) 1 k = (m, dd)"
    using assms by (auto simp: date_of_day_def k_def Let_def)
  have k: "0 \<le> k" "k < sum_list (month_lengths y)"
    using year_of_day_bounds [of d] year_length [of y] by (simp_all add: k_def y [symmetric])
  have "length (month_lengths y) = 12" by (simp add: month_lengths_def)
  then show "1 \<le> m" "m \<le> 12" "1 \<le> dd" "dd \<le> days_in_month y m" "day_of_date y m dd = d" "y = year_of_day d"
    using find_month_found [OF f k] y by (auto simp: days_in_month_def day_of_date_def k_def)
qed

lemma days_in_month_le: "1 \<le> m \<Longrightarrow> m \<le> 12 \<Longrightarrow> days_in_month y m \<le> 31"
proof -
  assume m: "1 \<le> m" "m \<le> 12"
  have "list_all (\<lambda>l. l \<le> 31) (month_lengths y)" by (simp add: month_lengths_def)
  moreover have "m - 1 < length (month_lengths y)" using m by (simp add: month_lengths_def)
  ultimately show ?thesis by (auto simp: list_all_length days_in_month_def)
qed

section \<open>RFC 3339\<close>

text \<open>A number with a fixed count of digits.\<close>

fun pad_nat :: "nat \<Rightarrow> nat \<Rightarrow> gostring" where
  "pad_nat 0 n = []"
| "pad_nat (Suc k) n = pad_nat k (n div 10) @ [digit_char (n mod 10)]"

text \<open>\<open>appendNano\<close> with trailing zeros removed.\<close>

definition nano_text :: "nat \<Rightarrow> gostring" where
  "nano_text ns =
     (let ds = rev (dropWhile (\<lambda>c. c = CHR ''0'') (rev (pad_nat 9 ns)))
      in if ds = [] then [] else CHR ''.'' # ds)"

definition clock_text :: "nat \<Rightarrow> gostring" where
  "clock_text sod = pad_nat 2 (sod div 3600) @ '':'' @ pad_nat 2 (sod div 60 mod 60) @ '':'' @ pad_nat 2 (sod mod 60)"

text \<open>\<open>Time.MarshalJSON\<close> without the quotes; a year of more than four digits is an error.\<close>

definition format_time :: "time \<Rightarrow> gostring option" where
  "format_time t =
     (let secs = t div 1000000000; ns = t mod 1000000000;
          (y, m, dd) = date_of_day (secs div 86400)
      in if y < 0 \<or> 9999 < y then None
         else Some (pad_nat 4 (nat y) @ ''-'' @ pad_nat 2 m @ ''-'' @ pad_nat 2 (nat dd) @ ''T''
                    @ clock_text (nat (secs mod 86400)) @ nano_text (nat ns) @ ''Z''))"

text \<open>\<open>parseUint\<close>: digits only, within bounds.\<close>

definition field_value :: "gostring \<Rightarrow> nat \<Rightarrow> nat \<Rightarrow> nat option" where
  "field_value s lo hi =
     (if list_all is_digit s \<and> lo \<le> digits_val s \<and> digits_val s \<le> hi then Some (digits_val s) else None)"

definition nano_value :: "gostring \<Rightarrow> nat" where
  "nano_value ds = (let ds = take 9 ds in digits_val ds * 10 ^ (9 - length ds))"

text \<open>The zone: \<open>Z\<close>, or an offset of hours and minutes, in seconds.\<close>

definition zone_offset :: "gostring \<Rightarrow> int option" where
  "zone_offset s =
     (if s = ''Z'' then Some 0
      else if length s \<noteq> 6 then None
      else
        (case (field_value (take 2 (drop 1 s)) 0 23, field_value (take 2 (drop 4 s)) 0 59) of
           (Some h, Some mi) \<Rightarrow>
             if (s ! 0 = CHR ''-'' \<or> s ! 0 = CHR ''+'') \<and> s ! 3 = CHR '':''
             then Some (int ((h * 60 + mi) * 60) * (if s ! 0 = CHR ''-'' then - 1 else 1))
             else None
         | _ \<Rightarrow> None))"

text \<open>\<open>parseRFC3339\<close>\<close>

definition parse_rfc3339 :: "gostring \<Rightarrow> time option" where
  "parse_rfc3339 s =
     (if length s < 19 then None
      else
        (case (field_value (take 4 s) 0 9999, field_value (take 2 (drop 5 s)) 1 12,
               field_value (take 2 (drop 11 s)) 0 23, field_value (take 2 (drop 14 s)) 0 59,
               field_value (take 2 (drop 17 s)) 0 59) of
           (Some y, Some m, Some h, Some mi, Some sec) \<Rightarrow>
             (case field_value (take 2 (drop 8 s)) 1 (nat (days_in_month (int y) m)) of
                None \<Rightarrow> None
              | Some dd \<Rightarrow>
                  if \<not> (s ! 4 = CHR ''-'' \<and> s ! 7 = CHR ''-'' \<and> s ! 10 = CHR ''T'' \<and> s ! 13 = CHR '':'' \<and> s ! 16 = CHR '':'')
                  then None
                  else
                    (let r = drop 19 s;
                         frac = (if 2 \<le> length r \<and> r ! 0 = CHR ''.'' \<and> is_digit (r ! 1)
                                 then takeWhile is_digit (tl r) else []);
                         zone = (if frac = [] then r else drop (length frac + 1) r)
                     in case zone_offset zone of
                          None \<Rightarrow> None
                        | Some off \<Rightarrow>
                            Some ((day_of_date (int y) m (int dd) * 86400 + int ((h * 60 + mi) * 60 + sec) - off)
                                    * 1000000000 + int (nano_value frac))))
         | _ \<Rightarrow> None))"

section \<open>Reading back what was written\<close>

lemma length_pad_nat [simp]: "length (pad_nat k n) = k"
  by (induction k arbitrary: n) simp_all

lemma pad_nat_digits: "list_all is_digit (pad_nat k n)"
  by (induction k arbitrary: n) simp_all

lemma digits_val_pad_nat: "digits_val (pad_nat k n) = n mod 10 ^ k"
proof (induction k arbitrary: n)
  case (Suc k)
  have "n mod (10 * 10 ^ k) = 10 * (n div 10 mod 10 ^ k) + n mod 10" by (rule mod_mult2_eq)
  with Suc show ?case by simp
qed simp

lemma field_value_pad_nat: "n < 10 ^ k \<Longrightarrow> lo \<le> n \<Longrightarrow> n \<le> hi \<Longrightarrow> field_value (pad_nat k n) lo hi = Some n"
  by (simp add: field_value_def pad_nat_digits digits_val_pad_nat)

lemma digits_val_zeros: "digits_val (s @ replicate k (CHR ''0'')) = digits_val s * 10 ^ k"
proof (induction k)
  case (Suc k)
  have "replicate (Suc k) (CHR ''0'') = replicate k (CHR ''0'') @ [CHR ''0'']"
    by (simp add: replicate_append_same)
  then have e: "s @ replicate (Suc k) (CHR ''0'') = (s @ replicate k (CHR ''0'')) @ [CHR ''0'']"
    by (metis append_assoc)
  have "digit_val (CHR ''0'') = 0" by (simp add: digit_val_def)
  then show ?case unfolding e digits_val_snoc Suc by (simp only: power_Suc add_0_right mult.left_commute)
qed simp

lemma trim_zeros:
  obtains k where "s = rev (dropWhile (\<lambda>c. c = CHR ''0'') (rev s)) @ replicate k (CHR ''0'')"
proof -
  let ?z = "takeWhile (\<lambda>c. c = CHR ''0'') (rev s)"
  have "\<forall>c \<in> set ?z. c = CHR ''0''" by (auto dest: set_takeWhileD)
  then have z: "replicate (length ?z) (CHR ''0'') = ?z" by (rule replicate_length_same)
  have "s = rev (?z @ dropWhile (\<lambda>c. c = CHR ''0'') (rev s))" by simp
  also have "\<dots> = rev (dropWhile (\<lambda>c. c = CHR ''0'') (rev s)) @ rev ?z" by (rule rev_append)
  also have "rev ?z = replicate (length ?z) (CHR ''0'')" by (subst (1) z [symmetric]) (rule rev_replicate)
  finally show thesis by (rule that)
qed

text \<open>The fraction is empty or a point with at least one digit, and has the value of the nanoseconds.\<close>

lemma nano_text_value:
  assumes "ns < 10 ^ 9"
  obtains "nano_text ns = []" "ns = 0"
    | d ds where "nano_text ns = CHR ''.'' # d # ds" "list_all is_digit (d # ds)" "nano_value (d # ds) = ns"
proof -
  define ds where "ds = rev (dropWhile (\<lambda>c. c = CHR ''0'') (rev (pad_nat 9 ns)))"
  obtain k where k: "pad_nat 9 ns = ds @ replicate k (CHR ''0'')"
    unfolding ds_def by (rule trim_zeros)
  have shape: "nano_text ns = (if ds = [] then [] else CHR ''.'' # ds)"
    by (simp add: nano_text_def ds_def)
  have "digits_val (pad_nat 9 ns) = ns" using assms by (simp add: digits_val_pad_nat)
  then have ns: "ns = digits_val ds * 10 ^ k" unfolding k digits_val_zeros by simp
  have len: "length ds + k = 9" using arg_cong [OF k, of length] by simp
  have digits: "list_all is_digit ds" using pad_nat_digits [of 9 ns] unfolding k by simp
  show thesis
  proof (cases ds)
    case Nil
    then show thesis using that(1) ns shape by simp
  next
    case (Cons d ds')
    have "9 - length ds = k" using len by arith
    then have "nano_value ds = ns" using ns len by (simp add: nano_value_def Let_def)
    then show thesis using that(2) [of d ds'] digits shape Cons by simp
  qed
qed

lemma two_chars: "length s = 2 \<Longrightarrow> \<exists>a b. s = [a, b]"
  by (cases s; cases "tl s") auto

lemma four_chars: "length s = 4 \<Longrightarrow> \<exists>a b c d. s = [a, b, c, d]"
  by (cases s; cases "tl s"; cases "tl (tl s)"; cases "tl (tl (tl s))") auto

lemma parse_rfc3339_text:
  assumes len: "length Y = 4" "length M = 2" "length D = 2" "length H = 2" "length I = 2" "length S = 2"
    and val: "field_value Y 0 9999 = Some y" "field_value M 1 12 = Some m"
      "field_value D 1 (nat (days_in_month (int y) m)) = Some dd" "field_value H 0 23 = Some h"
      "field_value I 0 59 = Some mi" "field_value S 0 59 = Some sec"
    and frac: "F = [] \<and> ns = 0 \<or> (\<exists>d ds. F = CHR ''.'' # d # ds \<and> list_all is_digit (d # ds) \<and> nano_value (d # ds) = ns)"
  shows "parse_rfc3339 (Y @ ''-'' @ M @ ''-'' @ D @ ''T'' @ H @ '':'' @ I @ '':'' @ S @ F @ ''Z'')
     = Some ((day_of_date (int y) m (int dd) * 86400 + int ((h * 60 + mi) * 60 + sec)) * 1000000000 + int ns)"
proof -
  obtain y0 y1 y2 y3 where Y: "Y = [y0, y1, y2, y3]" using four_chars [OF len(1)] by blast
  obtain m0 m1 where M: "M = [m0, m1]" using two_chars [OF len(2)] by blast
  obtain d0 d1 where D: "D = [d0, d1]" using two_chars [OF len(3)] by blast
  obtain h0 h1 where H: "H = [h0, h1]" using two_chars [OF len(4)] by blast
  obtain i0 i1 where I: "I = [i0, i1]" using two_chars [OF len(5)] by blast
  obtain s0 s1 where S: "S = [s0, s1]" using two_chars [OF len(6)] by blast
  note vs = val [unfolded Y M D H I S]
  have nz: "\<not> is_digit (CHR ''Z'')" by (simp add: is_digit_def)
  show ?thesis
    using frac
  proof (elim disjE conjE exE)
    assume "F = []" "ns = 0"
    then show ?thesis
      by (simp add: parse_rfc3339_def Y M D H I S vs zone_offset_def nano_value_def Let_def del: One_nat_def)
  next
    fix d ds assume F: "F = CHR ''.'' # d # ds" "list_all is_digit (d # ds)" "nano_value (d # ds) = ns"
    have tw: "takeWhile is_digit (d # ds @ ''Z'') = d # ds"
      using F(2) nz by (simp add: takeWhile_append2 list_all_iff)
    have rest: "drop (length ds + 1) (d # ds @ ''Z'') = ''Z''" by simp
    show ?thesis
      using F(2,3) tw rest
      by (simp add: parse_rfc3339_def Y M D H I S vs zone_offset_def F(1) Let_def del: One_nat_def)
  qed
qed

lemma clock_recompose: "0 \<le> (n :: nat) \<Longrightarrow> (n div 3600 * 60 + n div 60 mod 60) * 60 + n mod 60 = n"
proof -
  have "n div 3600 = n div 60 div 60" using div_mult2_eq [of n 60 60] by simp
  then have "n div 3600 * 60 + n div 60 mod 60 = n div 60" by simp
  then show ?thesis by simp
qed

lemma parse_format_time:
  assumes "format_time t = Some s"
  shows "parse_rfc3339 s = Some t"
proof -
  define secs ns where "secs = t div 1000000000" and "ns = nat (t mod 1000000000)"
  define day sod where "day = secs div 86400" and "sod = nat (secs mod 86400)"
  obtain y m dd where d: "date_of_day day = (y, m, dd)" by (cases "date_of_day day")
  note dd = date_of_day [OF d]
  have s: "0 \<le> y" "y \<le> 9999" "s = pad_nat 4 (nat y) @ ''-'' @ pad_nat 2 m @ ''-'' @ pad_nat 2 (nat dd) @ ''T''
      @ pad_nat 2 (sod div 3600) @ '':'' @ pad_nat 2 (sod div 60 mod 60) @ '':'' @ pad_nat 2 (sod mod 60)
      @ nano_text ns @ ''Z''"
    using assms d
    by (auto simp: format_time_def clock_text_def secs_def ns_def day_def sod_def Let_def split: if_splits)
  have ns: "ns < 10 ^ 9" by (simp add: ns_def nat_less_iff)
  have frac: "nano_text ns = [] \<and> ns = 0 \<or> (\<exists>d ds. nano_text ns = CHR ''.'' # d # ds
      \<and> list_all is_digit (d # ds) \<and> nano_value (d # ds) = ns)"
    by (rule nano_text_value [OF ns]) blast+
  have sod: "sod < 86400" by (simp add: sod_def nat_less_iff)
  have dm: "dd \<le> days_in_month y m" "days_in_month y m \<le> 31" "1 \<le> dd"
    using dd days_in_month_le [OF dd(1,2)] by simp_all
  have "parse_rfc3339 s = Some ((day_of_date (int (nat y)) m (int (nat dd)) * 86400
      + int ((sod div 3600 * 60 + sod div 60 mod 60) * 60 + sod mod 60)) * 1000000000 + int ns)"
    unfolding s(3)
  proof (rule parse_rfc3339_text [OF _ _ _ _ _ _ _ _ _ _ _ _ frac])
    show "field_value (pad_nat 4 (nat y)) 0 9999 = Some (nat y)"
      using s(1,2) by (intro field_value_pad_nat) simp_all
    show "field_value (pad_nat 2 m) 1 12 = Some m" using dd(1,2) by (intro field_value_pad_nat) simp_all
    show "field_value (pad_nat 2 (nat dd)) 1 (nat (days_in_month (int (nat y)) m)) = Some (nat dd)"
      using dm s(1) by (intro field_value_pad_nat) simp_all
    show "field_value (pad_nat 2 (sod div 3600)) 0 23 = Some (sod div 3600)"
      using sod by (intro field_value_pad_nat) (simp_all add: less_mult_imp_div_less)
    show "field_value (pad_nat 2 (sod div 60 mod 60)) 0 59 = Some (sod div 60 mod 60)"
      by (intro field_value_pad_nat) (simp_all add: order_less_le_trans [OF mod_less_divisor] less_Suc_eq_le [symmetric])
    show "field_value (pad_nat 2 (sod mod 60)) 0 59 = Some (sod mod 60)"
      by (intro field_value_pad_nat) (simp_all add: order_less_le_trans [OF mod_less_divisor] less_Suc_eq_le [symmetric])
  qed simp_all
  also have "\<dots> = Some ((day * 86400 + int sod) * 1000000000 + int ns)"
    using dd(3,5) s(1) by (simp only: clock_recompose le0) simp
  also have "(day * 86400 + int sod) * 1000000000 + int ns = t"
    by (simp add: day_def sod_def ns_def secs_def)
  finally show ?thesis .
qed

end
