(* ===== verification/Wire.thy ===== *)
theory Wire
  imports Protocol Json_Decode Go_Date
begin

text \<open>
  The wire format of \<open>internal/protocol\<close>: \<open>Event\<close> and \<open>StreamResponse\<close> under the rules of
  their struct tags. Encoding: the fields in the order of the struct, without those that are
  \<open>omitempty\<close> and empty, a map with its keys sorted. Decoding: \<open>Json_Decode\<close>; a value of the
  wrong type is an error. Parameter: the laxer \<open>time.Parse\<close> that \<open>UnmarshalJSON\<close> falls back to.
\<close>

section \<open>Encoding\<close>

definition omit_str :: "gostring \<Rightarrow> gostring \<Rightarrow> (gostring \<times> json) list" where
  "omit_str k s = (if s = [] then [] else [(k, json_str s)])"

definition time_json :: "time \<Rightarrow> json option" where
  "time_json t = map_option (\<lambda>s. JString s s) (format_time t)"

definition map_json :: "(gostring \<times> gostring) list \<Rightarrow> json" where
  "map_json m = JObject (map (\<lambda>(k, v). (k, json_str v)) (sort_key fst m))"

definition event_members :: "event \<Rightarrow> json \<Rightarrow> (gostring \<times> json) list" where
  "event_members e ts =
     [(''version'', JNumber (format_int (ev_version e))), (''type'', json_str (ev_type e)),
      (''run_id'', json_str (ev_run_id e)), (''timestamp'', ts)]
     @ omit_str ''channel_id'' (ev_channel_id e)
     @ omit_str ''name'' (ev_name e)
     @ (if ev_command e = [] then [] else [(''command'', JArray (map json_str (ev_command e)))])
     @ (if ev_shell e then [(''shell'', JBool True)] else [])
     @ omit_str ''hostname'' (ev_hostname e)
     @ omit_str ''working_directory'' (ev_working_directory e)
     @ (if ev_environment e = [] then [] else [(''environment'', map_json (ev_environment e))])
     @ omit_str ''stream'' (ev_stream e)
     @ omit_str ''data'' (ev_data e)
     @ (case ev_exit_code e of None \<Rightarrow> [] | Some c \<Rightarrow> [(''exit_code'', JNumber (format_int c))])
     @ omit_str ''error'' (ev_error e)"

definition event_json :: "event \<Rightarrow> json option" where
  "event_json e = map_option (\<lambda>ts. JObject (event_members e ts)) (time_json (ev_timestamp e))"

definition response_members :: "stream_response \<Rightarrow> (gostring \<times> json) list" where
  "response_members r =
     [(''run_id'', json_str (rs_run_id r)), (''accepted'', JBool (rs_accepted r))]
     @ (if rs_dropped_bytes r = 0 then [] else [(''dropped_bytes'', JNumber (format_int (rs_dropped_bytes r)))])
     @ omit_str ''error'' (rs_error r)"

definition response_json :: "stream_response \<Rightarrow> json option" where
  "response_json r = Some (JObject (response_members r))"

section \<open>Decoding\<close>

text \<open>\<open>Time.UnmarshalJSON\<close> looks at the literal.\<close>

fun dec_time :: "(gostring \<Rightarrow> time option) \<Rightarrow> time \<Rightarrow> json \<Rightarrow> time option" where
  "dec_time lenient old (JString lit v) =
     (case parse_rfc3339 lit of Some t \<Rightarrow> Some t | None \<Rightarrow> lenient lit)"
| "dec_time lenient old JNull = Some old"
| "dec_time lenient old _ = None"

definition event_fields :: "gostring list" where
  "event_fields =
     [''version'', ''type'', ''run_id'', ''timestamp'', ''channel_id'', ''name'', ''command'', ''shell'',
      ''hostname'', ''working_directory'', ''environment'', ''stream'', ''data'', ''exit_code'', ''error'']"

text \<open>One member; the state is the event and the backing array of its command.\<close>

definition set_event_field ::
    "(gostring \<Rightarrow> time option) \<Rightarrow> gostring \<Rightarrow> json \<Rightarrow> event \<times> gostring list \<Rightarrow> (event \<times> gostring list) option"
where
  "set_event_field lenient f j = (\<lambda>(e, b).
     if f = ''version'' then map_option (\<lambda>x. (e\<lparr>ev_version := x\<rparr>, b)) (dec_int (ev_version e) j)
     else if f = ''type'' then map_option (\<lambda>x. (e\<lparr>ev_type := x\<rparr>, b)) (dec_string (ev_type e) j)
     else if f = ''run_id'' then map_option (\<lambda>x. (e\<lparr>ev_run_id := x\<rparr>, b)) (dec_string (ev_run_id e) j)
     else if f = ''timestamp'' then map_option (\<lambda>x. (e\<lparr>ev_timestamp := x\<rparr>, b)) (dec_time lenient (ev_timestamp e) j)
     else if f = ''channel_id'' then map_option (\<lambda>x. (e\<lparr>ev_channel_id := x\<rparr>, b)) (dec_string (ev_channel_id e) j)
     else if f = ''name'' then map_option (\<lambda>x. (e\<lparr>ev_name := x\<rparr>, b)) (dec_string (ev_name e) j)
     else if f = ''command'' then map_option (\<lambda>(x, b'). (e\<lparr>ev_command := x\<rparr>, b')) (dec_strings b j)
     else if f = ''shell'' then map_option (\<lambda>x. (e\<lparr>ev_shell := x\<rparr>, b)) (dec_bool (ev_shell e) j)
     else if f = ''hostname'' then map_option (\<lambda>x. (e\<lparr>ev_hostname := x\<rparr>, b)) (dec_string (ev_hostname e) j)
     else if f = ''working_directory''
       then map_option (\<lambda>x. (e\<lparr>ev_working_directory := x\<rparr>, b)) (dec_string (ev_working_directory e) j)
     else if f = ''environment'' then map_option (\<lambda>x. (e\<lparr>ev_environment := x\<rparr>, b)) (dec_map (ev_environment e) j)
     else if f = ''stream'' then map_option (\<lambda>x. (e\<lparr>ev_stream := x\<rparr>, b)) (dec_string (ev_stream e) j)
     else if f = ''data'' then map_option (\<lambda>x. (e\<lparr>ev_data := x\<rparr>, b)) (dec_string (ev_data e) j)
     else if f = ''exit_code'' then map_option (\<lambda>x. (e\<lparr>ev_exit_code := x\<rparr>, b)) (dec_opt_int (ev_exit_code e) j)
     else map_option (\<lambda>x. (e\<lparr>ev_error := x\<rparr>, b)) (dec_string (ev_error e) j))"

definition decode_event :: "(gostring \<Rightarrow> time option) \<Rightarrow> json \<Rightarrow> event option" where
  "decode_event lenient j = map_option fst (dec_struct event_fields (set_event_field lenient) (zero_event, []) j)"

definition response_fields :: "gostring list" where
  "response_fields = [''run_id'', ''accepted'', ''dropped_bytes'', ''error'']"

definition set_response_field :: "gostring \<Rightarrow> json \<Rightarrow> stream_response \<Rightarrow> stream_response option" where
  "set_response_field f j r =
     (if f = ''run_id'' then map_option (\<lambda>x. r\<lparr>rs_run_id := x\<rparr>) (dec_string (rs_run_id r) j)
      else if f = ''accepted'' then map_option (\<lambda>x. r\<lparr>rs_accepted := x\<rparr>) (dec_bool (rs_accepted r) j)
      else if f = ''dropped_bytes'' then map_option (\<lambda>x. r\<lparr>rs_dropped_bytes := x\<rparr>) (dec_int (rs_dropped_bytes r) j)
      else map_option (\<lambda>x. r\<lparr>rs_error := x\<rparr>) (dec_string (rs_error r) j))"

definition decode_response :: "json \<Rightarrow> stream_response option" where
  "decode_response j = dec_struct response_fields set_response_field zero_response j"

section \<open>What arrives\<close>

definition wire_map :: "(gostring \<times> gostring) list \<Rightarrow> (gostring \<times> gostring) list" where
  "wire_map m = fold (\<lambda>(k, v). AList.update (to_valid k) (to_valid v)) (sort_key fst m) []"

definition wire_event :: "event \<Rightarrow> event" where
  "wire_event e =
     \<lparr>ev_version = ev_version e, ev_type = to_valid (ev_type e), ev_run_id = to_valid (ev_run_id e),
      ev_timestamp = ev_timestamp e, ev_channel_id = to_valid (ev_channel_id e), ev_name = to_valid (ev_name e),
      ev_command = map to_valid (ev_command e), ev_shell = ev_shell e, ev_hostname = to_valid (ev_hostname e),
      ev_working_directory = to_valid (ev_working_directory e), ev_environment = wire_map (ev_environment e),
      ev_stream = to_valid (ev_stream e), ev_data = to_valid (ev_data e), ev_exit_code = ev_exit_code e,
      ev_error = to_valid (ev_error e)\<rparr>"

definition wire_response :: "stream_response \<Rightarrow> stream_response" where
  "wire_response r =
     \<lparr>rs_run_id = to_valid (rs_run_id r), rs_accepted = rs_accepted r,
      rs_dropped_bytes = rs_dropped_bytes r, rs_error = to_valid (rs_error r)\<rparr>"

definition event_int64 :: "event \<Rightarrow> bool" where
  "event_int64 e \<longleftrightarrow> int64 (ev_version e) \<and> (case ev_exit_code e of None \<Rightarrow> True | Some c \<Rightarrow> int64 c)"

lemma dec_omit_str:
  assumes "k \<in> set names" "is_ascii k" "f k (json_str x) s = Some s'" "x = [] \<Longrightarrow> s' = s"
  shows "dec_members names f (norm_members (omit_str k x)) s = Some s'"
  using assms dec_member [of k names f "json_str x" s s'] by (cases "x = []") (simp_all add: omit_str_def)

lemma norm_map_json:
  "norm_json (map_json m) = JObject (map (\<lambda>(k, v). (to_valid k, json_str v)) (sort_key fst m))"
  by (simp add: map_json_def case_prod_unfold comp_def)

lemma dec_map_json: "dec_map [] (norm_json (map_json m)) = Some (wire_map m)"
  by (simp add: norm_map_json dec_entries_strs wire_map_def)

lemma norm_strs: "map (norm_json \<circ> json_str) ss = map json_str ss"
  by simp

lemma digit_html_safe: "is_digit c \<Longrightarrow> html_safe c"
  by (auto simp: is_digit_def html_safe_def)

lemma pad_nat_html_safe [simp]: "list_all html_safe (pad_nat k n)"
  using pad_nat_digits [of k n] digit_html_safe by (auto simp: list_all_iff)

lemma html_safe_punctuation:
  "html_safe (CHR ''-'')" "html_safe (CHR '':'')" "html_safe (CHR ''.'')" "html_safe (CHR ''T'')" "html_safe (CHR ''Z'')"
  by (simp_all add: html_safe_def)

lemma nano_text_html_safe: "list_all html_safe (nano_text ns)"
proof -
  have "html_safe c" if "c \<in> set (dropWhile (\<lambda>c. c = CHR ''0'') (rev (pad_nat 9 ns)))" for c
    using set_dropWhileD [OF that] pad_nat_html_safe [of 9 ns] by (auto simp: list_all_iff)
  then show ?thesis by (simp add: nano_text_def list_all_iff html_safe_punctuation)
qed

lemma format_time_html_safe: "format_time t = Some s \<Longrightarrow> list_all html_safe s"
  using nano_text_html_safe
  by (auto simp: format_time_def clock_text_def Let_def html_safe_punctuation
      split: prod.splits if_splits)

lemma event_fields_ascii: "list_all is_ascii event_fields"
  by (simp add: event_fields_def is_ascii_def)

lemma wire_map_Nil [simp]: "wire_map [] = []"
  by (simp add: wire_map_def)

lemma event_no_updates:
  "ev_channel_id e = [] \<Longrightarrow> e\<lparr>ev_channel_id := []\<rparr> = e"
  "ev_name e = [] \<Longrightarrow> e\<lparr>ev_name := []\<rparr> = e"
  "ev_command e = [] \<Longrightarrow> e\<lparr>ev_command := []\<rparr> = e"
  "\<not> ev_shell e \<Longrightarrow> e\<lparr>ev_shell := False\<rparr> = e"
  "ev_hostname e = [] \<Longrightarrow> e\<lparr>ev_hostname := []\<rparr> = e"
  "ev_working_directory e = [] \<Longrightarrow> e\<lparr>ev_working_directory := []\<rparr> = e"
  "ev_environment e = [] \<Longrightarrow> e\<lparr>ev_environment := []\<rparr> = e"
  "ev_stream e = [] \<Longrightarrow> e\<lparr>ev_stream := []\<rparr> = e"
  "ev_data e = [] \<Longrightarrow> e\<lparr>ev_data := []\<rparr> = e"
  "ev_exit_code e = None \<Longrightarrow> e\<lparr>ev_exit_code := None\<rparr> = e"
  "ev_error e = [] \<Longrightarrow> e\<lparr>ev_error := []\<rparr> = e"
  by simp_all

lemma zero_event_simps [simp]:
  "ev_version zero_event = 0" "ev_type zero_event = []" "ev_run_id zero_event = []" "ev_timestamp zero_event = 0"
  "ev_channel_id zero_event = []" "ev_name zero_event = []" "ev_command zero_event = []" "\<not> ev_shell zero_event"
  "ev_hostname zero_event = []" "ev_working_directory zero_event = []" "ev_environment zero_event = []"
  "ev_stream zero_event = []" "ev_data zero_event = []" "ev_exit_code zero_event = None" "ev_error zero_event = []"
  by (simp_all add: zero_event_def)

text \<open>The members of an event one after the other.\<close>

abbreviation take_members ::
    "(gostring \<Rightarrow> time option) \<Rightarrow> (gostring \<times> json) list \<Rightarrow> event \<times> gostring list \<Rightarrow> (event \<times> gostring list) option"
where
  "take_members lenient ms \<equiv> dec_members event_fields (set_event_field lenient) (norm_members ms)"

lemma take_head:
  assumes "int64 (ev_version e)" "format_time (ev_timestamp e) = Some s"
  shows "take_members lenient
      [(''version'', JNumber (format_int (ev_version e))), (''type'', json_str (ev_type e)),
       (''run_id'', json_str (ev_run_id e)), (''timestamp'', JString s s)] (d, b)
    = Some (d\<lparr>ev_version := ev_version e, ev_type := to_valid (ev_type e), ev_run_id := to_valid (ev_run_id e),
         ev_timestamp := ev_timestamp e\<rparr>, b)"
  using assms
  by (simp add: find_field_def event_fields_def set_event_field_def is_ascii_def parse_format_time)

lemma take_strs:
  "ev_channel_id d = [] \<Longrightarrow> take_members lenient (omit_str ''channel_id'' x) (d, b) = Some (d\<lparr>ev_channel_id := to_valid x\<rparr>, b)"
  "ev_name d = [] \<Longrightarrow> take_members lenient (omit_str ''name'' x) (d, b) = Some (d\<lparr>ev_name := to_valid x\<rparr>, b)"
  "ev_hostname d = [] \<Longrightarrow> take_members lenient (omit_str ''hostname'' x) (d, b) = Some (d\<lparr>ev_hostname := to_valid x\<rparr>, b)"
  "ev_working_directory d = [] \<Longrightarrow>
     take_members lenient (omit_str ''working_directory'' x) (d, b) = Some (d\<lparr>ev_working_directory := to_valid x\<rparr>, b)"
  "ev_stream d = [] \<Longrightarrow> take_members lenient (omit_str ''stream'' x) (d, b) = Some (d\<lparr>ev_stream := to_valid x\<rparr>, b)"
  "ev_data d = [] \<Longrightarrow> take_members lenient (omit_str ''data'' x) (d, b) = Some (d\<lparr>ev_data := to_valid x\<rparr>, b)"
  "ev_error d = [] \<Longrightarrow> take_members lenient (omit_str ''error'' x) (d, b) = Some (d\<lparr>ev_error := to_valid x\<rparr>, b)"
  by (rule dec_omit_str; simp add: event_fields_def is_ascii_def set_event_field_def)+

lemma take_command:
  "ev_command d = [] \<Longrightarrow>
     take_members lenient (if c = [] then [] else [(''command'', JArray (map json_str c))]) (d, [])
       = Some (d\<lparr>ev_command := map to_valid c\<rparr>, map to_valid c)"
  by (cases "c = []")
    (simp_all add: event_fields_def is_ascii_def set_event_field_def find_field_def dec_elements_strs
      norm_strs)

lemma take_shell:
  "\<not> ev_shell d \<Longrightarrow>
     take_members lenient (if sh then [(''shell'', JBool True)] else []) (d, b) = Some (d\<lparr>ev_shell := sh\<rparr>, b)"
  by (simp add: event_fields_def is_ascii_def set_event_field_def find_field_def)

lemma take_environment:
  "ev_environment d = [] \<Longrightarrow>
     take_members lenient (if m = [] then [] else [(''environment'', map_json m)]) (d, b)
       = Some (d\<lparr>ev_environment := wire_map m\<rparr>, b)"
  by (simp add: event_fields_def is_ascii_def set_event_field_def find_field_def dec_map_json)

lemma take_exit_code:
  "ev_exit_code d = None \<Longrightarrow> (case c of None \<Rightarrow> True | Some i \<Rightarrow> int64 i) \<Longrightarrow>
     take_members lenient (case c of None \<Rightarrow> [] | Some i \<Rightarrow> [(''exit_code'', JNumber (format_int i))]) (d, b)
       = Some (d\<lparr>ev_exit_code := c\<rparr>, b)"
  by (cases c) (simp_all add: event_fields_def is_ascii_def set_event_field_def find_field_def)

lemma take_append:
  "take_members lenient xs st = Some st1 \<Longrightarrow> take_members lenient ys st1 = r \<Longrightarrow> take_members lenient (xs @ ys) st = r"
  by (simp add: dec_members_append)

lemma take_event:
  assumes "event_int64 e" "format_time (ev_timestamp e) = Some s"
  shows "take_members lenient (event_members e (JString s s)) (zero_event, [])
    = Some (wire_event e, map to_valid (ev_command e))"
proof -
  have int: "int64 (ev_version e)" "case ev_exit_code e of None \<Rightarrow> True | Some c \<Rightarrow> int64 c"
    using assms(1) by (simp_all add: event_int64_def)
  have w: "wire_event e =
    (zero_event\<lparr>ev_version := ev_version e, ev_type := to_valid (ev_type e), ev_run_id := to_valid (ev_run_id e),
       ev_timestamp := ev_timestamp e, ev_channel_id := to_valid (ev_channel_id e), ev_name := to_valid (ev_name e),
       ev_command := map to_valid (ev_command e), ev_shell := ev_shell e, ev_hostname := to_valid (ev_hostname e),
       ev_working_directory := to_valid (ev_working_directory e), ev_environment := wire_map (ev_environment e),
       ev_stream := to_valid (ev_stream e), ev_data := to_valid (ev_data e), ev_exit_code := ev_exit_code e,
       ev_error := to_valid (ev_error e)\<rparr>)"
    by (simp add: wire_event_def zero_event_def)
  show ?thesis
    unfolding w event_members_def
    by (rule take_append [OF take_head [OF int(1) assms(2)]] take_append [OF take_strs(1)]
        take_append [OF take_strs(2)] take_append [OF take_command] take_append [OF take_shell]
        take_append [OF take_strs(3)] take_append [OF take_strs(4)] take_append [OF take_environment]
        take_append [OF take_strs(5)] take_append [OF take_strs(6)] take_append [OF take_exit_code [OF _ int(2)]]
        take_strs(7) | (simp; fail))+
qed

lemma decode_event_members:
  assumes "event_int64 e" "format_time (ev_timestamp e) = Some s"
  shows "decode_event lenient (norm_json (JObject (event_members e (JString s s)))) = Some (wire_event e)"
  using take_event [OF assms] by (simp add: decode_event_def)

lemma take_response:
  assumes "int64 (rs_dropped_bytes r)"
  shows "decode_response (norm_json (JObject (response_members r))) = Some (wire_response r)"
  using assms
  by (cases r)
    (simp add: decode_response_def response_members_def response_fields_def set_response_field_def find_field_def
      is_ascii_def omit_str_def zero_response_def wire_response_def)

section \<open>Both directions as streams\<close>

lemma omit_str_printable: "list_all (\<lambda>(k, v). printable d v) (omit_str k x)"
  by (simp add: omit_str_def json_unquote_escape)

lemma map_json_printable: "0 < d \<Longrightarrow> printable d (map_json m)"
  by (simp add: map_json_def list_all_iff json_unquote_escape case_prod_unfold)

lemma event_members_printable:
  "list_all html_safe s \<Longrightarrow> 0 < d \<Longrightarrow> list_all (\<lambda>(k, v). printable d v) (event_members e (JString s s))"
  using printable_safe [of s d] printable_int [of d] printable_json_str [of d] omit_str_printable [of d] map_json_printable [of d]
  by (simp add: event_members_def list.pred_map comp_def list.pred_True del: printable.simps(3,4) split: option.split)

lemma event_json_Some:
  assumes "event_json e = Some j"
  obtains s where "format_time (ev_timestamp e) = Some s" "j = JObject (event_members e (JString s s))"
  using assms by (auto simp: event_json_def time_json_def)

interpretation event_lines: json_lines event_json "decode_event lenient" wire_event event_int64 for lenient
proof
  fix e j assume j: "event_json e = Some j"
  then obtain s where s: "format_time (ev_timestamp e) = Some s" "j = JObject (event_members e (JString s s))"
    by (rule event_json_Some)
  show "composite j" by (simp add: s)
  show "printable max_nesting_depth j"
    using event_members_printable [OF format_time_html_safe [OF s(1)]] by (simp add: s(2) max_nesting_depth_def)
  show "decode_event lenient (norm_json j) = Some (wire_event e)" if "event_int64 e"
    unfolding s(2) by (rule decode_event_members [OF that s(1)])
qed

interpretation response_lines: json_lines response_json decode_response wire_response "\<lambda>r. int64 (rs_dropped_bytes r)"
proof
  fix r j assume j: "response_json r = Some j"
  show "composite j" using j by (auto simp: response_json_def)
  show "printable max_nesting_depth j"
    using j omit_str_printable by (auto simp: response_json_def response_members_def max_nesting_depth_def json_unquote_escape
        simp del: printable.simps(3))
  show "decode_response (norm_json j) = Some (wire_response r)" if "int64 (rs_dropped_bytes r)"
    using j take_response [OF that] by (simp add: response_json_def)
qed

text \<open>Text that is valid UTF-8 arrives as it is; only the order of the environment changes.\<close>

definition valid_event :: "event \<Rightarrow> bool" where
  "valid_event e \<longleftrightarrow>
     list_all valid_utf8 [ev_type e, ev_run_id e, ev_channel_id e, ev_name e, ev_hostname e,
       ev_working_directory e, ev_stream e, ev_data e, ev_error e]
     \<and> list_all valid_utf8 (ev_command e)
     \<and> list_all (\<lambda>(k, v). valid_utf8 k \<and> valid_utf8 v) (ev_environment e)
     \<and> distinct (map fst (ev_environment e))"

lemma fold_update_distinct:
  assumes "distinct (map fst (m @ es))" "list_all (\<lambda>(k, v). valid_utf8 k \<and> valid_utf8 v) es"
  shows "fold (\<lambda>(k, v). AList.update (to_valid k) (to_valid v)) es m = m @ es"
  using assms
proof (induction es arbitrary: m)
  case (Cons x es)
  obtain k v where x: "x = (k, v)" by (cases x)
  have "AList.update k v m = m @ [(k, v)]"
  proof -
    have "k \<notin> fst ` set m" using Cons.prems(1) by (auto simp: x)
    then show ?thesis by (induction m) auto
  qed
  then show ?case using Cons.IH [of "m @ [(k, v)]"] Cons.prems by (simp add: x to_valid_id)
qed simp

lemma wire_map_valid:
  assumes "distinct (map fst m)" "list_all (\<lambda>(k, v). valid_utf8 k \<and> valid_utf8 v) m"
  shows "wire_map m = sort_key fst m"
proof -
  have "distinct (map fst (sort_key fst m))"
    using assms(1) by (simp add: distinct_map)
  then show ?thesis
    using fold_update_distinct [of "[]" "sort_key fst m"] assms(2) by (simp add: wire_map_def list_all_iff)
qed

lemma wire_event_valid:
  assumes "valid_event e"
  shows "wire_event e = e\<lparr>ev_environment := sort_key fst (ev_environment e)\<rparr>"
proof -
  have "map to_valid (ev_command e) = ev_command e"
    using assms by (intro map_idI) (auto simp: valid_event_def list_all_iff to_valid_id)
  then show ?thesis
    using assms wire_map_valid [of "ev_environment e"]
    by (simp add: valid_event_def wire_event_def to_valid_id)
qed

section \<open>Properties\<close>

text \<open>C4: The daemon's decoder reads back the events that the wrapper's encoder wrote, in order and
  nothing else, each with its text turned into valid UTF-8; an event whose text is valid and whose
  environment is sorted arrives unchanged.\<close>

theorem events_round_trip:
  assumes "list_all (\<lambda>e. encode_line event_json e \<noteq> None \<and> event_int64 e) es"
  shows "decode_stream (decode_event lenient) bad Closed (encode_lines event_json es) = map (Inr \<circ> wire_event) es
    \<and> (\<forall>e. valid_event e \<longrightarrow> wire_event e = e\<lparr>ev_environment := sort_key fst (ev_environment e)\<rparr>)"
proof -
  have "list_all (\<lambda>e. event_json e \<noteq> None \<and> event_int64 e) es"
    using assms by (simp add: encode_line_def)
  from event_lines.stream_reads_back [OF this, of "[]"] show ?thesis
    using wire_event_valid by simp
qed

lemma events_round_trip_witness:
  "decode_stream (decode_event (\<lambda>_. None)) (\<lambda>_ _. []) Closed
     (encode_lines event_json [zero_event\<lparr>ev_timestamp := 86400000000000\<rparr>, zero_event])
   = [Inr (wire_event (zero_event\<lparr>ev_timestamp := 86400000000000\<rparr>)), Inr (wire_event zero_event)]"
proof -
  have "format_time 86400000000000 \<noteq> None" "format_time 0 \<noteq> None" by code_simp+
  then show ?thesis
    using events_round_trip [of "[zero_event\<lparr>ev_timestamp := 86400000000000\<rparr>, zero_event]"]
    by (auto simp: encode_line_def event_json_def time_json_def event_int64_def int64_def)
qed

text \<open>C5: When an upload is cut after any number of bytes, the daemon decodes exactly the events
  whose text is complete, and then an error if the connection broke, or at most an error if it
  was closed: a cut never makes up an event.\<close>

theorem cut_upload_decoded:
  assumes "list_all (\<lambda>e. encode_line event_json e \<noteq> None \<and> event_int64 e) es"
  shows "\<exists>k rest. decode_stream (decode_event lenient) bad e (take n (encode_lines event_json es))
       = map (Inr \<circ> wire_event) (take k es) @ rest
     \<and> (rest = [] \<and> e = Closed \<or> (\<exists>err. rest = [Inl err]))
     \<and> k \<le> length es \<and> length (encode_lines event_json (take k es)) \<le> n + 1
     \<and> (k = length es \<or> n + 1 < length (encode_lines event_json (take (Suc k) es)))"
proof -
  have "list_all (\<lambda>e. event_json e \<noteq> None \<and> event_int64 e) es"
    using assms by (simp add: encode_line_def)
  from event_lines.cut_stream [OF this, of "[]" lenient bad e n]
  obtain k rest where "decode_stream (decode_event lenient) bad e (take n (encode_lines event_json es))
       = map (Inr \<circ> wire_event) (take k es) @ rest"
    "ends_with_error e rest" "k \<le> length es" "length (encode_lines event_json (take k es)) \<le> n + 1"
    "k < length es \<longrightarrow> n + 1 < length (encode_lines event_json (take (Suc k) es))" by auto
  then show ?thesis
    unfolding ends_with_error_def by (intro exI [of _ k] exI [of _ rest]) auto
qed

lemma cut_upload_decoded_witness:
  "\<exists>k rest. decode_stream (decode_event (\<lambda>_. None)) (\<lambda>_ _. []) (Broken ''reset'') (take 5 (encode_lines event_json [zero_event]))
     = map (Inr \<circ> wire_event) (take k [zero_event]) @ rest"
proof -
  have "format_time 0 \<noteq> None" by code_simp
  then show ?thesis
    using cut_upload_decoded [of "[zero_event]" "\<lambda>_. None" "\<lambda>_ _. []" "Broken ''reset''" 5]
    by (auto simp: encode_line_def event_json_def time_json_def event_int64_def int64_def)
qed

text \<open>The wrapper's client reads back the daemon's reply.\<close>

lemma response_round_trip:
  assumes "int64 (rs_dropped_bytes r)"
  shows "\<exists>l. encode_line response_json r = Some l \<and> unmarshal decode_response bad l = Inr (wire_response r)"
  using response_lines.line_unmarshals [OF _ assms]
  by (simp add: encode_line_def response_json_def)

lemma response_round_trip_witness:
  "\<exists>l. encode_line response_json (zero_response\<lparr>rs_error := ''unauthorized''\<rparr>) = Some l
     \<and> unmarshal decode_response (\<lambda>_. []) l = Inr (wire_response (zero_response\<lparr>rs_error := ''unauthorized''\<rparr>))"
  by (rule response_round_trip) (simp add: zero_response_def int64_def)

end
