(* ===== verification/Daemon_Body.thy ===== *)
theory Daemon_Body
  imports Daemon_Server Wire
begin

text \<open>
  The stream handler on the bytes of a request. \<open>decode_body\<close> is what \<open>json.NewDecoder\<close> over
  \<open>http.MaxBytesReader\<close> delivers, \<open>body_request\<close> turns it into the request of
  \<open>Daemon_Server\<close> under an interleaving with the batcher, and \<open>serve_stream\<close> is the handler
  from the bytes of the body to the bytes of the reply. The body ends with \<open>io.EOF\<close> or breaks.
\<close>

definition decode_body ::
    "(gostring \<Rightarrow> time option) \<Rightarrow> (body_end \<Rightarrow> gostring \<Rightarrow> gostring) \<Rightarrow> config \<Rightarrow> gostring \<times> body_end \<Rightarrow> decoded list"
where
  "decode_body lenient bad cfg body =
     (case max_bytes_reader (max_stream_bytes cfg) body of
        (s, e) \<Rightarrow> decode_stream (decode_event lenient) bad e s)"

definition body_request ::
    "gostring \<Rightarrow> (nat \<Rightarrow> background list) \<Rightarrow> background list \<Rightarrow> background list \<Rightarrow> decoded list \<Rightarrow> request"
where
  "body_request auth bgs at_eof closing ds =
     \<lparr>rq_authorization = auth, rq_start = (case ds of [] \<Rightarrow> None | d # _ \<Rightarrow> Some d),
      rq_items = zip (map bgs [0..<length (tl ds)]) (tl ds), rq_at_eof = at_eof, rq_closing = closing\<rparr>"

text \<open>\<open>writeJSON\<close>: the status and the encoded reply.\<close>

definition write_reply :: "reply \<Rightarrow> int \<times> gostring" where
  "write_reply = (\<lambda>(status, resp). (status, case encode_line response_json resp of Some l \<Rightarrow> l | None \<Rightarrow> []))"

definition serve_stream ::
    "(gostring \<Rightarrow> gostring) \<Rightarrow> (gostring \<Rightarrow> gostring) \<Rightarrow> (gostring \<Rightarrow> time option)
      \<Rightarrow> (body_end \<Rightarrow> gostring \<Rightarrow> gostring) \<Rightarrow> config \<Rightarrow> 'w send \<Rightarrow> nat \<Rightarrow> gostring
      \<Rightarrow> (nat \<Rightarrow> background list) \<Rightarrow> background list \<Rightarrow> background list \<Rightarrow> gostring \<times> body_end
      \<Rightarrow> server_state \<times> 'w \<Rightarrow> (server_state \<times> 'w) \<times> int \<times> gostring"
where
  "serve_stream sha256 quote lenient bad cfg send h auth bgs at_eof closing body s =
     (case handle_stream sha256 quote cfg send h
             (body_request auth bgs at_eof closing (decode_body lenient bad cfg body)) s of
        (s', reply) \<Rightarrow> (s', write_reply reply))"

lemma body_request_simps [simp]:
  "rq_authorization (body_request auth bgs at_eof closing ds) = auth"
  "map snd (rq_items (body_request auth bgs at_eof closing ds)) = tl ds"
  "rq_start (body_request auth bgs at_eof closing (d # ds)) = Some d"
  by (simp_all add: body_request_def)

text \<open>A body that breaks ends in an error, and so does one over the limit.\<close>

lemma decode_stream_broken:
  "\<exists>ds err. decode_stream dec bad (Broken e) s = ds @ [Inl err]"
proof (induction dec bad "Broken e" s rule: decode_stream.induct)
  case (1 dec bad s)
  show ?case
  proof (cases "skip_space s = []")
    case True
    then show ?thesis by (simp add: decode_stream.simps [of dec bad _ s])
  next
    case False
    show ?thesis
    proof (cases "json_value max_nesting_depth s")
      case None
      then show ?thesis using False by (simp add: decode_stream.simps [of dec bad _ s])
    next
      case (Some p)
      obtain j r where p: "p = (j, r)" by (cases p)
      show ?thesis
      proof (cases "r = [] \<and> \<not> composite j")
        case True
        then show ?thesis using False Some p by (simp add: decode_stream.simps [of dec bad _ s])
      next
        case whole: False
        show ?thesis
        proof (cases "dec j")
          case None
          then show ?thesis using False Some p whole by (simp add: decode_stream.simps [of dec bad _ s])
        next
          case (Some x)
          then obtain ds err where "decode_stream dec bad (Broken e) r = ds @ [Inl err]"
            using 1 False \<open>json_value max_nesting_depth s = Some p\<close> p whole by (metis (full_types))
          then have "decode_stream dec bad (Broken e) s = (Inr x # ds) @ [Inl err]"
            using False \<open>json_value max_nesting_depth s = Some p\<close> p whole Some
            by (simp add: decode_stream.simps [of dec bad _ s])
          then show ?thesis by blast
        qed
      qed
    qed
  qed
qed

lemma decode_body_broken:
  assumes "snd body \<noteq> Closed \<or> max_stream_bytes cfg < int (length (fst body))"
  shows "\<exists>ds err. decode_body lenient bad cfg body = ds @ [Inl err]"
proof -
  obtain s e where m: "max_bytes_reader (max_stream_bytes cfg) body = (s, Broken e)"
    using assms by (cases body; cases "snd body"; cases "int (length (fst body)) \<le> max_stream_bytes cfg")
      (auto simp: max_bytes_reader_def)
  then show ?thesis using decode_stream_broken by (simp add: decode_body_def)
qed

lemma error_not_well_formed:
  assumes "ds = xs @ [Inl err]" "well_formed_stream start (rq_items (body_request auth bgs at_eof closing ds))"
  shows "tl ds = []"
proof (rule ccontr)
  assume "tl ds \<noteq> []"
  then have "Inl err \<in> set (tl ds)" using assms(1) by (cases xs) auto
  then have "Inl err \<in> snd ` set (rq_items (body_request auth bgs at_eof closing ds))"
    by (metis body_request_simps(2) list.set_map)
  then show False using assms(2) by (auto simp: well_formed_stream_def list_all_iff)
qed

lemma relay_run_200:
  "relay_run quote cfg send rq w = (w', st, resp) \<Longrightarrow> st = 200 \<longleftrightarrow> rs_accepted resp"
proof (erule relay_run_cases)
  fix start w1 b1 w2 exit err b w3
  assume "close_batcher (batcher_config_for cfg start) send (map background_op (rq_closing rq)) (b1, w2) = (b, w3)"
    "finish_stream (batcher_config_for cfg start) send start (rq_closing rq) (b1, w2) exit err = (w', st, resp)"
  then show "st = 200 \<longleftrightarrow> rs_accepted resp" by (rule finish_stream_reply(3) [rotated])
qed auto

lemma accepted_stream:
  assumes "config_ok cfg" "rs_accepted resp"
    "handle_stream sha256 quote cfg (discord_send lib env) h rq (sv, w) = ((sv', w'), st, resp)"
  obtains start where "rq_start rq = Some (Inr start)" "well_formed_stream start (rq_items rq)"
    "exits_of (rq_items rq) \<noteq> []"
proof -
  have "relay_run quote cfg (discord_send lib env) rq w = (w', st, resp)"
    using assms(2,3) by (auto simp: handle_stream_def reject_def zero_response_def split: prod.splits option.splits)
  then show thesis
    by (rule ds.relay_run_accepted [OF _ assms(2,1)]) (rule that, simp_all add: admitted_def)
qed

lemma handle_stream_200:
  assumes "handle_stream sha256 quote cfg send h rq (sv, w) = ((sv', w'), st, resp)"
  shows "st = 200 \<longleftrightarrow> rs_accepted resp"
proof (cases "arrive sha256 cfg h (rq_authorization rq) sv")
  case (Pair sv1 r)
  then show ?thesis
    using assms relay_run_200 [of quote cfg send rq w w' st resp]
    by (auto simp: handle_stream_def arrive_def reject_def zero_response_def split: prod.splits if_splits)
qed

section \<open>Properties\<close>

text \<open>C9: An upload that breaks off, or that is longer than the limit on a stream, is never reported
  as relayed: whatever its bytes are, the reply is not 200 and does not accept the run.\<close>

theorem incomplete_upload_refused:
  assumes "config_ok cfg" "snd body \<noteq> Closed \<or> max_stream_bytes cfg < int (length (fst body))"
    "handle_stream sha256 quote cfg (discord_send lib env) h
       (body_request auth bgs at_eof closing (decode_body lenient bad cfg body)) (sv, w) = ((sv', w'), st, resp)"
  shows "\<not> rs_accepted resp \<and> st \<noteq> 200"
proof -
  have "\<not> rs_accepted resp"
  proof
    assume acc: "rs_accepted resp"
    define ds where "ds = decode_body lenient bad cfg body"
    obtain xs err where ds: "ds = xs @ [Inl err]" using decode_body_broken [OF assms(2)] unfolding ds_def by metis
    obtain start where "rq_start (body_request auth bgs at_eof closing ds) = Some (Inr start)"
      and wf: "well_formed_stream start (rq_items (body_request auth bgs at_eof closing ds))"
      by (rule accepted_stream [OF assms(1) acc assms(3) [folded ds_def]])
    moreover have "tl ds = []" using ds wf by (rule error_not_well_formed)
    ultimately show False using ds by (cases xs) (auto simp: body_request_def)
  qed
  then show ?thesis using handle_stream_200 [OF assms(3)] by simp
qed

lemma incomplete_upload_refused_witness:
  "\<exists>s' st resp. handle_stream (\<lambda>x. x) (\<lambda>x. x) sample_config (discord_send sample_lib ok_env) 1
     (body_request ''Bearer s'' (\<lambda>_. []) [] [] (decode_body (\<lambda>_. None) (\<lambda>_ _. []) sample_config (''{'', Broken ''reset'')))
     (new_server, sample_sender) = (s', st, resp) \<and> \<not> rs_accepted resp"
proof -
  obtain sv' w' st resp where h: "handle_stream (\<lambda>x. x) (\<lambda>x. x) sample_config (discord_send sample_lib ok_env) 1
     (body_request ''Bearer s'' (\<lambda>_. []) [] [] (decode_body (\<lambda>_. None) (\<lambda>_ _. []) sample_config (''{'', Broken ''reset'')))
     (new_server, sample_sender) = ((sv', w'), st, resp)"
    by (metis prod.collapse)
  then show ?thesis using incomplete_upload_refused [OF sample_config_ok _ h] by simp
qed

end
