(* ===== verification/Daemon_Http.thy ===== *)
theory Daemon_Http
  imports Daemon_Body
begin

text \<open>
  What surrounds the stream handler in \<open>internal/daemon/server.go\<close>: the routes that
  \<open>NewServer\<close> registers with \<open>http.ServeMux\<close>, the health endpoint and the options of the HTTP
  server. A path reaches the router in its escaped form; the router redirects a path that is
  not clean, and compares unescaped segments.
\<close>

section \<open>Routing\<close>

fun clean_segments :: "gostring list \<Rightarrow> gostring list \<Rightarrow> gostring list" where
  "clean_segments acc [] = rev acc"
| "clean_segments acc (s # ss) =
     (if s = [] \<or> s = ''.'' then clean_segments acc ss
      else if s = ''..'' then clean_segments (tl acc) ss
      else clean_segments (s # acc) ss)"

text \<open>\<open>cleanPath\<close>: \<open>path.Clean\<close> of the rooted path, with a trailing slash kept.\<close>

definition clean_path :: "gostring \<Rightarrow> gostring" where
  "clean_path p =
     (if p = [] then ''/''
      else
        (let p = (if hd p = CHR ''/'' then p else CHR ''/'' # p);
             np = CHR ''/'' # join_with ''/'' (clean_segments [] (split_on CHR ''/'' (tl p)))
         in if last p = CHR ''/'' \<and> np \<noteq> ''/'' then np @ ''/'' else np))"

text \<open>\<open>url.PathUnescape\<close>, or the segment as it is when it cannot be unescaped.\<close>

fun percent_decode :: "gostring \<Rightarrow> gostring option" where
  "percent_decode [] = Some []"
| "percent_decode (c # cs) =
     (if c \<noteq> CHR ''%'' then map_option (Cons c) (percent_decode cs)
      else
        (case cs of
           a # b # rest \<Rightarrow>
             (case (hex_digit_val a, hex_digit_val b) of
                (Some x, Some y) \<Rightarrow> map_option (Cons (char_of (16 * x + y))) (percent_decode rest)
              | _ \<Rightarrow> None)
         | _ \<Rightarrow> None))"

definition path_unescape :: "gostring \<Rightarrow> gostring" where
  "path_unescape s = (case percent_decode s of Some t \<Rightarrow> t | None \<Rightarrow> s)"

definition path_segments :: "gostring \<Rightarrow> gostring list" where
  "path_segments p = map path_unescape (split_on CHR ''/'' (tl p))"

datatype route = Health | Stream | Redirect gostring | MethodNotAllowed | NotFound

text \<open>The two patterns of \<open>NewServer\<close>; a pattern with the method GET also matches HEAD.\<close>

definition route :: "gostring \<Rightarrow> gostring \<Rightarrow> route" where
  "route verb p =
     (if verb \<noteq> ''CONNECT'' \<and> clean_path p \<noteq> p then Redirect (clean_path p)
      else if path_segments p = [''healthz'']
      then (if verb = ''GET'' \<or> verb = ''HEAD'' then Health else MethodNotAllowed)
      else if path_segments p = [''v1'', ''runs'', ''stream'']
      then (if verb = ''POST'' then Stream else MethodNotAllowed)
      else NotFound)"

section \<open>The health endpoint and the server\<close>

text \<open>\<open>handleHealth\<close>: a map is encoded with its keys in order.\<close>

definition health_json :: json where
  "health_json = JObject [(''status'', json_str ''ok''), (''version'', JNumber (format_int protocol_version))]"

definition handle_health :: "int \<times> gostring" where
  "handle_health = (200, print_json health_json @ [NL])"

record http_server =
  hs_addr :: gostring
  hs_read_header_timeout :: duration
  hs_idle_timeout :: duration
  hs_max_header_bytes :: int

definition http_server_for :: "config \<Rightarrow> http_server" where
  "http_server_for cfg =
     \<lparr>hs_addr = listen_addr cfg, hs_read_header_timeout = 10 * second, hs_idle_timeout = 120 * second,
      hs_max_header_bytes = 2 ^ 20\<rparr>"

text \<open>One request to the server's handler; the replies of the router itself are not modelled further.\<close>

datatype http_reply = Reply int gostring | RouterReply route

definition serve_request ::
    "(gostring \<Rightarrow> gostring) \<Rightarrow> (gostring \<Rightarrow> gostring) \<Rightarrow> (gostring \<Rightarrow> time option)
      \<Rightarrow> (body_end \<Rightarrow> gostring \<Rightarrow> gostring) \<Rightarrow> config \<Rightarrow> 'w send \<Rightarrow> nat \<Rightarrow> gostring \<Rightarrow> gostring \<Rightarrow> gostring
      \<Rightarrow> (nat \<Rightarrow> background list) \<Rightarrow> background list \<Rightarrow> background list \<Rightarrow> gostring \<times> body_end
      \<Rightarrow> server_state \<times> 'w \<Rightarrow> (server_state \<times> 'w) \<times> http_reply"
where
  "serve_request sha256 quote lenient bad cfg send h verb p auth bgs at_eof closing body s =
     (case route verb p of
        Health \<Rightarrow> (case handle_health of (status, reply) \<Rightarrow> (s, Reply status reply))
      | Stream \<Rightarrow>
          (case serve_stream sha256 quote lenient bad cfg send h auth bgs at_eof closing body s of
             (s', status, reply) \<Rightarrow> (s', Reply status reply))
      | r \<Rightarrow> (s, RouterReply r))"

lemma route_health: "route ''GET'' ''/healthz'' = Health"
  by code_simp

lemma route_stream: "route ''POST'' ''/v1/runs/stream'' = Stream"
  by code_simp

lemma health_json_printable: "printable max_nesting_depth health_json"
  by (simp add: health_json_def max_nesting_depth_def json_unquote_escape del: printable.simps(3))

end
