(* ===== verification/Gateway_Payload.thy ===== *)
theory Gateway_Payload
  imports Json_Decode
begin

text \<open>
  The payloads that Discord sends to \<open>internal/discord/gateway.go\<close>, decoded as \<open>encoding/json\<close>
  decodes them into the structs there. A \<open>json.RawMessage\<close> is the parsed value, or nothing when
  the member is missing, which \<open>json.Unmarshal\<close> then refuses.
\<close>

record envelope =
  en_op :: int
  en_d :: "json option"
  en_s :: "int option"
  en_t :: gostring

definition zero_envelope :: envelope where
  "zero_envelope = \<lparr>en_op = 0, en_d = None, en_s = None, en_t = []\<rparr>"

definition envelope_fields :: "gostring list" where
  "envelope_fields = [''op'', ''d'', ''s'', ''t'']"

definition set_envelope_field :: "gostring \<Rightarrow> json \<Rightarrow> envelope \<Rightarrow> envelope option" where
  "set_envelope_field f j en =
     (if f = ''op'' then map_option (\<lambda>x. en\<lparr>en_op := x\<rparr>) (dec_int (en_op en) j)
      else if f = ''d'' then Some (en\<lparr>en_d := Some j\<rparr>)
      else if f = ''s'' then map_option (\<lambda>x. en\<lparr>en_s := x\<rparr>) (dec_opt_int (en_s en) j)
      else map_option (\<lambda>x. en\<lparr>en_t := x\<rparr>) (dec_string (en_t en) j))"

definition decode_envelope :: "json \<Rightarrow> envelope option" where
  "decode_envelope j = dec_struct envelope_fields set_envelope_field zero_envelope j"

text \<open>\<open>gatewayHello\<close>: the interval in milliseconds.\<close>

definition decode_hello :: "json \<Rightarrow> float64 option" where
  "decode_hello j = dec_struct [''heartbeat_interval''] (\<lambda>f j x. dec_float x j) (Finite 0) j"

text \<open>\<open>gatewayReady\<close>: the session ID and the URL to resume at.\<close>

definition ready_fields :: "gostring list" where
  "ready_fields = [''session_id'', ''resume_gateway_url'']"

definition set_ready_field :: "gostring \<Rightarrow> json \<Rightarrow> gostring \<times> gostring \<Rightarrow> (gostring \<times> gostring) option" where
  "set_ready_field f j = (\<lambda>(sid, url).
     if f = ''session_id'' then map_option (\<lambda>x. (x, url)) (dec_string sid j)
     else map_option (\<lambda>x. (sid, x)) (dec_string url j))"

definition decode_ready :: "json \<Rightarrow> (gostring \<times> gostring) option" where
  "decode_ready j = dec_struct ready_fields set_ready_field ([], []) j"

text \<open>\<open>gatewayBotResponse\<close>\<close>

definition decode_bot_url :: "json \<Rightarrow> gostring option" where
  "decode_bot_url j = dec_struct [''url''] (\<lambda>f j x. dec_string x j) [] j"

text \<open>The value of an invalid-session payload; what is no boolean counts as false.\<close>

definition is_resumable :: "json option \<Rightarrow> bool" where
  "is_resumable d = (case d of Some (JBool b) \<Rightarrow> b | _ \<Rightarrow> False)"

section \<open>Facts\<close>

text \<open>Members of unknown names do not matter.\<close>

lemma dec_members_known:
  "dec_members names f ms s = dec_members names f (filter (\<lambda>(k, j). find_field names k \<noteq> None) ms) s"
  by (induction ms arbitrary: s) (auto split: option.split)

lemma hello_member:
  assumes "filter (\<lambda>(k, j). find_field [''heartbeat_interval''] k \<noteq> None) ms = [(k, JNumber lit)]"
    "parse_float lit = Some x"
  shows "decode_hello (JObject ms) = Some x"
proof -
  have "(k, JNumber lit) \<in> set (filter (\<lambda>(k, j). find_field [''heartbeat_interval''] k \<noteq> None) ms)"
    by (simp only: assms(1)) simp
  then obtain f where "find_field [''heartbeat_interval''] k = Some f" by auto
  then show ?thesis
    using assms dec_members_known [of "[''heartbeat_interval'']" _ ms "Finite 0"] by (simp add: decode_hello_def)
qed

end
