(* ===== verification/Gateway.thy ===== *)
theory Gateway
  imports Gateway_Payload Protocol
begin

text \<open>
  \<open>internal/discord/gateway.go\<close>: the presence connection. A gateway keeps what it needs to
  resume a session; a link is one connection after the hello, shared by the read loop and the
  heartbeat goroutine. Every access to the shared state and every write is a step of its own:
  clearing the acknowledgement, reading the sequence number, writing the heartbeat. \<open>sent\<close> lists
  the messages written. Parameters: URL parsing, the texts of decoding errors, what the machine
  makes of a float out of range, and the network (which writes fail, what arrives, when).
\<close>

record gateway_config =
  gc_token :: gostring
  gc_api_base :: gostring
  gc_url :: gostring
  gc_status :: gostring
  gc_activity :: gostring

record gateway =
  g_token :: gostring
  g_api_base :: gostring
  g_url :: gostring
  g_status :: gostring
  g_activity :: gostring
  connected :: bool
  session_id :: gostring
  resume_url :: gostring
  sequence :: int

record 'u gateway_lib =
  gl_lower :: "nat \<Rightarrow> nat"
  gl_quote :: "gostring \<Rightarrow> gostring"
  gl_parse_url :: "gostring \<Rightarrow> 'u option"
  gl_scheme :: "'u \<Rightarrow> gostring"
  gl_host :: "'u \<Rightarrow> gostring"
  gl_with_query :: "'u \<Rightarrow> (gostring \<times> gostring) list \<Rightarrow> gostring"
  gl_conv :: "float64 \<Rightarrow> int"
  gl_bad :: "gostring \<Rightarrow> gostring"                  \<comment> \<open>the error of decoding a text\<close>
  gl_bad_ready :: "json option \<Rightarrow> gostring"         \<comment> \<open>the error of decoding a READY payload\<close>

definition new_gateway :: "'u gateway_lib \<Rightarrow> gateway_config \<Rightarrow> gostring + gateway" where
  "new_gateway lib cfg =
     (let token = trim_space (gc_token cfg) in
      if token = [] then Inl ''Discord bot token is required''
      else
        (let base0 = trim_right_char CHR ''/'' (trim_space (gc_api_base cfg));
             base = (if base0 = [] then ''https://discord.com/api/v10'' else base0);
             status0 = to_lower (gl_lower lib) (trim_space (gc_status cfg));
             status = (if status0 = [] then ''online'' else status0)
         in if status \<noteq> ''online'' \<and> status \<noteq> ''idle'' \<and> status \<noteq> ''dnd'' \<and> status \<noteq> ''invisible''
            then Inl (''unsupported Discord presence status '' @ gl_quote lib status)
            else Inr \<lparr>g_token = token, g_api_base = base, g_url = trim_space (gc_url cfg), g_status = status,
                      g_activity = trim_space (gc_activity cfg), connected = False, session_id = [],
                      resume_url = [], sequence = - 1\<rparr>))"

section \<open>Where to connect\<close>

definition with_gateway_query :: "'u gateway_lib \<Rightarrow> gostring \<Rightarrow> gostring + gostring" where
  "with_gateway_query lib raw =
     (case gl_parse_url lib (trim_space raw) of
        None \<Rightarrow> Inl (''invalid Discord Gateway URL '' @ gl_quote lib raw)
      | Some u \<Rightarrow>
          if gl_scheme lib u = [] \<or> gl_host lib u = []
          then Inl (''invalid Discord Gateway URL '' @ gl_quote lib raw)
          else Inr (gl_with_query lib u [(''v'', ''10''), (''encoding'', ''json'')]))"

text \<open>The exchange with \<open>GET /gateway/bot\<close>, and the URL it yields.\<close>

datatype bot_reply =
    BadRequest gostring
  | NoReply gostring
  | BotReply int gostring "gostring \<times> body_end"   \<comment> \<open>status, status line, body\<close>

definition fetch_url :: "'u gateway_lib \<Rightarrow> bot_reply \<Rightarrow> gostring + gostring" where
  "fetch_url lib r =
     (case r of
        BadRequest e \<Rightarrow> Inl e
      | NoReply e \<Rightarrow> Inl (''get Discord Gateway URL: '' @ e)
      | BotReply status line (s, e) \<Rightarrow>
          if status < 200 \<or> 300 \<le> status
          then Inl (''Discord Gateway URL request returned '' @ line)
          else (case decode_stream decode_bot_url (\<lambda>_. gl_bad lib) e s of
                  [] \<Rightarrow> Inl (''decode Discord Gateway URL: '' @ ''EOF'')
                | Inl e # _ \<Rightarrow> Inl (''decode Discord Gateway URL: '' @ e)
                | Inr url # _ \<Rightarrow> Inr url))"

text \<open>The endpoint, and whether the session is to be resumed.\<close>

definition connection_url :: "'u gateway_lib \<Rightarrow> bot_reply \<Rightarrow> gateway \<Rightarrow> gostring + gostring \<times> bool" where
  "connection_url lib reply g =
     (if session_id g \<noteq> [] \<and> resume_url g \<noteq> [] then
        (case with_gateway_query lib (resume_url g) of Inl e \<Rightarrow> Inl e | Inr u \<Rightarrow> Inr (u, True))
      else if g_url g \<noteq> [] then
        (case with_gateway_query lib (g_url g) of Inl e \<Rightarrow> Inl e | Inr u \<Rightarrow> Inr (u, False))
      else
        (case fetch_url lib reply of
           Inl e \<Rightarrow> Inl e
         | Inr url \<Rightarrow> (case with_gateway_query lib url of Inl e \<Rightarrow> Inl e | Inr u \<Rightarrow> Inr (u, False))))"

definition clear_session :: "gateway \<Rightarrow> gateway" where
  "clear_session g = g\<lparr>session_id := [], resume_url := [], sequence := - 1\<rparr>"

section \<open>A link\<close>

datatype gw_message =
    Identify gostring gostring "gostring option"    \<comment> \<open>token, status, activity\<close>
  | Resume gostring gostring int
  | Heartbeat "int option"

text \<open>
  Where the heartbeat goroutine is: waiting for its timer, with the acknowledgement cleared, with
  the data of the next heartbeat read, returned. The flag tells the ticker from the timer of the
  first heartbeat. A ticker with an interval that is not positive panics, which ends the process.
\<close>

datatype heart =
    Waiting bool
  | Cleared bool
  | Loaded bool "int option"
  | Returned
  | Crashed

record link =
  gateway_of :: gateway
  acked :: bool
  heartbeat_err :: "gostring option"
  beat_interval :: duration
  heart :: heart
  sent :: "gw_message list"

text \<open>A write that fails is not recorded.\<close>

definition write_message :: "gostring option \<Rightarrow> gw_message \<Rightarrow> link \<Rightarrow> link \<times> gostring option" where
  "write_message failure m l =
     (case failure of Some e \<Rightarrow> (l, Some e) | None \<Rightarrow> (l\<lparr>sent := sent l @ [m]\<rparr>, None))"

definition heartbeat_data :: "gateway \<Rightarrow> int option" where
  "heartbeat_data g = (if 0 \<le> sequence g then Some (sequence g) else None)"

definition send_heartbeat :: "gostring option \<Rightarrow> link \<Rightarrow> link \<times> gostring option" where
  "send_heartbeat failure l =
     (case write_message failure (Heartbeat (heartbeat_data (gateway_of l))) l of
        (l', Some e) \<Rightarrow> (l', Some (''send Discord Gateway heartbeat: '' @ e))
      | (l', None) \<Rightarrow> (l', None))"

text \<open>The hello: opcode 10 and the heartbeat interval; the result is the interval as a duration.\<close>

definition check_hello :: "'u gateway_lib \<Rightarrow> gostring + gostring \<Rightarrow> gostring + duration" where
  "check_hello lib hello =
     (case (case hello of Inl e \<Rightarrow> Inl e | Inr payload \<Rightarrow> unmarshal decode_envelope (gl_bad lib) payload) of
        Inl e \<Rightarrow> Inl (''read Discord Gateway hello: '' @ e)
      | Inr en \<Rightarrow>
          if en_op en \<noteq> 10 then Inl (''expected Discord Gateway hello opcode 10, got '' @ format_int (en_op en))
          else
            (case Option.bind (en_d en) decode_hello of
               None \<Rightarrow> Inl ''invalid Discord Gateway heartbeat interval''
             | Some x \<Rightarrow>
                 if float_le_zero x then Inl ''invalid Discord Gateway heartbeat interval''
                 else Inr (float_to_int64 (gl_conv lib) (float_mult x (Finite (of_int millisecond))))))"

text \<open>The link once the heartbeat goroutine runs, and the message that opens or resumes the session.\<close>

definition start_link :: "duration \<Rightarrow> gateway \<Rightarrow> link" where
  "start_link d g =
     \<lparr>gateway_of = g, acked = True, heartbeat_err = None, beat_interval = d, heart = Waiting False, sent = []\<rparr>"

definition open_link :: "bool \<Rightarrow> gostring option \<Rightarrow> link \<Rightarrow> link \<times> gostring option" where
  "open_link resuming failure l =
     (let g = gateway_of l in
      if resuming then
        (case write_message failure (Resume (g_token g) (session_id g) (sequence g)) l of
           (l', Some e) \<Rightarrow> (l', Some (''resume Discord Gateway session: '' @ e))
         | (l', None) \<Rightarrow> (l', None))
      else
        (case write_message failure
                (Identify (g_token g) (g_status g) (if g_activity g \<noteq> [] then Some (g_activity g) else None)) l of
           (l', Some e) \<Rightarrow> (l', Some (''identify Discord Gateway session: '' @ e))
         | (l', None) \<Rightarrow> (l', None)))"

text \<open>One event of the read loop; an error ends the connection.\<close>

definition note_sequence :: "envelope \<Rightarrow> gateway \<Rightarrow> gateway" where
  "note_sequence en g = (case en_s en of Some s \<Rightarrow> g\<lparr>sequence := s\<rparr> | None \<Rightarrow> g)"

definition handle_envelope ::
    "'u gateway_lib \<Rightarrow> gostring option \<Rightarrow> envelope \<Rightarrow> link \<Rightarrow> link \<times> gostring option" where
  "handle_envelope lib failure en l0 =
     (let g = note_sequence en (gateway_of l0); l = l0\<lparr>gateway_of := g\<rparr> in
      if en_op en = 0 then
        (if en_t en = ''READY'' then
           (case Option.bind (en_d en) decode_ready of
              None \<Rightarrow> (l, Some (''decode Discord READY event: '' @ gl_bad_ready lib (en_d en)))
            | Some (sid, url) \<Rightarrow>
                (l\<lparr>gateway_of := g\<lparr>session_id := sid, resume_url := url, connected := True\<rparr>\<rparr>, None))
         else if en_t en = ''RESUMED'' then (l\<lparr>gateway_of := g\<lparr>connected := True\<rparr>\<rparr>, None)
         else (l, None))
      else if en_op en = 1 then send_heartbeat failure (l\<lparr>acked := False\<rparr>)
      else if en_op en = 7 then (l, Some ''Discord requested Gateway reconnect'')
      else if en_op en = 9 then
        ((if is_resumable (en_d en) then l else l\<lparr>gateway_of := clear_session g\<rparr>),
         Some ''Discord Gateway session became invalid'')
      else if en_op en = 11 then (l\<lparr>acked := True\<rparr>, None)
      else (l, None))"

text \<open>A text message: \<open>ReadJSON\<close> decodes it or fails.\<close>

definition handle_message ::
    "'u gateway_lib \<Rightarrow> gostring option \<Rightarrow> gostring \<Rightarrow> link \<Rightarrow> link \<times> gostring option" where
  "handle_message lib failure payload l =
     (case unmarshal decode_envelope (gl_bad lib) payload of
        Inl e \<Rightarrow> (l, Some (''read Discord Gateway event: '' @ e))
      | Inr en \<Rightarrow> handle_envelope lib failure en l)"

text \<open>The heartbeat goroutine, one step at a time.\<close>

definition clear_ack :: "link \<Rightarrow> link" where
  "clear_ack l =
     (case heart l of
        Waiting ticking \<Rightarrow>
          if ticking \<and> \<not> acked l
          then l\<lparr>heartbeat_err := Some ''Discord Gateway heartbeat was not acknowledged'', heart := Returned\<rparr>
          else l\<lparr>acked := False, heart := Cleared ticking\<rparr>
      | _ \<Rightarrow> l)"

definition load_sequence :: "link \<Rightarrow> link" where
  "load_sequence l =
     (case heart l of
        Cleared ticking \<Rightarrow> l\<lparr>heart := Loaded ticking (heartbeat_data (gateway_of l))\<rparr>
      | _ \<Rightarrow> l)"

definition write_beat :: "gostring option \<Rightarrow> link \<Rightarrow> link" where
  "write_beat failure l =
     (case heart l of
        Loaded ticking d \<Rightarrow>
          (case write_message failure (Heartbeat d) l of
             (l', Some e) \<Rightarrow> l'\<lparr>heartbeat_err := Some (''send Discord Gateway heartbeat: '' @ e), heart := Returned\<rparr>
           | (l', None) \<Rightarrow>
               l'\<lparr>heart := (if ticking \<or> 0 < beat_interval l then Waiting True else Crashed)\<rparr>)
      | _ \<Rightarrow> l)"

text \<open>
  What can happen on a link. After a heartbeat failure the goroutine is gone and the
  connection closed; the read loop ends with the heartbeat's error, that of the read, or that of
  the context.
\<close>

datatype link_event =
    Message gostring "gostring option"
  | Tick
  | Load
  | Emit "gostring option"
  | ReadFails gostring
  | NoticeHeartbeat
  | NoticeCancel

definition link_step :: "'u gateway_lib \<Rightarrow> link_event \<Rightarrow> link \<Rightarrow> link \<times> gostring option" where
  "link_step lib ev l =
     (if heart l = Crashed then (l, None)
      else
        (case ev of
           Message payload failure \<Rightarrow> handle_message lib failure payload l
         | Tick \<Rightarrow> (clear_ack l, None)
         | Load \<Rightarrow> (load_sequence l, None)
         | Emit failure \<Rightarrow> (write_beat failure l, None)
         | ReadFails e \<Rightarrow> (l, Some (''read Discord Gateway event: '' @ e))
         | NoticeHeartbeat \<Rightarrow> (l, heartbeat_err l)
         | NoticeCancel \<Rightarrow> (l, Some ''context canceled'')))"

text \<open>The actions of the heartbeat goroutine; some may come before the session is opened.\<close>

fun heartbeat_action :: "link_event \<Rightarrow> bool" where
  "heartbeat_action Tick = True"
| "heartbeat_action Load = True"
| "heartbeat_action (Emit _) = True"
| "heartbeat_action _ = False"

fun link_run :: "'u gateway_lib \<Rightarrow> link_event list \<Rightarrow> link \<Rightarrow> link \<times> gostring option" where
  "link_run lib [] l = (l, None)"
| "link_run lib (ev # evs) l =
     (case link_step lib ev l of
        (l', Some e) \<Rightarrow> (l', Some e)
      | (l', None) \<Rightarrow> link_run lib evs l')"

section \<open>Reconnecting\<close>

definition next_backoff :: "duration \<Rightarrow> duration" where
  "next_backoff b = (if b < 30 * second then (if 30 * second < b * 2 then 30 * second else b * 2) else b)"

text \<open>One connection of \<open>Run\<close>, as the network lets it go, and when the context is cancelled.\<close>

datatype cancel = Never | BeforeDial | WhileConnected | WhileWaiting

record attempt =
  at_cancel :: cancel
  at_bot :: bot_reply
  at_dial :: "gostring option"
  at_hello :: "gostring + gostring"
  at_early :: "link_event list"
  at_open_failure :: "gostring option"
  at_events :: "link_event list"

text \<open>How a connection stands at the end of its events.\<close>

datatype conn_end = Open | Ended gostring | Died

definition conn_outcome :: "link \<times> gostring option \<Rightarrow> gateway \<times> conn_end" where
  "conn_outcome = (\<lambda>(l, r). (gateway_of l,
     if heart l = Crashed then Died else (case r of None \<Rightarrow> Open | Some e \<Rightarrow> Ended e)))"

definition connect_and_serve :: "'u gateway_lib \<Rightarrow> attempt \<Rightarrow> gateway \<Rightarrow> gateway \<times> conn_end" where
  "connect_and_serve lib a g =
     (case connection_url lib (at_bot a) g of
        Inl e \<Rightarrow> (g, Ended e)
      | Inr (url, resuming) \<Rightarrow>
          (case at_dial a of
             Some e \<Rightarrow> (g, Ended (''connect to Discord Gateway: '' @ e))
           | None \<Rightarrow>
               (case check_hello lib (at_hello a) of
                  Inl e \<Rightarrow> (g, Ended e)
                | Inr d \<Rightarrow>
                    (let l0 = fst (link_run lib (filter heartbeat_action (at_early a)) (start_link d g)) in
                     if heart l0 = Crashed then (gateway_of l0, Died)
                     else
                       (case open_link resuming (at_open_failure a) l0 of
                          (l, Some e) \<Rightarrow> (gateway_of l, Ended e)
                        | (l, None) \<Rightarrow> conn_outcome (link_run lib (at_events a) l))))))"

text \<open>
  \<open>Run\<close>: every connection that ends is followed by a wait and another one, until the context is
  cancelled. The result holds the waits that were over and how the run stands.
\<close>

datatype run_end = Running | Stopped | Killed

fun gateway_run :: "'u gateway_lib \<Rightarrow> attempt list \<Rightarrow> duration \<Rightarrow> gateway \<Rightarrow> gateway \<times> duration list \<times> run_end" where
  "gateway_run lib [] backoff g = (g, [], Running)"
| "gateway_run lib (a # as) backoff g =
     (if at_cancel a = BeforeDial then (g\<lparr>connected := False\<rparr>, [], Stopped)
      else
        (case connect_and_serve lib a g of
           (g', Open) \<Rightarrow> (g', [], Running)
         | (g', Died) \<Rightarrow> (g', [], Killed)
         | (g', Ended _) \<Rightarrow>
             (let g1 = g'\<lparr>connected := False\<rparr> in
              if at_cancel a = WhileConnected \<or> NoticeCancel \<in> set (at_events a) then (g1, [], Stopped)
              else if at_cancel a = WhileWaiting then (g1, [], Stopped)
              else
                (case gateway_run lib as (next_backoff backoff) g1 of
                   (g'', waits, e) \<Rightarrow> (g'', backoff # waits, e)))))"

section \<open>Facts\<close>

lemma write_message_frame:
  "write_message failure m l = (l', r) \<Longrightarrow>
     gateway_of l' = gateway_of l \<and> acked l' = acked l \<and> heartbeat_err l' = heartbeat_err l
     \<and> heart l' = heart l \<and> beat_interval l' = beat_interval l
     \<and> sent l' = sent l @ (if r = None then [m] else [])"
  by (auto simp: write_message_def split: option.splits)

lemma send_heartbeat_frame:
  "send_heartbeat failure l = (l', r) \<Longrightarrow>
     gateway_of l' = gateway_of l \<and> acked l' = acked l \<and> heartbeat_err l' = heartbeat_err l
     \<and> heart l' = heart l \<and> beat_interval l' = beat_interval l
     \<and> sent l' = sent l @ (if r = None then [Heartbeat (heartbeat_data (gateway_of l))] else [])"
  by (auto simp: send_heartbeat_def split: prod.splits option.splits dest!: write_message_frame)

text \<open>The envelope of a message, if it decodes.\<close>

definition message_envelope :: "'u gateway_lib \<Rightarrow> gostring \<Rightarrow> envelope option" where
  "message_envelope lib payload =
     (case unmarshal decode_envelope (gl_bad lib) payload of Inl e \<Rightarrow> None | Inr en \<Rightarrow> Some en)"

fun is_ack :: "'u gateway_lib \<Rightarrow> link_event \<Rightarrow> bool" where
  "is_ack lib (Message payload failure) = (\<exists>en. message_envelope lib payload = Some en \<and> en_op en = 11)"
| "is_ack lib _ = False"

text \<open>The events that start or end a session.\<close>

fun session_event :: "'u gateway_lib \<Rightarrow> link_event \<Rightarrow> bool" where
  "session_event lib (Message payload failure) =
     (\<exists>en. message_envelope lib payload = Some en \<and> (en_op en = 9 \<or> en_op en = 0 \<and> en_t en = ''READY''))"
| "session_event lib _ = False"

text \<open>The sequence number last received.\<close>

fun seen_sequence :: "'u gateway_lib \<Rightarrow> link_event \<Rightarrow> int \<Rightarrow> int" where
  "seen_sequence lib (Message payload failure) s =
     (case Option.bind (message_envelope lib payload) en_s of Some s' \<Rightarrow> s' | None \<Rightarrow> s)"
| "seen_sequence lib _ s = s"

definition last_sequence :: "'u gateway_lib \<Rightarrow> link_event list \<Rightarrow> int \<Rightarrow> int" where
  "last_sequence lib evs s0 = foldl (\<lambda>s ev. seen_sequence lib ev s) s0 evs"

definition sequence_data :: "int \<Rightarrow> int option" where
  "sequence_data s = (if 0 \<le> s then Some s else None)"

lemma sequence_note [simp]:
  "sequence (note_sequence en g) = (case en_s en of Some s \<Rightarrow> s | None \<Rightarrow> sequence g)"
  "session_id (note_sequence en g) = session_id g" "resume_url (note_sequence en g) = resume_url g"
  "g_token (note_sequence en g) = g_token g"
  by (simp_all add: note_sequence_def split: option.split)

lemma handle_envelope_frame:
  assumes "handle_envelope lib failure en l = (l', r)"
  shows "heart l' = heart l" "heartbeat_err l' = heartbeat_err l" "beat_interval l' = beat_interval l"
    "g_token (gateway_of l') = g_token (gateway_of l)"
    "en_op en \<noteq> 11 \<Longrightarrow> \<not> acked l \<Longrightarrow> \<not> acked l'"
    "en_op en \<noteq> 9 \<Longrightarrow> sequence (gateway_of l') = (case en_s en of Some s \<Rightarrow> s | None \<Rightarrow> sequence (gateway_of l))"
    "en_op en \<noteq> 9 \<Longrightarrow> \<not> (en_op en = 0 \<and> en_t en = ''READY'') \<Longrightarrow>
       session_id (gateway_of l') = session_id (gateway_of l) \<and> resume_url (gateway_of l') = resume_url (gateway_of l)"
    "sent l' = sent l \<or> sent l' = sent l @ [Heartbeat (sequence_data (sequence (gateway_of l')))]"
  using assms
  by (auto simp: handle_envelope_def Let_def clear_session_def heartbeat_data_def sequence_data_def
      split: if_splits prod.splits option.splits dest!: send_heartbeat_frame)

lemma handle_message_frame:
  assumes "handle_message lib failure payload l = (l', r)"
  shows "heart l' = heart l" "heartbeat_err l' = heartbeat_err l" "beat_interval l' = beat_interval l"
    "g_token (gateway_of l') = g_token (gateway_of l)"
    "\<forall>en. message_envelope lib payload = Some en \<longrightarrow> en_op en \<noteq> 11 \<Longrightarrow> \<not> acked l \<Longrightarrow> \<not> acked l'"
    "sent l' = sent l \<or> sent l' = sent l @ [Heartbeat (sequence_data (sequence (gateway_of l')))]"
  using assms
  by (auto simp: handle_message_def message_envelope_def split: sum.splits dest: handle_envelope_frame)

text \<open>What a step leaves as it is.\<close>

lemma link_step_gateway:
  assumes "link_step lib ev l = (l', r)" "heart l \<noteq> Crashed"
  shows "g_token (gateway_of l') = g_token (gateway_of l)"
    "\<not> session_event lib ev \<Longrightarrow> session_id (gateway_of l') = session_id (gateway_of l)
       \<and> resume_url (gateway_of l') = resume_url (gateway_of l)
       \<and> sequence (gateway_of l') = seen_sequence lib ev (sequence (gateway_of l))"
    "r = None \<Longrightarrow> sequence (gateway_of l') = seen_sequence lib ev (sequence (gateway_of l))"
proof -
  have "g_token (gateway_of l') = g_token (gateway_of l)
    \<and> (\<not> session_event lib ev \<longrightarrow> session_id (gateway_of l') = session_id (gateway_of l)
       \<and> resume_url (gateway_of l') = resume_url (gateway_of l)
       \<and> sequence (gateway_of l') = seen_sequence lib ev (sequence (gateway_of l)))
    \<and> (r = None \<longrightarrow> sequence (gateway_of l') = seen_sequence lib ev (sequence (gateway_of l)))"
  proof (cases ev)
    case (Message payload failure)
    show ?thesis
    proof (cases "unmarshal decode_envelope (gl_bad lib) payload")
      case (Inr en)
      with assms Message have h: "handle_envelope lib failure en l = (l', r)"
        by (simp add: link_step_def handle_message_def)
      show ?thesis
      proof (cases "en_op en = 9")
        case True
        then have "r \<noteq> None" using h by (auto simp: handle_envelope_def Let_def)
        with True handle_envelope_frame(4) [OF h] show ?thesis by (auto simp: Message message_envelope_def Inr)
      next
        case False
        with handle_envelope_frame(4,6,7) [OF h] show ?thesis
          by (auto simp: Message message_envelope_def Inr split: option.splits)
      qed
    qed (use assms Message in \<open>auto simp: link_step_def handle_message_def message_envelope_def\<close>)
  qed (use assms in \<open>auto simp: link_step_def clear_ack_def load_sequence_def write_beat_def
        split: heart.splits if_splits prod.splits option.splits dest!: write_message_frame\<close>)
  then show "g_token (gateway_of l') = g_token (gateway_of l)"
    "\<not> session_event lib ev \<Longrightarrow> session_id (gateway_of l') = session_id (gateway_of l)
       \<and> resume_url (gateway_of l') = resume_url (gateway_of l)
       \<and> sequence (gateway_of l') = seen_sequence lib ev (sequence (gateway_of l))"
    "r = None \<Longrightarrow> sequence (gateway_of l') = seen_sequence lib ev (sequence (gateway_of l))"
    by simp_all
qed

text \<open>A run that goes on, step by step.\<close>

lemma link_run_append:
  "link_run lib (evs @ evs') l =
     (case link_run lib evs l of (l', Some e) \<Rightarrow> (l', Some e) | (l', None) \<Rightarrow> link_run lib evs' l')"
  by (induction evs arbitrary: l) (simp_all split: prod.split option.split)

lemma link_run_ConsE:
  assumes "link_run lib (ev # evs) l = (l', None)"
  obtains l1 where "link_step lib ev l = (l1, None)" "link_run lib evs l1 = (l', None)"
  using assms by (auto split: prod.splits option.splits)

lemma link_run_crashed [simp]: "heart l = Crashed \<Longrightarrow> link_run lib evs l = (l, None)"
  by (induction evs) (simp_all add: link_step_def)

text \<open>Once a heartbeat is outstanding, an unanswered tick is noticed, and the failure stays.\<close>

definition failed :: "link \<Rightarrow> bool" where
  "failed l \<longleftrightarrow> heart l = Returned \<and> heartbeat_err l = Some ''Discord Gateway heartbeat was not acknowledged''"

definition outstanding :: "link \<Rightarrow> bool" where
  "outstanding l \<longleftrightarrow> heart l = Waiting True \<and> \<not> acked l \<and> heartbeat_err l = None"

lemma link_step_failed: "link_step lib ev l = (l', r) \<Longrightarrow> failed l \<Longrightarrow> failed l'"
  by (cases ev)
    (auto simp: failed_def link_step_def clear_ack_def load_sequence_def write_beat_def
      dest: handle_message_frame(1,2))

lemma link_run_failed: "link_run lib evs l = (l', r) \<Longrightarrow> failed l \<Longrightarrow> failed l'"
proof (induction evs arbitrary: l)
  case (Cons ev evs)
  obtain l1 r1 where s: "link_step lib ev l = (l1, r1)" by (cases "link_step lib ev l")
  have "failed l1" by (rule link_step_failed [OF s Cons.prems(2)])
  with Cons s show ?case by (cases r1) auto
qed simp

lemma link_step_outstanding:
  assumes "link_step lib ev l = (l1, r)" "outstanding l" "\<not> is_ack lib ev"
  shows "if ev = Tick then failed l1 else outstanding l1"
  using assms
  by (cases ev)
    (auto simp: failed_def outstanding_def link_step_def clear_ack_def load_sequence_def write_beat_def
      dest: handle_message_frame)

lemma unanswered_heartbeat_noticed:
  assumes "link_run lib evs l = (l', None)" "outstanding l" "list_all (\<lambda>ev. \<not> is_ack lib ev) evs" "Tick \<in> set evs"
  shows "failed l'"
  using assms
proof (induction evs arbitrary: l)
  case (Cons ev evs)
  obtain l1 where s: "link_step lib ev l = (l1, None)" and run: "link_run lib evs l1 = (l', None)"
    by (rule link_run_ConsE [OF Cons.prems(1)])
  have o: "if ev = Tick then failed l1 else outstanding l1"
    using link_step_outstanding [OF s Cons.prems(2)] Cons.prems(3) by simp
  show ?case
  proof (cases "ev = Tick")
    case True
    then show ?thesis using o link_run_failed [OF run] by simp
  next
    case False
    then show ?thesis using o Cons.prems(3,4) Cons.IH [OF run] by simp
  qed
qed simp

text \<open>The heartbeats that a run sends.\<close>

lemma link_run_sequence:
  "link_run lib evs l = (l', None) \<Longrightarrow> heart l' \<noteq> Crashed \<Longrightarrow>
     sequence (gateway_of l') = last_sequence lib evs (sequence (gateway_of l))"
proof (induction evs arbitrary: l)
  case (Cons ev evs)
  obtain l1 where s: "link_step lib ev l = (l1, None)" and run: "link_run lib evs l1 = (l', None)"
    by (rule link_run_ConsE [OF Cons.prems(1)])
  have "heart l \<noteq> Crashed" using Cons.prems by (metis link_run_crashed fst_conv)
  with Cons.IH [OF run] Cons.prems(2) link_step_gateway(3) [OF s] show ?case
    by (simp add: last_sequence_def)
qed (simp add: last_sequence_def)

lemma handle_envelope_sends:
  "handle_envelope lib failure en l = (l', r) \<Longrightarrow>
     sent l' = sent l
     \<or> sent l' = sent l @ [Heartbeat (sequence_data (case en_s en of Some s \<Rightarrow> s | None \<Rightarrow> sequence (gateway_of l)))]"
  by (auto simp: handle_envelope_def Let_def heartbeat_data_def sequence_data_def
      split: if_splits prod.splits option.splits dest!: send_heartbeat_frame)

lemma link_step_sends:
  assumes "link_step lib ev l = (l1, r)"
  shows "sent l1 = sent l
    \<or> (\<exists>d. sent l1 = sent l @ [Heartbeat d]
         \<and> ((\<exists>b. heart l = Loaded b d) \<or> d = sequence_data (seen_sequence lib ev (sequence (gateway_of l)))))"
    "heart l1 = Loaded b d \<Longrightarrow> heart l = Loaded b d \<or> d = sequence_data (sequence (gateway_of l))"
proof -
  show "sent l1 = sent l
    \<or> (\<exists>d. sent l1 = sent l @ [Heartbeat d]
         \<and> ((\<exists>b. heart l = Loaded b d) \<or> d = sequence_data (seen_sequence lib ev (sequence (gateway_of l)))))"
  proof (cases ev)
    case (Message payload failure)
    then show ?thesis
      using assms
      by (auto simp: link_step_def handle_message_def message_envelope_def
          split: if_splits sum.splits dest!: handle_envelope_sends)
  qed (use assms in \<open>auto simp: link_step_def clear_ack_def load_sequence_def write_beat_def
        split: heart.splits if_splits prod.splits option.splits dest!: write_message_frame\<close>)
  show "heart l1 = Loaded b d \<Longrightarrow> heart l = Loaded b d \<or> d = sequence_data (sequence (gateway_of l))"
    using assms
    by (cases ev)
      (auto simp: link_step_def clear_ack_def load_sequence_def write_beat_def heartbeat_data_def sequence_data_def
        split: heart.splits if_splits prod.splits option.splits dest!: write_message_frame
        dest: handle_message_frame(1))
qed

lemma link_run_sends:
  assumes "link_run lib evs l = (l', r)"
  shows "\<exists>ms. sent l' = sent l @ ms
    \<and> (\<forall>m \<in> set ms. (\<exists>b d. heart l = Loaded b d \<and> m = Heartbeat d)
         \<or> (\<exists>k \<le> length evs. m = Heartbeat (sequence_data (last_sequence lib (take k evs) (sequence (gateway_of l))))))"
  using assms
proof (induction evs arbitrary: l)
  case (Cons ev evs)
  let ?s = "sequence (gateway_of l)"
  let ?P = "\<lambda>m. (\<exists>b d. heart l = Loaded b d \<and> m = Heartbeat d)
    \<or> (\<exists>k \<le> length (ev # evs). m = Heartbeat (sequence_data (last_sequence lib (take k (ev # evs)) ?s)))"
  obtain l1 r1 where s: "link_step lib ev l = (l1, r1)" by (cases "link_step lib ev l")
  have zero: "?P (Heartbeat (sequence_data ?s))"
    by (rule disjI2, rule exI [of _ 0]) (simp add: last_sequence_def)
  have one: "?P (Heartbeat (sequence_data (seen_sequence lib ev ?s)))"
    by (rule disjI2, rule exI [of _ 1]) (simp add: last_sequence_def)
  obtain ms1 where ms1: "sent l1 = sent l @ ms1" "\<forall>m \<in> set ms1. ?P m"
    using link_step_sends(1) [OF s] one by fastforce
  show ?case
  proof (cases "r1 = None \<and> heart l \<noteq> Crashed")
    case False
    then have "sent l' = sent l1"
      using s Cons.prems by (cases "heart l = Crashed") (auto simp: link_step_def)
    with ms1 show ?thesis by auto
  next
    case True
    with s Cons.prems have run: "link_run lib evs l1 = (l', r)" by simp
    have seq: "sequence (gateway_of l1) = seen_sequence lib ev ?s" using link_step_gateway(3) [OF s] True by simp
    obtain ms2 where ms2: "sent l' = sent l1 @ ms2"
      "\<forall>m \<in> set ms2. (\<exists>b d. heart l1 = Loaded b d \<and> m = Heartbeat d)
         \<or> (\<exists>k \<le> length evs. m = Heartbeat (sequence_data (last_sequence lib (take k evs) (sequence (gateway_of l1)))))"
      using Cons.IH [OF run] by auto
    have "?P m" if "m \<in> set ms2" for m
    proof -
      from ms2(2) that consider (loaded) b d where "heart l1 = Loaded b d" "m = Heartbeat d"
        | (seen) k where "k \<le> length evs"
            "m = Heartbeat (sequence_data (last_sequence lib (take k evs) (sequence (gateway_of l1))))"
        by blast
      then show ?thesis
      proof cases
        case loaded
        from link_step_sends(2) [OF s loaded(1)] show ?thesis
        proof
          assume "d = sequence_data ?s"
          with zero loaded(2) show ?thesis by simp
        qed (use loaded(2) in blast)
      next
        case seen
        then show ?thesis
          by (intro disjI2 exI [of _ "Suc k"]) (simp add: seq last_sequence_def)
      qed
    qed
    with ms1 ms2(1) show ?thesis by (intro exI [of _ "ms1 @ ms2"]) auto
  qed
qed simp

text \<open>The ticker of an interval that is not positive.\<close>

lemma tiny_interval_crashes:
  assumes "d \<le> 0"
  shows "heart (fst (link_run lib [Tick, Load, Emit None] (start_link d g))) = Crashed"
  using assms by (simp add: link_step_def start_link_def clear_ack_def load_sequence_def write_beat_def write_message_def)

text \<open>A positive interval is never changed, so that no run ends in a panic.\<close>

lemma link_step_positive:
  "link_step lib ev l = (l1, r) \<Longrightarrow> 0 < beat_interval l \<Longrightarrow> heart l \<noteq> Crashed \<Longrightarrow>
     0 < beat_interval l1 \<and> heart l1 \<noteq> Crashed"
  by (cases ev)
    (auto simp: link_step_def clear_ack_def load_sequence_def write_beat_def
      split: heart.splits if_splits prod.splits option.splits dest!: write_message_frame
      dest: handle_message_frame)

lemma link_run_positive:
  "link_run lib evs l = (l1, r) \<Longrightarrow> 0 < beat_interval l \<Longrightarrow> heart l \<noteq> Crashed \<Longrightarrow>
     0 < beat_interval l1 \<and> heart l1 \<noteq> Crashed"
proof (induction evs arbitrary: l)
  case (Cons ev evs)
  obtain l2 r2 where s: "link_step lib ev l = (l2, r2)" by (cases "link_step lib ev l")
  from Cons link_step_positive [OF s Cons.prems(2,3)] s show ?case by (auto split: option.splits)
qed simp

text \<open>A connection resumes only with the session ID and the URL of a READY event.\<close>

lemma connection_url_resumes:
  "connection_url lib reply g = Inr (u, True) \<Longrightarrow> session_id g \<noteq> [] \<and> resume_url g \<noteq> []"
  unfolding connection_url_def by (rule ccontr) (simp split: if_splits sum.splits)

text \<open>A session is kept while no event starts or ends one, whatever ends the connection.\<close>

lemma link_run_session:
  assumes "link_run lib evs l = (l', None)" "heart l' \<noteq> Crashed" "list_all (\<lambda>ev. \<not> session_event lib ev) evs"
  shows "session_id (gateway_of l') = session_id (gateway_of l) \<and> resume_url (gateway_of l') = resume_url (gateway_of l)
    \<and> g_token (gateway_of l') = g_token (gateway_of l)"
  using assms
proof (induction evs arbitrary: l)
  case (Cons ev evs)
  obtain l1 where s: "link_step lib ev l = (l1, None)" and run: "link_run lib evs l1 = (l', None)"
    by (rule link_run_ConsE [OF Cons.prems(1)])
  have "heart l \<noteq> Crashed" using Cons.prems by (metis link_run_crashed fst_conv)
  with Cons.IH [OF run Cons.prems(2)] link_step_gateway(1,2) [OF s] Cons.prems(3) show ?case by simp
qed simp

lemma link_step_ready:
  assumes "link_step lib (Message payload failure) l = (l1, r)" "heart l \<noteq> Crashed"
    "message_envelope lib payload = Some en" "en_op en = 0" "en_t en = ''READY''"
    "Option.bind (en_d en) decode_ready = Some (sid, url)"
  shows "session_id (gateway_of l1) = sid" "resume_url (gateway_of l1) = url"
    "g_token (gateway_of l1) = g_token (gateway_of l)"
proof -
  have "unmarshal decode_envelope (gl_bad lib) payload = Inr en"
    using assms(3) by (simp add: message_envelope_def split: sum.splits)
  then have "link_step lib (Message payload failure) l = handle_envelope lib failure en l"
    using assms(2) by (simp add: link_step_def handle_message_def)
  with assms(1,4-6) show "session_id (gateway_of l1) = sid" "resume_url (gateway_of l1) = url"
    "g_token (gateway_of l1) = g_token (gateway_of l)"
    by (auto simp: handle_envelope_def Let_def)
qed

text \<open>Doubling up to half a minute.\<close>

lemma next_backoff_min: "next_backoff (min (2 ^ n * second) (30 * second)) = min (2 ^ Suc n * second) (30 * second)"
  by (auto simp: next_backoff_def min_def)

lemma gateway_run_waits:
  "gateway_run lib as (min (2 ^ n * second) (30 * second)) g = (g', waits, e) \<Longrightarrow> i < length waits \<Longrightarrow>
     waits ! i = min (2 ^ (n + i) * second) (30 * second)"
proof (induction "as" arbitrary: n g g' waits e i)
  case (Cons a as)
  obtain g1 r where c: "connect_and_serve lib a g = (g1, r)" by (cases "connect_and_serve lib a g")
  let ?b = "min (2 ^ n * second) (30 * second)"
  obtain g2 ws e2 where rest: "gateway_run lib as (next_backoff ?b) (g1\<lparr>connected := False\<rparr>) = (g2, ws, e2)"
    by (cases "gateway_run lib as (next_backoff ?b) (g1\<lparr>connected := False\<rparr>)")
  have w: "waits = [] \<or> waits = ?b # ws"
    using Cons.prems(1) c rest by (auto simp: Let_def split: if_splits conn_end.splits)
  show ?case
  proof (cases i)
    case 0
    then show ?thesis using w Cons.prems(2) by auto
  next
    case (Suc j)
    then have "waits = ?b # ws" "j < length ws" using w Cons.prems(2) by auto
    then show ?thesis using Cons.IH [OF rest [unfolded next_backoff_min]] Suc by simp
  qed
qed simp

text \<open>The run stops only with the bot offline.\<close>

lemma gateway_run_stopped: "gateway_run lib as b g = (g', waits, Stopped) \<Longrightarrow> \<not> connected g'"
  by (induction "as" arbitrary: b g g' waits)
    (auto simp: Let_def split: if_splits prod.splits conn_end.splits)

lemma open_link_frame:
  "open_link resuming failure l = (l', r) \<Longrightarrow> beat_interval l' = beat_interval l \<and> heart l' = heart l"
  by (auto simp: open_link_def Let_def split: if_splits prod.splits option.splits dest!: write_message_frame)

lemma positive_interval_survives:
  assumes "check_hello lib (at_hello a) = Inr d" "0 < d"
  shows "snd (connect_and_serve lib a g) \<noteq> Died"
proof -
  obtain l0 r0 where early: "link_run lib (filter heartbeat_action (at_early a)) (start_link d g) = (l0, r0)"
    by (cases "link_run lib (filter heartbeat_action (at_early a)) (start_link d g)")
  have l0: "0 < beat_interval l0" "heart l0 \<noteq> Crashed"
    using link_run_positive [OF early] assms(2) by (simp_all add: start_link_def)
  have "snd (conn_outcome (link_run lib (at_events a) l1)) \<noteq> Died"
    if "open_link b (at_open_failure a) l0 = (l1, r1)" for b l1 r1
    using link_run_positive [of lib "at_events a" l1] open_link_frame [OF that] l0
    by (cases "link_run lib (at_events a) l1") (auto simp: conn_outcome_def split: option.split)
  then show ?thesis
    using l0
    by (auto simp: connect_and_serve_def Let_def assms(1) early split: sum.split option.split prod.split)
qed

lemma hello_interval:
  assumes "message_envelope lib payload = Some en" "en_op en = 10" "en_d en = Some (JObject ms)"
    "filter (\<lambda>(k, j). find_field [''heartbeat_interval''] k \<noteq> None) ms = [(k, JNumber lit)]"
    "number_of_text lit = Some x" "2 / 10 ^ 6 \<le> x" "x \<le> 9 * 10 ^ 12"
  obtains d where "check_hello lib (Inr payload) = Inr d" "0 < d" "\<lfloor>x * 10 ^ 6 * (1 - 1 / 2 ^ 52)\<rfloor> \<le> d"
proof -
  have "(2 :: rat) powi (- 1022) \<le> 2 powi (- 20)" by (rule power_int_increasing) simp_all
  also have "\<dots> \<le> 2 / 10 ^ 6" by (simp add: power_int_minus)
  finally have "2 powi (- 1022) \<le> x" using assms(6) by linarith
  moreover have "x * 10 ^ 6 \<le> 9 * 10 ^ 18" using assms(7) by simp
  ultimately obtain v where v: "round64 x = Finite v" "0 < v"
      "\<lfloor>x * 10 ^ 6 * (1 - 1 / 2 ^ 52)\<rfloor> \<le> float_to_int64 (gl_conv lib) (float_mult (Finite v) (Finite (10 ^ 6)))"
    by (rule read_and_scaled [where conv = "gl_conv lib"]) simp_all
  define d where "d = float_to_int64 (gl_conv lib) (float_mult (Finite v) (Finite (10 ^ 6)))"
  have "parse_float lit = Some (Finite v)" by (rule parse_float_number [OF assms(5) v(1)])
  then have "decode_hello (JObject ms) = Some (Finite v)" by (rule hello_member [OF assms(4)])
  moreover have "unmarshal decode_envelope (gl_bad lib) payload = Inr en"
    using assms(1) by (simp add: message_envelope_def split: sum.splits)
  ultimately have "check_hello lib (Inr payload) = Inr d"
    using v(2) assms(2,3) by (simp add: check_hello_def d_def)
  moreover have "(1 :: rat) \<le> x * 10 ^ 6 * (1 - 1 / 2 ^ 52)" using assms(6) by (simp add: field_simps)
  then have "1 \<le> \<lfloor>x * 10 ^ 6 * (1 - 1 / 2 ^ 52)\<rfloor>" by (simp add: le_floor_iff)
  moreover have "\<lfloor>x * 10 ^ 6 * (1 - 1 / 2 ^ 52)\<rfloor> \<le> d" using v(3) by (simp only: d_def)
  ultimately show thesis using that [of d] by linarith
qed

section \<open>Properties\<close>

definition sample_lib_gw :: "gostring gateway_lib" where
  "sample_lib_gw =
     \<lparr>gl_lower = (\<lambda>r. r), gl_quote = (\<lambda>s. s), gl_parse_url = Some, gl_scheme = (\<lambda>_. ''wss''),
      gl_host = (\<lambda>u. u), gl_with_query = (\<lambda>u q. u), gl_conv = (\<lambda>_. - (2 ^ 63)),
      gl_bad = (\<lambda>_. ''bad''), gl_bad_ready = (\<lambda>_. ''bad'')\<rparr>"

definition sample_gateway :: gateway where
  "sample_gateway =
     \<lparr>g_token = ''t'', g_api_base = ''https://discord.com/api/v10'', g_url = ''gw'', g_status = ''online'',
      g_activity = [], connected = False, session_id = ''sid'', resume_url = ''resume'', sequence = 4\<rparr>"

definition sample_link :: link where
  "sample_link = (start_link second sample_gateway)\<lparr>acked := False, heart := Waiting True\<rparr>"

text \<open>A message of Discord: the opcode, the sequence number, the type and the data.\<close>

definition sample_payload :: "int \<Rightarrow> int \<Rightarrow> gostring \<Rightarrow> json \<Rightarrow> gostring" where
  "sample_payload n s t d =
     print_json (JObject [(''op'', JNumber (format_int n)), (''s'', JNumber (format_int s)), (''t'', json_str t), (''d'', d)])"

lemma sample_payload_envelope:
  assumes "int64 n" "int64 s" "printable 9999 d"
  shows "message_envelope lib (sample_payload n s t d)
    = Some \<lparr>en_op = n, en_d = Some (norm_json d), en_s = Some s, en_t = to_valid t\<rparr>"
proof -
  let ?j = "JObject [(''op'', JNumber (format_int n)), (''s'', JNumber (format_int s)), (''t'', json_str t), (''d'', d)]"
  have "printable max_nesting_depth ?j"
    using assms(3) printable_int printable_json_str by (simp add: max_nesting_depth_def del: printable.simps(3,4))
  moreover have "decode_envelope (norm_json ?j)
      = Some \<lparr>en_op = n, en_d = Some (norm_json d), en_s = Some s, en_t = to_valid t\<rparr>"
    using assms(1,2)
    by (simp add: decode_envelope_def zero_envelope_def envelope_fields_def set_envelope_field_def find_field_def
        is_ascii_def)
  ultimately have "unmarshal decode_envelope (gl_bad lib) (sample_payload n s t d)
      = Inr \<lparr>en_op = n, en_d = Some (norm_json d), en_s = Some s, en_t = to_valid t\<rparr>"
    unfolding sample_payload_def by (rule unmarshal_print)
  then show ?thesis by (simp add: message_envelope_def)
qed



text \<open>C15: A dead connection is noticed: while a heartbeat is outstanding and no acknowledgement
  arrives, the next tick of the heartbeat goroutine records the failure, whatever else arrives
  in between; the failure stays recorded, and the connection has ended when the read loop has
  looked at it.\<close>

theorem dead_connection_noticed:
  assumes "heart l = Waiting True" "\<not> acked l" "heartbeat_err l = None"
    "list_all (\<lambda>ev. \<not> is_ack lib ev) evs" "Tick \<in> set evs"
  shows "(snd (link_run lib evs l) = None \<longrightarrow> heartbeat_err (fst (link_run lib evs l))
            = Some ''Discord Gateway heartbeat was not acknowledged'')
    \<and> snd (link_run lib (evs @ [NoticeHeartbeat]) l) \<noteq> None"
proof -
  obtain l' r where run: "link_run lib evs l = (l', r)" by (cases "link_run lib evs l")
  have "outstanding l" using assms(1-3) by (simp add: outstanding_def)
  then have "failed l'" if "r = None"
    by (rule unanswered_heartbeat_noticed [OF run [unfolded that] _ assms(4,5)])
  then show ?thesis by (cases r) (auto simp: run link_run_append link_step_def failed_def)
qed

lemma dead_connection_noticed_witness:
  "snd (link_run sample_lib_gw ([Message (sample_payload 0 5 ''RESUMED'' JNull) None, Tick] @ [NoticeHeartbeat])
      sample_link) \<noteq> None"
proof -
  have "message_envelope sample_lib_gw (sample_payload 0 5 ''RESUMED'' JNull)
      = Some \<lparr>en_op = 0, en_d = Some JNull, en_s = Some 5, en_t = ''RESUMED''\<rparr>"
    using sample_payload_envelope [of 0 5 JNull sample_lib_gw "''RESUMED''"] by (simp add: int64_def is_ascii_def)
  then show ?thesis
    by (intro dead_connection_noticed [THEN conjunct2]) (simp_all add: sample_link_def start_link_def)
qed

text \<open>C35: A session that the server has declared invalid and not resumable is forgotten: the
  connection ends, the next one does not resume it, and its heartbeats start without a sequence
  number.\<close>

theorem invalid_session_not_resumed:
  assumes "message_envelope lib payload = Some en" "en_op en = 9" "\<not> is_resumable (en_d en)"
    "handle_message lib failure payload l = (l', r)"
  shows "r \<noteq> None \<and> sequence (gateway_of l') = - 1 \<and> heartbeat_data (gateway_of l') = None
    \<and> connection_url lib' reply (gateway_of l') \<noteq> Inr (url, True)"
proof -
  have "unmarshal decode_envelope (gl_bad lib) payload = Inr en"
    using assms(1) by (simp add: message_envelope_def split: sum.splits)
  then have g: "gateway_of l' = clear_session (note_sequence en (gateway_of l))" "r \<noteq> None"
    using assms by (auto simp: handle_message_def handle_envelope_def Let_def)
  then have "session_id (gateway_of l') = []" "sequence (gateway_of l') = - 1" by (simp_all add: clear_session_def)
  with g(2) connection_url_resumes [of lib' reply "gateway_of l'" url] show ?thesis
    by (auto simp: heartbeat_data_def)
qed

lemma invalid_session_not_resumed_witness:
  "connection_url sample_lib_gw (NoReply []) (gateway_of (fst
      (handle_message sample_lib_gw None (sample_payload 9 7 [] (JBool False)) sample_link))) \<noteq> Inr (''resume'', True)"
proof -
  let ?p = "sample_payload 9 7 [] (JBool False)"
  obtain l' r where h: "handle_message sample_lib_gw None ?p sample_link = (l', r)"
    by (cases "handle_message sample_lib_gw None ?p sample_link")
  have "message_envelope sample_lib_gw ?p = Some \<lparr>en_op = 9, en_d = Some (JBool False), en_s = Some 7, en_t = []\<rparr>"
    using sample_payload_envelope [of 9 7 "JBool False" sample_lib_gw "[]"] by (simp add: int64_def)
  from invalid_session_not_resumed [OF this _ _ h, of sample_lib_gw "NoReply []" "''resume''"] show ?thesis
    unfolding h fst_conv by (simp add: is_resumable_def)
qed

text \<open>C32: A session survives the loss of its connection: after a READY event with a session and a
  URL, and until another event starts or ends a session, the next connection goes to that URL
  and, whatever ended the last one, opens by resuming that session after the sequence number
  received last.\<close>

theorem ready_session_resumed:
  assumes "message_envelope lib payload = Some en" "en_op en = 0" "en_t en = ''READY''"
    "Option.bind (en_d en) decode_ready = Some (sid, url)" "sid \<noteq> []" "url \<noteq> []"
    "list_all (\<lambda>ev. \<not> session_event lib ev) (evs @ [ev])"
    "link_run lib (Message payload failure # evs) l = (l1, None)" "link_step lib ev l1 = (l2, r)" "heart l2 \<noteq> Crashed"
    "with_gateway_query lib url = Inr u"
  shows "connection_url lib reply (gateway_of l2) = Inr (u, True)
    \<and> sent (fst (open_link True None (start_link d (gateway_of l2))))
        = [Resume (g_token (gateway_of l)) sid
             (last_sequence lib (Message payload failure # evs @ [ev]) (sequence (gateway_of l)))]"
proof -
  have l1: "heart l1 \<noteq> Crashed" using assms(9,10) by (auto simp: link_step_def)
  then have l: "heart l \<noteq> Crashed" using assms(8) by (metis link_run_crashed fst_conv)
  obtain l0 where ready: "link_step lib (Message payload failure) l = (l0, None)"
    and run: "link_run lib evs l0 = (l1, None)"
    by (rule link_run_ConsE [OF assms(8)])
  note r = link_step_ready [OF ready l assms(1-4)]
  have s: "session_id (gateway_of l1) = sid" "resume_url (gateway_of l1) = url"
    "g_token (gateway_of l1) = g_token (gateway_of l)"
    using link_run_session [OF run l1] assms(7) r by simp_all
  have q: "sequence (gateway_of l1) = last_sequence lib (Message payload failure # evs) (sequence (gateway_of l))"
    by (rule link_run_sequence [OF assms(8) l1])
  note e = link_step_gateway(1,2) [OF assms(9) l1]
  show ?thesis
    using e assms(5-7,11) s q
    by (simp add: connection_url_def open_link_def write_message_def start_link_def last_sequence_def)
qed

definition ready_data :: json where
  "ready_data = JObject [(''session_id'', json_str ''abc''), (''resume_gateway_url'', json_str ''wss'')]"

lemma ready_session_resumed_witness:
  "connection_url sample_lib_gw (NoReply []) (gateway_of (fst (link_step sample_lib_gw (ReadFails ''EOF'')
      (fst (link_run sample_lib_gw [Message (sample_payload 0 1 ''READY'' ready_data) None] sample_link)))))
    = Inr (''wss'', True)"
proof -
  let ?p = "sample_payload 0 1 ''READY'' ready_data"
  let ?en = "\<lparr>en_op = 0, en_d = Some (norm_json ready_data), en_s = Some 1, en_t = ''READY''\<rparr>"
  have "printable 9999 ready_data"
    using printable_json_str by (simp add: ready_data_def del: printable.simps(4))
  then have env: "message_envelope sample_lib_gw ?p = Some ?en"
    using sample_payload_envelope [of 0 1 ready_data sample_lib_gw "''READY''"] by (simp add: int64_def is_ascii_def)
  then have dec: "unmarshal decode_envelope (gl_bad sample_lib_gw) ?p = Inr ?en"
    by (simp add: message_envelope_def split: sum.splits)
  have d: "Option.bind (en_d ?en) decode_ready = Some (''abc'', ''wss'')"
    by (simp add: decode_ready_def ready_fields_def set_ready_field_def find_field_def is_ascii_def ready_data_def)
  obtain l1 r1 where run: "link_run sample_lib_gw [Message ?p None] sample_link = (l1, r1)"
    by (cases "link_run sample_lib_gw [Message ?p None] sample_link")
  have r1: "r1 = None" "heart l1 = Waiting True"
    using run d by (auto simp: link_step_def handle_message_def dec handle_envelope_def Let_def sample_link_def start_link_def)
  obtain l2 r2 where s: "link_step sample_lib_gw (ReadFails ''EOF'') l1 = (l2, r2)"
    by (cases "link_step sample_lib_gw (ReadFails ''EOF'') l1")
  have l2: "heart l2 \<noteq> Crashed" using s r1(2) by (auto simp: link_step_def)
  have u: "with_gateway_query sample_lib_gw ''wss'' = Inr ''wss''"
    using trim_space_all_graphic [of "''wss''"] by (simp add: with_gateway_query_def sample_lib_gw_def graphic_def)
  have "connection_url sample_lib_gw (NoReply []) (gateway_of l2) = Inr (''wss'', True)"
    using ready_session_resumed [OF env _ _ d _ _ _ run [unfolded r1] s l2 u] by simp
  then show ?thesis by (simp add: run s del: link_run.simps)
qed

text \<open>C36: The waits between connections start at one second and double up to thirty seconds; they
  never go back, however long a connection was up. When the run is over because its context was
  cancelled, the bot does not report a connection.\<close>

theorem reconnect_waits:
  assumes "gateway_run lib as second g = (g', waits, e)"
  shows "(\<forall>i < length waits. waits ! i = min (2 ^ i * second) (30 * second)) \<and> (e = Stopped \<longrightarrow> \<not> connected g')"
  using gateway_run_waits [of lib "as" 0 g g' waits e] gateway_run_stopped [of lib "as" second g g' waits] assms by auto

definition refused :: attempt where
  "refused =
     \<lparr>at_cancel = Never, at_bot = NoReply ''refused'', at_dial = None, at_hello = Inl [], at_early = [],
      at_open_failure = None, at_events = []\<rparr>"

lemma reconnect_waits_witness:
  "fst (snd (gateway_run sample_lib_gw [refused, refused] second (sample_gateway\<lparr>g_url := [], session_id := []\<rparr>))) ! 1
   = 2 * second"
proof -
  let ?g = "sample_gateway\<lparr>g_url := [], session_id := []\<rparr>"
  obtain g' waits e where r: "gateway_run sample_lib_gw [refused, refused] second ?g = (g', waits, e)"
    by (metis surj_pair)
  then have "length waits = 2"
    by (auto simp: connect_and_serve_def connection_url_def fetch_url_def sample_gateway_def refused_def Let_def)
  with reconnect_waits [OF r] r show ?thesis by simp
qed


definition hello_data :: json where
  "hello_data = JObject [(''heartbeat_interval'', JNumber ''2'')]"

lemma hello_data_envelope:
  "message_envelope sample_lib_gw (sample_payload 10 1 [] hello_data)
     = Some \<lparr>en_op = 10, en_d = Some hello_data, en_s = Some 1, en_t = []\<rparr>"
proof -
  have "format_int 2 = ''2''" by (simp add: format_int_def format_nat.simps digit_char_def)
  then have "printable 9998 (JNumber ''2'')" using printable_int [of 9998 2] by metis
  then have "printable 9999 hello_data" by (simp add: hello_data_def del: printable.simps(3))
  then show ?thesis
    using sample_payload_envelope [of 10 1 hello_data sample_lib_gw "[]"]
    by (simp add: int64_def hello_data_def is_ascii_def)
qed

lemma hello_data_interval:
  "number_of_text ''2'' = Some 2"
  "filter (\<lambda>(k, j). find_field [''heartbeat_interval''] k \<noteq> None) [(''heartbeat_interval'', JNumber ''2'')]
     = [(''heartbeat_interval'', JNumber ''2'')]"
  by code_simp (simp add: find_field_def is_ascii_def)

lemma hello_data_good: obtains d where "check_hello sample_lib_gw (Inr (sample_payload 10 1 [] hello_data)) = Inr d"
  by (rule hello_interval [OF hello_data_envelope _ _ hello_data_interval(2,1)]) (simp_all add: hello_data_def)


end
