(* ===== verification/Daemon_Main.thy ===== *)
theory Daemon_Main
  imports Daemon_Http Gateway
begin

text \<open>
  The relay process, \<open>cmd/wrapping-botd/main.go\<close>: how \<open>serve\<close> builds its parts from the
  environment and how it ends, the \<open>healthcheck\<close> subcommand, and \<open>main\<close>. The outside is the
  environment, the first thing that ends \<open>serve\<close> (a signal and the outcome of \<open>Shutdown\<close>, or
  the return of \<open>ListenAndServe\<close>), and the outcome of the HTTP request of the health check.
\<close>

section \<open>Serving\<close>

text \<open>The messages of \<open>LoadConfigFromEnv\<close> are those of \<open>config_error\<close>.\<close>

datatype serve_error =
    ConfigError config_error
  | SenderError gostring
  | GatewayError gostring
  | ListenError gostring
  | ShutdownError gostring

record relay =
  ry_config :: config
  ry_sender :: sender
  ry_gateway :: "gateway option"            \<comment> \<open>running in its own goroutine\<close>
  ry_server :: server_state
  ry_http :: http_server

definition gateway_config_of :: "config \<Rightarrow> gateway_config" where
  "gateway_config_of cfg =
     \<lparr>gc_token = discord_bot_token cfg, gc_api_base = discord_api_base_url cfg, gc_url = gateway_url cfg,
      gc_status = presence_status cfg, gc_activity = activity cfg\<rparr>"

text \<open>\<open>serve\<close> up to the select.\<close>

definition serve_setup ::
    "'u gateway_lib \<Rightarrow> environment \<Rightarrow> time \<Rightarrow> serve_error + relay" where
  "serve_setup glib env now =
     (case load_config_from_env (gl_lower glib) env of
        Inl e \<Rightarrow> Inl (ConfigError e)
      | Inr cfg \<Rightarrow>
          (case new_sender (discord_bot_token cfg) (discord_api_base_url cfg) now of
             Inl e \<Rightarrow> Inl (SenderError e)
           | Inr sdr \<Rightarrow>
               (case (if gateway_enabled cfg
                      then (case new_gateway glib (gateway_config_of cfg) of Inl e \<Rightarrow> Inl e | Inr g \<Rightarrow> Inr (Some g))
                      else Inr None) of
                  Inl e \<Rightarrow> Inl (GatewayError e)
                | Inr gw \<Rightarrow>
                    Inr \<lparr>ry_config = cfg, ry_sender = sdr, ry_gateway = gw, ry_server = new_server,
                         ry_http = http_server_for cfg\<rparr>)))"

text \<open>What the select sees first; \<open>ErrServerClosed\<close> counts as no error.\<close>

datatype serve_end = Signalled "gostring option" | ListenReturned "gostring option"

text \<open>
  How \<open>serve\<close> returns: its error, whether the context of a running gateway was cancelled, and
  the time that \<open>Shutdown\<close> was given if it was called.
\<close>

record serve_result =
  sr_error :: "serve_error option"
  sr_cancelled :: bool
  sr_shutdown :: "duration option"

definition serve ::
    "'u gateway_lib \<Rightarrow> environment \<Rightarrow> time \<Rightarrow> serve_end \<Rightarrow> serve_result" where
  "serve glib env now ending =
     (case serve_setup glib env now of
        Inl e \<Rightarrow> \<lparr>sr_error = Some e, sr_cancelled = False, sr_shutdown = None\<rparr>
      | Inr r \<Rightarrow>
          (case ending of
             Signalled err \<Rightarrow>
               \<lparr>sr_error = map_option ShutdownError err, sr_cancelled = True, sr_shutdown = Some (10 * second)\<rparr>
           | ListenReturned err \<Rightarrow>
               \<lparr>sr_error = map_option ListenError err, sr_cancelled = True, sr_shutdown = None\<rparr>))"

section \<open>The health check\<close>

definition decode_health :: "json \<Rightarrow> gostring option" where
  "decode_health j = dec_struct [''status''] (\<lambda>f j s. dec_string s j) [] j"

definition healthcheck_url :: "environment \<Rightarrow> gostring" where
  "healthcheck_url env =
     (let url = trimmed_env env ''WRAPPING_BOT_HEALTHCHECK_URL''
      in if url = [] then ''http://127.0.0.1:8080/healthz'' else url)"

text \<open>The reply to the request: status, status line, body.\<close>

datatype probe_outcome = HttpFailed gostring | HttpReplied int gostring "gostring \<times> body_end"

definition healthcheck ::
    "(gostring \<Rightarrow> gostring) \<Rightarrow> (body_end \<Rightarrow> gostring \<Rightarrow> gostring) \<Rightarrow> (gostring \<Rightarrow> probe_outcome) \<Rightarrow> environment
      \<Rightarrow> gostring option"
where
  "healthcheck quote bad get env =
     (case get (healthcheck_url env) of
        HttpFailed e \<Rightarrow> Some e
      | HttpReplied status line (body, e) \<Rightarrow>
          if status \<noteq> 200 then Some (''healthcheck returned '' @ line)
          else
            (case decode_stream decode_health bad e body of
               [] \<Rightarrow> Some ''EOF''
             | Inl err # _ \<Rightarrow> Some err
             | Inr s # _ \<Rightarrow> if s \<noteq> ''ok'' then Some (''unexpected health status '' @ quote s) else None))"

text \<open>\<open>main\<close>: the exit code, and whether it was the health check that failed or \<open>serve\<close>.\<close>

datatype main_end = Success | HealthFailed gostring | ServeFailed serve_error

definition daemon_main ::
    "gostring list \<Rightarrow> gostring option \<Rightarrow> serve_result \<Rightarrow> int \<times> main_end" where
  "daemon_main args health served =
     (if args \<noteq> [] \<and> hd args = ''healthcheck''
      then (case health of Some e \<Rightarrow> (1, HealthFailed e) | None \<Rightarrow> (0, Success))
      else (case sr_error served of Some e \<Rightarrow> (1, ServeFailed e) | None \<Rightarrow> (0, Success)))"

section \<open>Facts\<close>

lemma loaded_token_trimmed:
  assumes "load_config_from_env lt env = Inr cfg"
  shows "trim_space (discord_bot_token cfg) = discord_bot_token cfg" "discord_bot_token cfg \<noteq> []"
proof -
  obtain c where "load_limits env c = Inr cfg" "0 < flush_interval c"
    "discord_bot_token c = trimmed_env env ''DISCORD_BOT_TOKEN''"
    using assms unfolding load_config_from_env_def Let_def try_bind_Inr guard_Inr
    by (auto simp: initial_config_def)
  from load_limits_effect(7) [OF this(1,2)] this(3)
  show "trim_space (discord_bot_token cfg) = discord_bot_token cfg" by (simp add: trimmed_env_def)
  show "discord_bot_token cfg \<noteq> []" using load_config_ok [OF assms] by (simp add: config_ok_def)
qed

lemma presence_lower:
  assumes "presence_ok s"
  shows "to_lower lt (trim_space s) = s"
proof -
  have "\<forall>s \<in> set [''online'', ''idle'', ''dnd'', ''invisible'']. (\<forall>c \<in> set s. graphic c) \<and> is_ascii s \<and> map lower_char s = s"
    by code_simp
  moreover have "s \<in> set [''online'', ''idle'', ''dnd'', ''invisible'']" using assms by (auto simp: presence_ok_def)
  ultimately have "\<forall>c \<in> set s. graphic c" "is_ascii s" "map lower_char s = s" by blast+
  then show ?thesis by (simp add: trim_space_all_graphic to_lower_def)
qed

lemma loaded_parts:
  assumes "load_config_from_env (gl_lower glib) env = Inr cfg"
  obtains s g where "new_sender (discord_bot_token cfg) (discord_api_base_url cfg) now = Inr s"
      "bot_token s = discord_bot_token cfg" "max_retries s = 6" "delivered s = []"
      "new_gateway glib (gateway_config_of cfg) = Inr g" "g_token g = discord_bot_token cfg"
      "g_status g = presence_status cfg" "session_id g = []" "sequence g = - 1"
proof -
  note tok = loaded_token_trimmed [OF assms]
  have p: "presence_ok (presence_status cfg)" using load_config_ok [OF assms] by (simp add: config_ok_def)
  then have ne: "presence_status cfg \<noteq> []" by (auto simp: presence_ok_def)
  obtain s where s: "new_sender (discord_bot_token cfg) (discord_api_base_url cfg) now = Inr s"
      "bot_token s = discord_bot_token cfg" "max_retries s = 6" "delivered s = []"
    using tok by (simp add: new_sender_def Let_def)
  obtain g where g: "new_gateway glib (gateway_config_of cfg) = Inr g" "g_token g = discord_bot_token cfg"
      "g_status g = presence_status cfg" "session_id g = []" "sequence g = - 1"
    using tok p ne by (auto simp: new_gateway_def gateway_config_of_def presence_lower presence_ok_def Let_def)
  show thesis using that s g by blast
qed

lemma decode_health_norm: "decode_health (norm_json health_json) = Some ''ok''"
  by (simp add: decode_health_def health_json_def find_field_def is_ascii_def) code_simp

text \<open>What the parts of a running relay have to do with each other.\<close>

definition relay_ok :: "relay \<Rightarrow> bool" where
  "relay_ok r \<longleftrightarrow>
     config_ok (ry_config r)
     \<and> bot_token (ry_sender r) = discord_bot_token (ry_config r) \<and> max_retries (ry_sender r) = 6
     \<and> delivered (ry_sender r) = []
     \<and> (case ry_gateway r of
          None \<Rightarrow> \<not> gateway_enabled (ry_config r)
        | Some g \<Rightarrow> gateway_enabled (ry_config r) \<and> g_token g = discord_bot_token (ry_config r)
            \<and> g_status g = presence_status (ry_config r) \<and> session_id g = [] \<and> sequence g = - 1)
     \<and> ry_server r = new_server \<and> hs_addr (ry_http r) = listen_addr (ry_config r)"

section \<open>Properties\<close>

text \<open>C21: A configuration that loads is all the relay needs to start: setting up fails only with an
  error of the configuration, and otherwise yields a well-formed relay, whose sender and gateway
  use the configured token, whose gateway runs exactly when it is enabled and with the configured
  presence, and whose server starts without running handlers. A process that cannot start exits
  with 1.\<close>

theorem serve_setup_well_formed:
  "case serve_setup glib env now of
     Inl e \<Rightarrow> (\<exists>c. e = ConfigError c \<and> load_config_from_env (gl_lower glib) env = Inl c)
       \<and> daemon_main [] health (serve glib env now ending) = (1, ServeFailed e)
   | Inr r \<Rightarrow> load_config_from_env (gl_lower glib) env = Inr (ry_config r) \<and> relay_ok r"
proof (cases "load_config_from_env (gl_lower glib) env")
  case (Inl c)
  then show ?thesis by (simp add: serve_setup_def serve_def daemon_main_def)
next
  case (Inr cfg)
  obtain s g where "new_sender (discord_bot_token cfg) (discord_api_base_url cfg) now = Inr s"
      "bot_token s = discord_bot_token cfg" "max_retries s = 6" "delivered s = []"
      "new_gateway glib (gateway_config_of cfg) = Inr g" "g_token g = discord_bot_token cfg"
      "g_status g = presence_status cfg" "session_id g = []" "sequence g = - 1"
    by (rule loaded_parts [OF Inr])
  with Inr load_config_ok [OF Inr] show ?thesis
    by (simp add: serve_setup_def relay_ok_def http_server_for_def)
qed

text \<open>The health check passes against a running relay: when the request reaches the relay's
  router as GET of the health path and its reply comes back, \<open>healthcheck\<close> reports no error and
  the process exits with 0, while a reply with another status makes it exit with 1. The relay's
  state is untouched.\<close>

lemma healthcheck_passes:
  assumes "serve_request sha256 quote lenient bad cfg send h ''GET'' ''/healthz'' auth bgs at_eof closing body s = (s', Reply status reply)"
    "get (healthcheck_url env) = HttpReplied status' line (reply, Closed)"
  shows "s' = s \<and> status = 200
    \<and> daemon_main [''healthcheck''] (healthcheck quote bad' get env) served
        = (if status' = 200 then (0, Success) else (1, HealthFailed (''healthcheck returned '' @ line)))"
proof -
  have r: "s' = s" "status = 200" "reply = print_json health_json @ [NL]"
    using assms(1) by (simp_all add: serve_request_def route_health handle_health_def)
  have "json_value max_nesting_depth reply = Some (norm_json health_json, [NL])"
    unfolding r(3) by (rule print_parse [OF health_json_printable]) simp
  moreover have "skip_space reply \<noteq> []"
    by (simp add: r(3) health_json_def skip_space_def)
  ultimately have "decode_stream decode_health bad' Closed reply = Inr ''ok'' # decode_stream decode_health bad' Closed [NL]"
    by (simp add: decode_stream.simps [of _ _ _ reply] decode_health_norm)
  then show ?thesis
    using assms(2) r(1,2) by (simp add: healthcheck_def daemon_main_def)
qed

lemma healthcheck_passes_witness:
  "daemon_main [''healthcheck'']
     (healthcheck (\<lambda>x. x) (\<lambda>_ _. []) (\<lambda>_. HttpReplied 200 ''200 OK'' (snd handle_health, Closed)) (\<lambda>_. None)) \<lparr>sr_error = None, sr_cancelled = False, sr_shutdown = None\<rparr>
   = (0, Success)"
proof -
  have "serve_request (\<lambda>x. x) (\<lambda>x. x) (\<lambda>_. None) (\<lambda>_ _. []) sample_config (discord_send sample_lib ok_env) 1
      ''GET'' ''/healthz'' [] (\<lambda>_. []) [] [] ([], Closed) (new_server, sample_sender)
    = ((new_server, sample_sender), Reply 200 (snd handle_health))"
    by (simp add: serve_request_def route_health handle_health_def)
  from healthcheck_passes [OF this, of "\<lambda>_. HttpReplied 200 ''200 OK'' (snd handle_health, Closed)" "\<lambda>_. None"
      200 "''200 OK''" "\<lambda>_ _. []"]
  show ?thesis by simp
qed

end
