(* ===== verification/Shared_Sender.thy ===== *)
theory Shared_Sender
  imports Daemon_Server
begin

text \<open>
  One \<open>Sender\<close> of \<open>internal/discord/sender.go\<close> shared by the handlers of all runs: \<open>Send\<close> holds
  \<open>mu\<close> throughout, so the calls of all runs form a sequence. A run sees that sequence as its
  state; before its \<open>n\<close>-th call the calls \<open>others n\<close> of other runs go through. They move the clock,
  the rate-limit window and the place in the sequence of network outcomes. This sender too has the
  interface of the daemon, so every lemma about a run holds under interference.
\<close>

type_synonym call = "bool \<times> gostring \<times> gostring"   \<comment> \<open>own, channel, text\<close>

text \<open>The sender after a sequence of calls, and what they delivered.\<close>

fun sender_after :: "discord_lib \<Rightarrow> http_env \<Rightarrow> sender \<Rightarrow> call list \<Rightarrow> sender" where
  "sender_after lib env s [] = s"
| "sender_after lib env s ((mine, ch, content) # cs) =
     sender_after lib env (fst (discord_send lib env s ch content)) cs"

fun call_log :: "discord_lib \<Rightarrow> http_env \<Rightarrow> sender \<Rightarrow> call list \<Rightarrow> (bool \<times> gostring \<times> gostring) list" where
  "call_log lib env s [] = []"
| "call_log lib env s ((mine, ch, content) # cs) =
     (case discord_send lib env s ch content of
        (s', r) \<Rightarrow> (if r = None \<and> content \<noteq> [] then [(mine, trim_space ch, content)] else []) @ call_log lib env s' cs)"

definition own_messages :: "discord_lib \<Rightarrow> http_env \<Rightarrow> sender \<Rightarrow> call list \<Rightarrow> (gostring \<times> gostring) list" where
  "own_messages lib env s cs = map snd (filter fst (call_log lib env s cs))"

definition shared_send ::
    "discord_lib \<Rightarrow> http_env \<Rightarrow> sender \<Rightarrow> (nat \<Rightarrow> (gostring \<times> gostring) list) \<Rightarrow> call list send"
where
  "shared_send lib env s others cs ch content =
     (let cs' = cs @ map (Pair False) (others (length (filter fst cs)))
      in (cs' @ [(True, ch, content)], snd (discord_send lib env (sender_after lib env s cs') ch content)))"

section \<open>Facts\<close>

lemma call_log_append:
  "call_log lib env s (cs @ cs') = call_log lib env s cs @ call_log lib env (sender_after lib env s cs) cs'"
  by (induction cs arbitrary: s) (auto split: prod.split)

lemma sender_after_append:
  "sender_after lib env s (cs @ cs') = sender_after lib env (sender_after lib env s cs) cs'"
  by (induction cs arbitrary: s) auto

lemma call_log_others: "filter fst (call_log lib env s (map (Pair False) ms)) = []"
  by (induction ms arbitrary: s) (auto split: prod.split)

lemma own_messages_send:
  assumes "shared_send lib env s others cs ch content = (cs', r)"
  shows "own_messages lib env s cs'
    = own_messages lib env s cs @ (if r = None \<and> content \<noteq> [] then [(trim_space ch, content)] else [])"
  using assms
  by (auto simp: shared_send_def own_messages_def call_log_append call_log_others sender_after_append Let_def split: prod.splits)

lemma delivered_calls:
  "delivered (sender_after lib env s cs) = delivered s @ map snd (call_log lib env s cs)"
proof (induction cs arbitrary: s)
  case (Cons c cs)
  obtain mine ch content where c: "c = (mine, ch, content)" by (cases c)
  obtain s' r where d: "discord_send lib env s ch content = (s', r)" by (cases "discord_send lib env s ch content")
  show ?case using Cons.IH [of s'] discord_send_frame(1) [OF d] by (simp add: c d)
qed simp

lemma map_in_shuffles: "zs \<in> shuffles xs ys \<Longrightarrow> map f zs \<in> shuffles (map f xs) (map f ys)"
  by (induction xs ys arbitrary: zs rule: shuffles.induct) (auto simp: Cons_in_shuffles_iff)

text \<open>What was delivered is an interleaving of the own messages and those of the others.\<close>

lemma delivered_shuffle:
  "\<exists>ds theirs. delivered (sender_after lib env s cs) = delivered s @ ds
     \<and> ds \<in> shuffles (own_messages lib env s cs) theirs"
proof -
  let ?l = "call_log lib env s cs"
  have "?l \<in> shuffles (filter fst ?l) (filter (\<lambda>x. \<not> fst x) ?l)" by (rule partition_in_shuffles)
  then have "map snd ?l \<in> shuffles (own_messages lib env s cs) (map snd (filter (\<lambda>x. \<not> fst x) ?l))"
    unfolding own_messages_def by (rule map_in_shuffles)
  then show ?thesis by (auto simp: delivered_calls)
qed

interpretation shared: message_sender "shared_send lib env s others" "own_messages lib env s"
  by unfold_locales (auto dest!: own_messages_send)

lemma shared_send_reliable:
  assumes "\<And>n. succeeds (snd (env n))" "\<And>url. request_error lib url = None" "trim_space ch \<noteq> []"
  shows "reliable (shared_send lib env s others) ch"
  using discord_send_reliable [of env lib ch, OF assms] by (simp add: reliable_def shared_send_def Let_def)

section \<open>Properties\<close>

text \<open>C3: Runs do not disturb each other: whatever other runs send through the shared sender, and
  however their calls fall between those of this run, once accepted the run has been relayed
  completely and in order, and what the sender delivered is an interleaving of exactly this
  run's messages with those of the others.\<close>

theorem concurrent_run_relayed:
  assumes "config_ok cfg" "rs_accepted resp"
    "handle_stream sha256 quote cfg (shared_send lib env s others) h rq (sv, []) = ((sv', cs), st, resp)"
  shows "\<exists>start logged acc n ds theirs. st = 200 \<and> admitted cfg rq start
     \<and> well_formed_stream start (rq_items rq) \<and> exits_of (rq_items rq) \<noteq> []
     \<and> delivered (sender_after lib env s cs) = delivered s @ ds
     \<and> ds \<in> shuffles (map (Pair (ev_channel_id start))
         (split_utf8 (format_start start) 1900 @ messages_of (batcher_config_for cfg start) logged
          @ split_utf8 (format_exit start (last (exits_of (rq_items rq))) n None) 1900)) theirs
     \<and> log_bytes logged = concat (map (record_bytes (batcher_config_for cfg start)) acc)
         @ (if 0 < n then tag stream_system (overflow_notice n) else [])
     \<and> subseq acc (event_records (outputs_of (rq_items rq)))
     \<and> data_bytes acc + n = data_bytes (event_records (outputs_of (rq_items rq)))
     \<and> rs_dropped_bytes resp = int n"
proof -
  have "relay_run quote cfg (shared_send lib env s others) rq [] = (cs, st, resp)"
    using assms(2,3) by (auto simp: handle_stream_def reject_def zero_response_def split: prod.splits option.splits)
  moreover have "own_messages lib env s [] = []" by (simp add: own_messages_def)
  moreover obtain ds theirs where "delivered (sender_after lib env s cs) = delivered s @ ds"
      "ds \<in> shuffles (own_messages lib env s cs) theirs"
    using delivered_shuffle by blast
  ultimately show ?thesis by - (rule shared.relay_run_accepted [OF _ assms(2,1)], assumption, metis append_Nil)
qed

definition noise :: "nat \<Rightarrow> (gostring \<times> gostring) list" where
  "noise n = [(''456'', ''other output''), (''789'', [])]"

lemma concurrent_run_relayed_witness:
  "\<exists>cs resp ds theirs logged n.
     handle_stream (\<lambda>x. x) (\<lambda>x. x) sample_config (shared_send sample_lib ok_env sample_sender noise) 1
       sample_request (new_server, []) = ((new_server, cs), 200, resp)
     \<and> delivered (sender_after sample_lib ok_env sample_sender cs) = ds
     \<and> ds \<in> shuffles (map (Pair (ev_channel_id sample_start))
         (split_utf8 (format_start sample_start) 1900 @ messages_of (batcher_config_for sample_config sample_start) logged
          @ split_utf8 (format_exit sample_start (last (exits_of (rq_items sample_request))) n None) 1900)) theirs"
proof -
  have "trim_space (ev_channel_id sample_start) \<noteq> []"
    using isDiscordChannelID_trim [OF sample_channel] by (simp add: sample_start_def)
  then have "reliable (shared_send sample_lib ok_env sample_sender noise) (ev_channel_id sample_start)"
    by (intro shared_send_reliable) (simp_all add: ok_env_def reply_status_def succeeds_def sample_lib_def)
  then obtain cs resp where "relay_run (\<lambda>x. x) sample_config (shared_send sample_lib ok_env sample_sender noise)
      sample_request [] = (cs, 200, resp)" "rs_accepted resp"
    by (rule relay_run_completes [OF sample_admitted sample_stream])
  then have h: "handle_stream (\<lambda>x. x) (\<lambda>x. x) sample_config (shared_send sample_lib ok_env sample_sender noise) 1
      sample_request (new_server, []) = ((new_server, cs), 200, resp)" "rs_accepted resp"
    by (simp_all add: handle_stream_def arrive_def sample_authorized new_server_def release_def)
  have d: "delivered sample_sender = []" and s: "rq_start sample_request = Some (Inr sample_start)"
    by (simp_all add: sample_sender_def sample_request_def)
  show ?thesis
    using concurrent_run_relayed [OF sample_config_ok h(2,1)] h(1) unfolding admitted_def d s append_Nil by auto
qed

end
