(* ===== verification/Discord_Json.thy ===== *)
theory Discord_Json
  imports Discord_Sender Gateway Wire
begin

text \<open>
  The JSON that the Discord clients of \<open>internal/discord\<close> send: the body of a message request
  (\<open>createMessageRequest\<close> in \<open>sender.go\<close>) and the payloads of the gateway (\<open>gateway.go\<close>). A Go
  map is encoded with its keys sorted, so the envelope of a gateway payload has \<open>d\<close> before
  \<open>op\<close>. Parameter: the name of the operating system in the identify payload.
\<close>

section \<open>Messages\<close>

definition create_message_json :: "gostring \<Rightarrow> gostring list \<Rightarrow> int \<Rightarrow> json" where
  "create_message_json content mentions flags =
     JObject
       ([(''content'', json_str content), (''allowed_mentions'', JObject [(''parse'', JArray (map json_str mentions))])]
        @ (if flags = 0 then [] else [(''flags'', JNumber (format_int flags))]))"

text \<open>The body of a request.\<close>

definition post_body :: "post \<Rightarrow> gostring" where
  "post_body p = print_json (create_message_json (p_content p) (p_mentions p) (p_flags p))"

text \<open>How a server that follows the API documentation reads it.\<close>

record message_request =
  mr_content :: gostring
  mr_parse :: "gostring list option"      \<comment> \<open>absent: every mention is allowed\<close>
  mr_flags :: int

definition set_mentions_field :: "gostring \<Rightarrow> json \<Rightarrow> gostring list option \<Rightarrow> gostring list option option" where
  "set_mentions_field f j m = map_option (\<lambda>(vs, _). Some vs) (dec_strings [] j)"

definition set_message_field :: "gostring \<Rightarrow> json \<Rightarrow> message_request \<Rightarrow> message_request option" where
  "set_message_field f j r =
     (if f = ''content'' then map_option (\<lambda>x. r\<lparr>mr_content := x\<rparr>) (dec_string (mr_content r) j)
      else if f = ''allowed_mentions''
      then map_option (\<lambda>x. r\<lparr>mr_parse := x\<rparr>) (dec_struct [''parse''] set_mentions_field (mr_parse r) j)
      else map_option (\<lambda>x. r\<lparr>mr_flags := x\<rparr>) (dec_int (mr_flags r) j))"

definition read_message_request :: "gostring \<Rightarrow> message_request option" where
  "read_message_request body =
     (case unmarshal
             (dec_struct [''content'', ''allowed_mentions'', ''flags''] set_message_field
                \<lparr>mr_content = [], mr_parse = None, mr_flags = 0\<rparr>) (\<lambda>_. []) body of
        Inl _ \<Rightarrow> None
      | Inr r \<Rightarrow> Some r)"

section \<open>Gateway payloads\<close>

definition activities_json :: "gostring option \<Rightarrow> json" where
  "activities_json a =
     JArray (case a of None \<Rightarrow> [] | Some n \<Rightarrow> [JObject [(''name'', json_str n), (''type'', JNumber ''3'')]])"

fun payload_json :: "gostring \<Rightarrow> gw_message \<Rightarrow> json" where
  "payload_json goos (Identify tok status act) =
     JObject [(''token'', json_str tok), (''intents'', JNumber ''0''),
       (''properties'', JObject [(''os'', json_str goos), (''browser'', json_str ''wrapping-bot''), (''device'', json_str ''wrapping-bot'')]),
       (''presence'', JObject [(''since'', JNull), (''activities'', activities_json act), (''status'', json_str status),
          (''afk'', JBool False)])]"
| "payload_json goos (Resume tok sid seq) =
     JObject [(''token'', json_str tok), (''session_id'', json_str sid), (''seq'', JNumber (format_int seq))]"
| "payload_json goos (Heartbeat s) = (case s of None \<Rightarrow> JNull | Some n \<Rightarrow> JNumber (format_int n))"

fun message_op :: "gw_message \<Rightarrow> int" where
  "message_op (Identify _ _ _) = 2"
| "message_op (Resume _ _ _) = 6"
| "message_op (Heartbeat _) = 1"

definition message_json :: "gostring \<Rightarrow> gw_message \<Rightarrow> json" where
  "message_json goos m = JObject [(''d'', payload_json goos m), (''op'', JNumber (format_int (message_op m)))]"

text \<open>\<open>json.Marshal\<close> in \<open>WriteJSON\<close>.\<close>

definition message_text :: "gostring \<Rightarrow> gw_message \<Rightarrow> gostring" where
  "message_text goos m = print_json (message_json goos m)"

lemma printable_digit: "printable d (JNumber ''0'')" "printable d (JNumber ''3'')"
proof -
  have "format_int 0 = ''0''" "format_int 3 = ''3''"
    by (simp_all add: format_int_def format_nat.simps digit_char_def)
  then show "printable d (JNumber ''0'')" "printable d (JNumber ''3'')"
    using printable_int [of d 0] printable_int [of d 3] by metis+
qed

lemma message_json_printable: "5 \<le> d \<Longrightarrow> printable d (message_json goos m)"
  using printable_int printable_json_str printable_digit
  by (cases m) (auto simp: message_json_def activities_json_def split: option.split simp del: printable.simps(3,4))

lemma message_text_parses: "json_value max_nesting_depth (message_text goos m) = Some (norm_json (message_json goos m), [])"
  using print_parse [OF message_json_printable, of max_nesting_depth "[]" goos m]
  by (simp add: message_text_def max_nesting_depth_def)

lemma create_message_parses:
  "json_value max_nesting_depth (print_json (create_message_json c [] f))
     = Some (norm_json (create_message_json c [] f), [])"
proof -
  have "printable max_nesting_depth (create_message_json c [] f)"
    using printable_int printable_json_str
    by (simp add: create_message_json_def max_nesting_depth_def del: printable.simps(3,4))
  from print_parse [OF this, of "[]"] show ?thesis by simp
qed

lemma read_create_message:
  "int64 f \<Longrightarrow> f \<noteq> 0 \<Longrightarrow> read_message_request (print_json (create_message_json c [] f))
     = Some \<lparr>mr_content = to_valid c, mr_parse = Some [], mr_flags = f\<rparr>"
  unfolding read_message_request_def unmarshal_def create_message_parses
  by (simp add: create_message_json_def skip_space_def find_field_def is_ascii_def set_message_field_def
      set_mentions_field_def)

section \<open>The requests of a call\<close>

definition posts_only :: "gostring \<Rightarrow> gostring \<Rightarrow> sender \<Rightarrow> sender \<Rightarrow> bool" where
  "posts_only ch content s s' \<longleftrightarrow>
     bot_token s' = bot_token s \<and> base_url s' = base_url s
     \<and> (\<exists>ps. posts s' = posts s @ ps
          \<and> list_all (\<lambda>p. p_url p = request_url s ch \<and> p_authorization p = ''Bot '' @ bot_token s
               \<and> p_content p = content \<and> p_mentions p = [] \<and> p_flags p = 2 ^ 12) ps)"

lemma posts_only_refl: "posts_only ch content s s"
  by (simp add: posts_only_def)

lemma posts_only_trans: "posts_only ch content s s1 \<Longrightarrow> posts_only ch content s1 s2 \<Longrightarrow> posts_only ch content s s2"
  by (auto simp: posts_only_def request_url_def)

lemma posts_only_update:
  "posts_only ch content s s1 \<Longrightarrow> bot_token s2 = bot_token s1 \<Longrightarrow> base_url s2 = base_url s1 \<Longrightarrow> posts s2 = posts s1 \<Longrightarrow>
     posts_only ch content s s2"
  by (simp add: posts_only_def)

lemma bot_token_frame [simp]:
  "bot_token (sleep d s) = bot_token s" "bot_token (await_window s) = bot_token s"
  "bot_token (update_rate_window lib r s) = bot_token s"
  by (simp_all add: sleep_def await_window_def update_rate_window_def split: option.split)

lemma do_request_posts:
  assumes "do_request env ch content (await_window s) = (s', out)"
  shows "posts_only ch content s s'"
  using assms
  by (auto simp: do_request_def posts_only_def Let_def request_url_def split: prod.splits)

lemma attempt_posts:
  assumes "attempt_once lib env ch content attempt s = (s', res)"
  shows "posts_only ch content s s'"
  using assms
proof (cases rule: attempt_cases)
  case (invalid e)
  then show ?thesis by (simp add: posts_only_def)
qed (auto dest!: do_request_posts elim!: posts_only_update)

lemma send_loop_posts:
  "send_loop lib env ch content attempt left last_err s = (s', r) \<Longrightarrow> posts_only ch content s s'"
proof (induction left arbitrary: attempt last_err s)
  case (Suc left)
  obtain s1 q where a: "attempt_once lib env ch content attempt s = (s1, q)"
    by (cases "attempt_once lib env ch content attempt s")
  show ?case
  proof (cases q)
    case (Again e)
    with a Suc.prems have "send_loop lib env ch content (Suc attempt) left (Some e) s1 = (s', r)" by simp
    from posts_only_trans [OF attempt_posts [OF a] Suc.IH [OF this]] show ?thesis .
  qed (use a attempt_posts [OF a] Suc.prems in auto)
qed (simp add: posts_only_refl)

section \<open>Properties\<close>

text \<open>C20: Whatever the text of a message is, every request that \<open>Send\<close> makes for it goes to the channel
  under the bot's token, and its body is read as that text, with an empty list of mentions that
  may notify somebody and with notifications suppressed: output of a program cannot ping anybody
  and cannot add fields to the request.\<close>

theorem messages_mention_nobody:
  "\<exists>ps. posts (fst (discord_send lib env s ch content)) = posts s @ ps
     \<and> list_all (\<lambda>p. p_url p = request_url s (trim_space ch) \<and> p_authorization p = ''Bot '' @ bot_token s
          \<and> read_message_request (post_body p)
              = Some \<lparr>mr_content = to_valid content, mr_parse = Some [], mr_flags = 4096\<rparr>) ps"
proof -
  obtain s' r where l: "send_loop lib env (trim_space ch) content 0 (max_retries s + 1) None s = (s', r)"
    by (cases "send_loop lib env (trim_space ch) content 0 (max_retries s + 1) None s")
  then have "fst (discord_send lib env s ch content) = s \<or> fst (discord_send lib env s ch content) = s'"
    by (auto simp: discord_send_def Let_def simp del: send_loop.simps)
  then have "posts_only (trim_space ch) content s (fst (discord_send lib env s ch content))"
    using send_loop_posts [OF l] posts_only_refl by metis
  then obtain ps where ps: "posts (fst (discord_send lib env s ch content)) = posts s @ ps"
    "list_all (\<lambda>p. p_url p = request_url s (trim_space ch) \<and> p_authorization p = ''Bot '' @ bot_token s
               \<and> p_content p = content \<and> p_mentions p = [] \<and> p_flags p = 2 ^ 12) ps"
    unfolding posts_only_def by blast
  have "read_message_request (post_body p)
      = Some \<lparr>mr_content = to_valid content, mr_parse = Some [], mr_flags = 4096\<rparr>"
    if "p_content p = content" "p_mentions p = []" "p_flags p = 2 ^ 12" for p
    using that read_create_message [of 4096 content] by (simp add: post_body_def int64_def)
  with ps show ?thesis by (auto simp: list_all_iff)
qed

end
