(* ===== verification/Ws_Frame.thy ===== *)
theory Ws_Frame
  imports Go_Utf8 "HOL-Library.Word"
begin

text \<open>
  The frames of \<open>internal/wsclient/wsclient.go\<close>, the WebSocket client of the Discord gateway. An
  octet is a \<open>8 word\<close>, a frame length a \<open>64 word\<close> as in the code; a stream is the list of the
  octets still to be read.
\<close>

unbundle bit_operations_syntax

type_synonym octet = "8 word"
type_synonym octets = "8 word list"

abbreviation (input) op_continuation :: octet where "op_continuation \<equiv> 0x0"
abbreviation op_text :: octet where "op_text \<equiv> 0x1"
abbreviation op_close :: octet where "op_close \<equiv> 0x8"
abbreviation op_ping :: octet where "op_ping \<equiv> 0x9"
abbreviation op_pong :: octet where "op_pong \<equiv> 0xA"

definition max_message_size :: nat where
  "max_message_size = 16 * 2 ^ 20"

datatype ws_error =
    Eof
  | UnexpectedEof
  | InvalidFrameLength
  | FrameTooLarge
  | InvalidControlFrame
  | UnexpectedDataFrame
  | UnexpectedContinuation
  | UnsupportedOpcode octet
  | MessageTooLarge
  | PayloadTooLarge
  | NotMasked
  | RandomFailed
  | WriteFailed
  | TimedOut
  | ConnClosed

type_synonym frame = "bool \<times> octet \<times> octets"   \<comment> \<open>FIN, opcode, payload\<close>

section \<open>Reading\<close>

text \<open>\<open>io.ReadFull\<close>\<close>

definition read_full :: "nat \<Rightarrow> octets \<Rightarrow> ws_error + octets \<times> octets" where
  "read_full n s =
     (if n \<le> length s then Inr (take n s, drop n s)
      else Inl (if s = [] then Eof else UnexpectedEof))"

text \<open>\<open>binary.BigEndian\<close>\<close>

definition be_value :: "octets \<Rightarrow> 64 word" where
  "be_value bs = foldl (\<lambda>n b. push_bit 8 n OR ucast b) 0 bs"

definition be_octets :: "nat \<Rightarrow> 64 word \<Rightarrow> octets" where
  "be_octets k n = map (\<lambda>i. ucast (drop_bit (8 * i) n)) (rev [0..<k])"

definition apply_mask :: "octets \<Rightarrow> octets \<Rightarrow> octets" where
  "apply_mask key payload = map (\<lambda>i. payload ! i XOR key ! (i mod 4)) [0..<length payload]"

text \<open>The length field after the first two octets of the header.\<close>

definition read_length :: "octet \<Rightarrow> octets \<Rightarrow> ws_error + 64 word \<times> octets" where
  "read_length h1 s =
     (let len = (ucast (h1 AND 0x7F) :: 64 word) in
      if len = 126 then (case read_full 2 s of Inl e \<Rightarrow> Inl e | Inr (ext, s') \<Rightarrow> Inr (be_value ext, s'))
      else if len = 127 then
        (case read_full 8 s of
           Inl e \<Rightarrow> Inl e
         | Inr (ext, s') \<Rightarrow>
             if be_value ext AND push_bit 63 1 \<noteq> 0 then Inl InvalidFrameLength else Inr (be_value ext, s'))
      else Inr (len, s))"

definition read_frame :: "octets \<Rightarrow> ws_error + frame \<times> octets" where
  "read_frame s =
     (case read_full 2 s of
        Inl e \<Rightarrow> Inl e
      | Inr (header, s1) \<Rightarrow>
          (let fin = (header ! 0 AND 0x80 \<noteq> 0); opcode = header ! 0 AND 0x0F;
               masked = (header ! 1 AND 0x80 \<noteq> 0)
           in case read_length (header ! 1) s1 of
                Inl e \<Rightarrow> Inl e
              | Inr (len, s2) \<Rightarrow>
                  if max_message_size < unat len then Inl FrameTooLarge
                  else
                    (case (if masked then read_full 4 s2 else Inr ([0, 0, 0, 0], s2)) of
                       Inl e \<Rightarrow> Inl e
                     | Inr (key, s3) \<Rightarrow>
                         (case read_full (unat len) s3 of
                            Inl e \<Rightarrow> Inl e
                          | Inr (data, s4) \<Rightarrow>
                              (let payload = (if masked then apply_mask key data else data) in
                               if op_close \<le> opcode \<and> (\<not> fin \<or> 125 < length payload)
                               then Inl InvalidControlFrame
                               else Inr ((fin, opcode, payload), s4))))))"

section \<open>Writing\<close>

text \<open>The header up to the mask; \<open>mask_bit\<close> is 0x80 for the client and 0 for \<open>ServerFrame\<close>.\<close>

definition frame_header :: "octet \<Rightarrow> octet \<Rightarrow> nat \<Rightarrow> octets" where
  "frame_header opcode mask_bit len =
     [0x80 OR opcode] @
     (if len \<le> 125 then [mask_bit OR of_nat len]
      else if len \<le> 65535 then [mask_bit OR 126, of_nat (len div 2 ^ 8), of_nat len]
      else [mask_bit OR 127] @ be_octets 8 (of_nat len))"

definition server_frame :: "octet \<Rightarrow> octets \<Rightarrow> octets" where
  "server_frame opcode payload = frame_header opcode 0 (length payload) @ payload"

definition read_client_frame :: "octets \<Rightarrow> ws_error + (octet \<times> octets) \<times> octets" where
  "read_client_frame s =
     (case read_full 2 s of
        Inl e \<Rightarrow> Inl e
      | Inr (header, s1) \<Rightarrow>
          (let opcode = header ! 0 AND 0x0F; masked = (header ! 1 AND 0x80 \<noteq> 0);
               len0 = (ucast (header ! 1 AND 0x7F) :: 64 word)
           in if \<not> masked then Inl NotMasked
              else
                (case (if len0 = 126 then read_full 2 s1
                       else if len0 = 127 then read_full 8 s1 else Inr ([], s1)) of
                   Inl e \<Rightarrow> Inl e
                 | Inr (ext, s2) \<Rightarrow>
                     (let len = (if len0 = 126 \<or> len0 = 127 then be_value ext else len0) in
                      if max_message_size < unat len then Inl FrameTooLarge
                      else
                        (case read_full 4 s2 of
                           Inl e \<Rightarrow> Inl e
                         | Inr (key, s3) \<Rightarrow>
                             (case read_full (unat len) s3 of
                                Inl e \<Rightarrow> Inl e
                              | Inr (data, s4) \<Rightarrow> Inr ((opcode, apply_mask key data), s4)))))))"

definition parse_close_code :: "octets \<Rightarrow> int" where
  "parse_close_code payload =
     (if length payload < 2 then 0 else int (unat (be_value (take 2 payload))))"

definition format_close_payload :: "int \<Rightarrow> octets \<Rightarrow> octets" where
  "format_close_payload code reason = be_octets 2 (ucast (of_int code :: 16 word)) @ reason"

section \<open>Big-endian integers and masks\<close>

lemma foldl_be:
  "foldl (\<lambda>n b. push_bit 8 n OR ucast b) (a :: 64 word) (bs :: octets) =
     push_bit (8 * length bs) a OR be_value bs"
proof (induction bs arbitrary: a)
  case (Cons b bs)
  have "be_value (b # bs) = push_bit (8 * length bs) (ucast b) OR be_value bs"
    using Cons.IH [of "ucast b"] by (simp add: be_value_def)
  with Cons.IH [of "push_bit 8 a OR ucast b"] show ?case
    by (simp add: or.assoc add.commute)
qed (simp add: be_value_def)

lemma be_value_Cons: "be_value (b # bs) = push_bit (8 * length bs) (ucast b) OR be_value bs"
  using foldl_be [of "ucast b" bs] by (simp add: be_value_def)

lemma length_be_octets [simp]: "length (be_octets k n) = k"
  by (simp add: be_octets_def)

lemma be_octets_Suc: "be_octets (Suc k) n = ucast (drop_bit (8 * k) n) # be_octets k n"
  by (simp add: be_octets_def)

lemma be_value_octets: "be_value (be_octets k n) = take_bit (8 * k) n"
proof (induction k)
  case 0
  then show ?case by (simp add: be_octets_def be_value_def)
next
  case (Suc k)
  have "push_bit (8 * k) (ucast (ucast (drop_bit (8 * k) n) :: octet)) OR take_bit (8 * k) n
      = take_bit (8 * Suc k) n"
    by (rule bit_word_eqI) (auto simp: bit_simps not_less)
  with Suc show ?case by (simp add: be_octets_Suc be_value_Cons)
qed

lemma be_value_octets_8 [simp]: "be_value (be_octets 8 n) = n"
  by (simp add: be_value_octets take_bit_word_eq_self)

lemma length_apply_mask [simp]: "length (apply_mask key p) = length p"
  by (simp add: apply_mask_def)

lemma apply_mask_twice [simp]: "apply_mask key (apply_mask key p) = p"
  by (rule nth_equalityI) (simp_all add: apply_mask_def xor.assoc)

lemma read_full_append [simp]: "length a = n \<Longrightarrow> read_full n (a @ b) = Inr (a, b)"
  by (simp add: read_full_def)

lemma read_full_InrD: "read_full n s = Inr (a, b) \<Longrightarrow> s = a @ b \<and> length a = n"
  by (auto simp: read_full_def split: if_splits)

section \<open>What is written can be read\<close>

lemma short_octets: "len \<le> 65535 \<Longrightarrow> [of_nat (len div 2 ^ 8), of_nat len] = be_octets 2 (of_nat len)"
proof -
  assume "len \<le> 65535"
  then have "len div 2 ^ 8 < 2 ^ 8" by simp
  have "ucast (of_nat len :: 64 word) = (of_nat len :: octet)"
    using \<open>len \<le> 65535\<close> by (simp add: unsigned_of_nat take_bit_nat_eq_self)
  moreover have "ucast (drop_bit 8 (of_nat len :: 64 word)) = (of_nat (len div 2 ^ 8) :: octet)"
  proof -
    have "drop_bit 8 (of_nat len :: 64 word) = of_nat (len div 2 ^ 8)"
      using \<open>len \<le> 65535\<close> by (intro word_unat_eq_iff [THEN iffD2])
        (simp add: unat_div_distrib unsigned_of_nat take_bit_nat_eq_self drop_bit_eq_div)
    then show ?thesis using \<open>len \<le> 65535\<close> by (simp add: unsigned_of_nat take_bit_nat_eq_self)
  qed
  ultimately show ?thesis by (simp add: numeral_2_eq_2 be_octets_Suc be_octets_def)
qed

lemma low7_of_nat: "n < 128 \<Longrightarrow> (mb = 0 \<or> mb = 0x80) \<Longrightarrow> (mb OR of_nat n) AND (0x7F :: octet) = of_nat n"
proof -
  assume n: "n < 128" and mb: "mb = 0 \<or> mb = 0x80"
  have "take_bit 7 (of_nat n :: octet) = of_nat n"
    using n by (simp add: take_bit_of_nat take_bit_nat_eq_self)
  moreover have "(0x7F :: octet) = Bit_Operations.mask 7" by (simp add: mask_eq_exp_minus_1)
  moreover have "(mb OR of_nat n) AND (Bit_Operations.mask 7 :: octet) = take_bit 7 (mb OR of_nat n)"
    by (simp add: take_bit_eq_mask)
  moreover have "take_bit 7 mb = 0" using mb by auto
  ultimately show ?thesis by simp
qed

lemma high_of_nat: "n < 128 \<Longrightarrow> mb = 0 \<or> mb = 0x80 \<Longrightarrow> ((mb OR of_nat n) AND (0x80 :: octet) \<noteq> 0) = (mb = 0x80)"
proof -
  assume n: "n < 128" and mb: "mb = 0 \<or> mb = 0x80"
  have "take_bit 7 (of_nat n :: octet) = of_nat n"
    using n by (simp add: take_bit_of_nat take_bit_nat_eq_self)
  then have "\<not> bit (of_nat n :: octet) 7" by (metis bit_take_bit_iff less_irrefl)
  then have "(of_nat n :: octet) AND 0x80 = 0"
    using and_exp_eq_0_iff_not_bit [of "of_nat n :: octet" 7] by simp
  with mb show ?thesis by (auto simp: bit.conj_disj_distrib2)
qed

lemma opcode_bits:
  assumes "op < 16"
  shows "op AND (0x80 :: octet) = 0" "op AND 0x0F = op"
proof -
  have op: "take_bit 4 op = op"
  proof (rule word_unat_eq_iff [THEN iffD2])
    have "unat op < 16" using assms by (simp add: word_less_nat_alt)
    then show "unat (take_bit 4 op) = unat op" by (simp add: unsigned_take_bit_eq take_bit_nat_eq_self)
  qed
  have m: "(0x0F :: octet) = Bit_Operations.mask 4" by (simp add: mask_eq_exp_minus_1)
  show "op AND 0x0F = op" unfolding m using op by (simp add: take_bit_eq_mask [symmetric])
  have "bit op 7 = bit (take_bit 4 op) 7" by (simp add: op)
  then have "\<not> bit op 7" by (simp add: bit_take_bit_iff)
  then show "op AND 0x80 = 0" using and_exp_eq_0_iff_not_bit [of op 7] by simp
qed

definition fin_octet :: "bool \<Rightarrow> octet \<Rightarrow> octet" where
  "fin_octet fin opcode = (if fin then 0x80 else 0) OR opcode"

lemma fin_octet:
  assumes "op < 16"
  shows "fin_octet fin op AND 0x80 \<noteq> 0 \<longleftrightarrow> fin" "fin_octet fin op AND 0x0F = op"
  using opcode_bits [OF assms]
  by (auto simp: fin_octet_def bit.conj_disj_distrib2)

text \<open>The second octet of a header and the extended length, whatever the two readers do next.\<close>

definition length_octet :: "octet \<Rightarrow> nat \<Rightarrow> octet" where
  "length_octet mask_bit len =
     mask_bit OR of_nat (if len \<le> 125 then len else if len \<le> 65535 then 126 else 127)"

definition length_ext :: "nat \<Rightarrow> octets" where
  "length_ext len =
     (if len \<le> 125 then [] else if len \<le> 65535 then be_octets 2 (of_nat len) else be_octets 8 (of_nat len))"

lemma frame_header_eq:
  "frame_header op mask_bit len = fin_octet True op # length_octet mask_bit len # length_ext len"
  using short_octets [of len] by (simp add: frame_header_def fin_octet_def length_octet_def length_ext_def)

lemma length_octet:
  assumes "mask_bit = 0 \<or> mask_bit = 0x80"
  shows "length_octet mask_bit len AND 0x80 \<noteq> 0 \<longleftrightarrow> mask_bit = 0x80"
    "length_octet mask_bit len AND 0x7F = of_nat (if len \<le> 125 then len else if len \<le> 65535 then 126 else 127)"
  unfolding length_octet_def by (rule high_of_nat low7_of_nat; use assms in simp)+

lemma small_length_64:
  "n < 128 \<Longrightarrow> (ucast (of_nat n :: octet) :: 64 word) = of_nat n"
  "len \<le> max_message_size \<Longrightarrow> unat (of_nat len :: 64 word) = len"
  "len \<le> max_message_size \<Longrightarrow> (of_nat len :: 64 word) AND push_bit 63 1 = 0"
proof -
  show "(ucast (of_nat n :: octet) :: 64 word) = of_nat n" if "n < 128"
    using that by (simp add: unsigned_of_nat take_bit_nat_eq_self)
  assume le: "len \<le> max_message_size"
  show u: "unat (of_nat len :: 64 word) = len"
    using le by (simp add: unsigned_of_nat take_bit_nat_eq_self max_message_size_def)
  have "take_bit 63 (of_nat len :: 64 word) = of_nat len"
    using le by (simp add: take_bit_of_nat take_bit_nat_eq_self max_message_size_def)
  then have "\<not> bit (of_nat len :: 64 word) 63" by (metis bit_take_bit_iff less_irrefl)
  then show "(of_nat len :: 64 word) AND push_bit 63 1 = 0"
    using and_exp_eq_0_iff_not_bit [of "of_nat len :: 64 word" 63] by (simp add: push_bit_eq_mult)
qed

lemma be_value_short: "len \<le> 65535 \<Longrightarrow> be_value (be_octets 2 (of_nat len)) = of_nat len"
proof -
  assume "len \<le> 65535"
  then have "take_bit 16 (of_nat len :: 64 word) = of_nat len"
    by (simp add: take_bit_of_nat take_bit_nat_eq_self)
  then show ?thesis by (simp add: be_value_octets)
qed

lemma read_length_octet:
  assumes "mask_bit = 0 \<or> mask_bit = 0x80" "len \<le> max_message_size"
  shows "read_length (length_octet mask_bit len) (length_ext len @ rest) = Inr (of_nat len, rest)"
proof -
  let ?n = "if len \<le> 125 then len else if len \<le> 65535 then 126 else 127"
  have n: "ucast (length_octet mask_bit len AND 0x7F) = (of_nat ?n :: 64 word)"
    using length_octet(2) [OF assms(1), of len] small_length_64(1) [of ?n] by simp
  consider "len \<le> 125" | "125 < len" "len \<le> 65535" | "65535 < len" by linarith
  then show ?thesis
  proof cases
    case 1
    then have "of_nat len \<noteq> (126 :: 64 word)" "of_nat len \<noteq> (127 :: 64 word)"
      using small_length_64(2) [OF assms(2)] by (auto dest: arg_cong [of _ _ unat])
    with 1 n show ?thesis by (simp add: read_length_def length_ext_def)
  next
    case 2
    with n show ?thesis by (simp add: read_length_def length_ext_def be_value_short)
  next
    case 3
    with n small_length_64(3) [OF assms(2)] show ?thesis
      by (simp add: read_length_def length_ext_def Let_def)
  qed
qed

text \<open>A frame on the wire, with any FIN bit, masked or not.\<close>

definition wire_frame :: "bool \<Rightarrow> octet \<Rightarrow> octets option \<Rightarrow> octets \<Rightarrow> octets" where
  "wire_frame fin opcode key payload =
     fin_octet fin opcode # length_octet (if key = None then 0 else 0x80) (length payload)
       # length_ext (length payload)
       @ (case key of None \<Rightarrow> payload | Some k \<Rightarrow> k @ apply_mask k payload)"

definition frame_ok :: "frame \<Rightarrow> bool" where
  "frame_ok f \<longleftrightarrow>
     (case f of (fin, opcode, payload) \<Rightarrow>
        opcode < 16 \<and> length payload \<le> max_message_size
        \<and> (op_close \<le> opcode \<longrightarrow> fin \<and> length payload \<le> 125))"

definition key_ok :: "octets option \<Rightarrow> bool" where
  "key_ok key \<longleftrightarrow> (case key of None \<Rightarrow> True | Some k \<Rightarrow> length k = 4)"

lemma read_two [simp]: "read_full 2 (a # b # s) = Inr ([a, b], s)"
  by (simp add: read_full_def)

lemma read_frame_wire:
  assumes "frame_ok (fin, op, payload)" "key_ok key"
  shows "read_frame (wire_frame fin op key payload @ rest) = Inr ((fin, op, payload), rest)"
proof -
  let ?n = "length payload" and ?mb = "if key = None then 0 else 0x80 :: octet"
  from assms(1) have ok: "op < 16" "?n \<le> max_message_size" "op_close \<le> op \<Longrightarrow> fin \<and> ?n \<le> 125"
    by (auto simp: frame_ok_def)
  note f = fin_octet [OF ok(1), of fin]
  have mb: "?mb = 0 \<or> ?mb = 0x80" by simp
  have masked: "length_octet ?mb ?n AND 0x80 \<noteq> 0 \<longleftrightarrow> key \<noteq> None"
    using length_octet(1) [OF mb, of ?n] by simp
  note len = read_length_octet [OF mb ok(2)] and u = small_length_64(2) [OF ok(2)]
  show ?thesis
  proof (cases key)
    case None
    with masked f len u ok show ?thesis
      by (auto simp: read_frame_def wire_frame_def Let_def)
  next
    case (Some k)
    with assms(2) have "length k = 4" by (simp add: key_ok_def)
    with Some masked f len u ok show ?thesis
      by (auto simp: read_frame_def wire_frame_def Let_def)
  qed
qed

lemma server_frame_wire: "server_frame op payload = wire_frame True op None payload"
  by (simp add: server_frame_def wire_frame_def frame_header_eq)

lemma read_client_frame_wire:
  assumes "frame_ok (fin, op, payload)" "length key = 4"
  shows "read_client_frame (wire_frame fin op (Some key) payload @ rest) = Inr ((op, payload), rest)"
proof -
  let ?n = "length payload" and ?h = "length_octet 0x80 (length payload)"
  from assms(1) have ok: "op < 16" "?n \<le> max_message_size" by (auto simp: frame_ok_def)
  let ?k = "if ?n \<le> 125 then ?n else if ?n \<le> 65535 then 126 else 127"
  have h: "ucast (?h AND 0x7F) = (of_nat ?k :: 64 word)" "?h AND 0x80 \<noteq> 0"
    using length_octet [of "0x80" ?n] small_length_64(1) [of ?k] by simp_all
  note u = small_length_64(2) [OF ok(2)] and f = fin_octet(2) [OF ok(1), of fin]
  consider "?n \<le> 125" | "125 < ?n" "?n \<le> 65535" | "65535 < ?n" by linarith
  then show ?thesis
  proof cases
    case 1
    then have "of_nat ?n \<noteq> (126 :: 64 word)" "of_nat ?n \<noteq> (127 :: 64 word)"
      using u by (auto dest: arg_cong [of _ _ unat])
    with 1 h f u ok(2) assms(2) show ?thesis
      by (simp add: read_client_frame_def wire_frame_def length_ext_def Let_def)
  next
    case 2
    with h f u ok(2) assms(2) show ?thesis
      by (simp add: read_client_frame_def wire_frame_def length_ext_def be_value_short Let_def)
  next
    case 3
    with h f u ok(2) assms(2) show ?thesis
      by (simp add: read_client_frame_def wire_frame_def length_ext_def Let_def)
  qed
qed

text \<open>Every frame that is read satisfies the limits, and consumes its own octets only.\<close>

lemma read_length_InrD: "read_length h s = Inr (n, s') \<Longrightarrow> \<exists>ext. s = ext @ s'"
  by (auto simp: read_length_def Let_def split: if_splits sum.splits dest: read_full_InrD)

lemma read_frame_InrD:
  assumes "read_frame s = Inr ((fin, op, payload), rest)"
  shows "frame_ok (fin, op, payload)" "\<exists>wire. s = wire @ rest \<and> 2 + length payload \<le> length wire"
proof -
  from assms obtain h0 h1 s1 where s: "s = h0 # h1 # s1"
    by (auto simp: read_frame_def read_full_def Suc_le_length_iff numeral_2_eq_2 split: if_splits sum.splits)
  from assms obtain len s2 key s3 data where
    l: "read_length h1 s1 = Inr (len, s2)" "unat len \<le> max_message_size"
    and k: "(if h1 AND 0x80 \<noteq> 0 then read_full 4 s2 else Inr ([0, 0, 0, 0], s2)) = Inr (key, s3)"
    and d: "read_full (unat len) s3 = Inr (data, rest)"
    and r: "fin = (h0 AND 0x80 \<noteq> 0)" "op = h0 AND 0x0F"
      "(if h1 AND 0x80 \<noteq> 0 then apply_mask key data else data) = payload"
      "\<not> (op_close \<le> op \<and> (\<not> fin \<or> 125 < length payload))"
    unfolding s read_frame_def Let_def read_two sum.case prod.case nth_Cons_0 One_nat_def nth_Cons_Suc
      try_bind_Inr guard_Inr split_paired_Ex prod.inject sum.inject
    by (elim exE conjE) (rule that; simp split del: if_split)
  have lens: "length payload = unat len" using d r(3) by (auto dest: read_full_InrD split: if_splits)
  have "op < 16" unfolding r(2) using word_and_le1 [of h0 "0x0F"] by (simp add: word_le_nat_alt word_less_nat_alt)
  then show "frame_ok (fin, op, payload)" using l(2) lens r(4) by (auto simp: frame_ok_def)
  obtain e1 where e1: "s1 = e1 @ s2" using read_length_InrD [OF l(1)] by blast
  obtain e2 where e2: "s2 = e2 @ s3" using k by (auto split: if_splits dest: read_full_InrD)
  have "s3 = data @ rest" "length data = unat len" using read_full_InrD [OF d] by auto
  with s e1 e2 lens show "\<exists>wire. s = wire @ rest \<and> 2 + length payload \<le> length wire"
    by (intro exI [of _ "h0 # h1 # e1 @ e2 @ data"]) simp
qed

lemma read_frame_shrinks: "read_frame s = Inr (f, rest) \<Longrightarrow> length rest < length s"
  using read_frame_InrD(2) [of s "fst f" "fst (snd f)" "snd (snd f)" rest] by auto

lemma parse_format_close: "parse_close_code (format_close_payload code reason) = code mod 2 ^ 16"
proof -
  have "be_value (be_octets 2 (ucast (of_int code :: 16 word))) = ucast (of_int code :: 16 word)"
    unfolding be_value_octets by (rule bit_word_eqI) (auto simp: bit_simps)
  then have "parse_close_code (format_close_payload code reason)
      = int (unat (ucast (of_int code :: 16 word) :: 64 word))"
    by (simp add: parse_close_code_def format_close_payload_def)
  also have "\<dots> = code mod 2 ^ 16"
    by (simp add: unsigned_ucast_eq unsigned_of_int take_bit_eq_mod)
  finally show ?thesis .
qed

section \<open>Properties\<close>

text \<open>A frame that is read is within the limits (at most 16 MiB; a control frame complete and of at
  most 125 octets), and reading it consumes input, so the read loop makes progress.\<close>

lemma read_frame_limits:
  assumes "read_frame s = Inr (f, rest)"
  shows "frame_ok f \<and> length rest < length s"
  using read_frame_InrD(1) [of s "fst f" "fst (snd f)" "snd (snd f)" rest] read_frame_shrinks [OF assms] assms
  by simp

lemma read_frame_limits_witness:
  "frame_ok (True, op_ping, []) \<and> length ([] :: octets) < length (server_frame op_ping [])"
proof -
  have "frame_ok (True, op_ping, [])"
    by (simp add: frame_ok_def word_less_nat_alt max_message_size_def)
  then have "read_frame (server_frame op_ping []) = Inr ((True, op_ping, []), [])"
    using read_frame_wire [of True op_ping "[]" None "[]"] by (simp add: server_frame_wire key_ok_def)
  then show ?thesis by (rule read_frame_limits)
qed


end
