(* ===== verification/Ws_Conn.thy ===== *)
theory Ws_Conn
  imports Ws_Frame Protocol
begin

text \<open>
  The connection of \<open>internal/wsclient/wsclient.go\<close>: writing frames, reading messages, deadlines.
  A connection is the octets still to be read (the end of the list is the end of the stream),
  the octets written, the number of octets the network will still take before it breaks, the
  time and the deadlines. \<open>arrival n\<close> is when the \<open>n\<close>-th octet of the stream arrives, or its end
  if it has only \<open>n\<close> octets; a read lasts until its last octet is there. An octet that arrives at
  the read deadline or later, or a read that begins then, times out (so would octets that
  \<open>bufio\<close> holds already; the code never reads past a deadline). A write at the write deadline or
  later fails. The random masks are the parameter \<open>rng\<close>: \<open>rng n\<close> is the mask of the \<open>n\<close>-th frame,
  \<open>None\<close> where \<open>rand.Read\<close> fails.
\<close>

record ws_conn =
  incoming :: octets
  outgoing :: octets
  capacity :: "nat option"    \<comment> \<open>octets the network still takes, \<open>None\<close> if it does not break\<close>
  masks_used :: nat
  received :: nat             \<comment> \<open>octets read so far\<close>
  arrival :: "nat \<Rightarrow> time"
  net_clock :: time
  read_deadline :: "time option"
  write_deadline :: "time option"
  shut :: bool                \<comment> \<open>\<open>Close\<close> has been called\<close>

type_synonym rng = "nat \<Rightarrow> octets option"

text \<open>A deadline of \<open>None\<close> is Go's zero time: there is none.\<close>

definition passed :: "time option \<Rightarrow> time \<Rightarrow> bool" where
  "passed d t = (case d of None \<Rightarrow> False | Some x \<Rightarrow> x \<le> t)"

definition set_read_deadline :: "time option \<Rightarrow> ws_conn \<Rightarrow> ws_conn" where
  "set_read_deadline d c = c\<lparr>read_deadline := d\<rparr>"

definition set_write_deadline :: "time option \<Rightarrow> ws_conn \<Rightarrow> ws_conn" where
  "set_write_deadline d c = c\<lparr>write_deadline := d\<rparr>"

section \<open>Writing\<close>

definition conn_write :: "octets \<Rightarrow> ws_conn \<Rightarrow> ws_conn \<times> ws_error option" where
  "conn_write bs c =
     (if shut c then (c, Some ConnClosed)
      else if passed (write_deadline c) (net_clock c) then (c, Some TimedOut)
      else
        (case capacity c of
           None \<Rightarrow> (c\<lparr>outgoing := outgoing c @ bs\<rparr>, None)
         | Some k \<Rightarrow>
             if length bs \<le> k then (c\<lparr>outgoing := outgoing c @ bs, capacity := Some (k - length bs)\<rparr>, None)
             else (c\<lparr>outgoing := outgoing c @ take k bs, capacity := Some 0\<rparr>, Some WriteFailed)))"

definition write_frame :: "rng \<Rightarrow> octet \<Rightarrow> octets \<Rightarrow> ws_conn \<Rightarrow> ws_conn \<times> ws_error option" where
  "write_frame rng opcode payload c =
     (if max_message_size < length payload then (c, Some PayloadTooLarge)
      else
        (let c0 = c\<lparr>masks_used := masks_used c + 1\<rparr> in
         case rng (masks_used c) of
           None \<Rightarrow> (c0, Some RandomFailed)
         | Some key \<Rightarrow>
             (case conn_write (frame_header opcode 0x80 (length payload) @ key) c0 of
                (c1, Some e) \<Rightarrow> (c1, Some e)
              | (c1, None) \<Rightarrow> conn_write (apply_mask key payload) c1)))"

text \<open>
  \<open>Close\<close>: a close frame with code 1000 within a second, its errors ignored; then nothing more is
  written, and of what arrives only the \<open>k\<close> octets that \<open>bufio\<close> holds already can still be read.
\<close>

definition close_conn :: "rng \<Rightarrow> nat \<Rightarrow> ws_conn \<Rightarrow> ws_conn" where
  "close_conn rng k c =
     (case write_frame rng op_close (be_octets 2 1000) (set_write_deadline (Some (net_clock c + second)) c) of
        (c1, _) \<Rightarrow> c1\<lparr>incoming := take k (incoming c1), arrival := (\<lambda>_. net_clock c1), shut := True\<rparr>)"

text \<open>What \<open>writeFrame\<close> puts on a network that does not break, in time.\<close>

lemma write_frame_wire:
  assumes "capacity c = None" "\<not> shut c" "\<not> passed (write_deadline c) (net_clock c)"
    "rng (masks_used c) = Some key" "length payload \<le> max_message_size"
  shows "write_frame rng op payload c =
     (c\<lparr>outgoing := outgoing c @ wire_frame True op (Some key) payload, masks_used := masks_used c + 1\<rparr>, None)"
  using assms by (cases c) (simp add: write_frame_def conn_write_def wire_frame_def frame_header_eq)

text \<open>Writing leaves the reading side and the time alone.\<close>

definition same_reader :: "ws_conn \<Rightarrow> ws_conn \<Rightarrow> bool" where
  "same_reader c c' \<longleftrightarrow> incoming c' = incoming c \<and> received c' = received c \<and> arrival c' = arrival c
     \<and> net_clock c' = net_clock c \<and> read_deadline c' = read_deadline c \<and> write_deadline c' = write_deadline c
     \<and> shut c' = shut c"

lemma conn_write_reader: "conn_write bs c = (c', r) \<Longrightarrow> same_reader c c'"
  by (auto simp: conn_write_def same_reader_def split: option.splits if_splits)

lemma write_frame_reader:
  assumes "write_frame rng op payload c = (c', r)"
  shows "same_reader c c'"
proof -
  define c0 where "c0 = c\<lparr>masks_used := masks_used c + 1\<rparr>"
  consider "c' = c" | "c' = c0"
    | key where "conn_write (frame_header op 0x80 (length payload) @ key) c0 = (c', r)"
    | key c1 where "conn_write (frame_header op 0x80 (length payload) @ key) c0 = (c1, None)"
        "conn_write (apply_mask key payload) c1 = (c', r)"
    using assms unfolding write_frame_def c0_def [symmetric] Let_def
    by (auto split: option.splits prod.splits if_splits)
  moreover have "same_reader c c0" "same_reader c c" by (simp_all add: c0_def same_reader_def)
  ultimately show ?thesis by cases (auto dest!: conn_write_reader simp: same_reader_def)
qed

text \<open>On a closed connection and after the deadline nothing is written.\<close>

lemma write_frame_refused:
  assumes "shut c \<or> passed (write_deadline c) (net_clock c)" "rng (masks_used c) = Some key" "length payload \<le> max_message_size"
  shows "write_frame rng op payload c
     = (c\<lparr>masks_used := masks_used c + 1\<rparr>, Some (if shut c then ConnClosed else TimedOut))"
  using assms by (auto simp: write_frame_def conn_write_def)

section \<open>Reading\<close>

text \<open>When the next \<open>n\<close> octets are there, the unread octets that arrive in time, and whether the end does.\<close>

definition arrived :: "ws_conn \<Rightarrow> nat \<Rightarrow> time" where
  "arrived c n = fold max (map (arrival c) [received c..<received c + n]) (net_clock c)"

definition readable :: "ws_conn \<Rightarrow> octets" where
  "readable c =
     take (length (takeWhile (\<lambda>n. \<not> passed (read_deadline c) (arrived c (Suc n))) [0..<length (incoming c)])) (incoming c)"

definition end_in_time :: "ws_conn \<Rightarrow> bool" where
  "end_in_time c \<longleftrightarrow> \<not> passed (read_deadline c) (arrived c (Suc (length (incoming c))))"

definition take_octets :: "nat \<Rightarrow> ws_conn \<Rightarrow> ws_conn" where
  "take_octets n c = c\<lparr>incoming := drop n (incoming c), received := received c + n, net_clock := arrived c n\<rparr>"

text \<open>
  \<open>readFrame\<close> on the connection. What is left to be read after an error is of no interest: the
  callers close the connection.
\<close>

definition receive_frame :: "ws_conn \<Rightarrow> ws_conn \<times> (ws_error + frame)" where
  "receive_frame c =
     (let s = readable c in
      case read_frame s of
        Inr (f, rest) \<Rightarrow> (take_octets (length s - length rest) c, Inr f)
      | Inl e \<Rightarrow>
          if e \<noteq> Eof \<and> e \<noteq> UnexpectedEof then (take_octets (length s) c, Inl e)
          else if shut c then (c, Inl ConnClosed)
          else if end_in_time c then (c\<lparr>net_clock := arrived c (Suc (length (incoming c)))\<rparr>, Inl e)
          else (c\<lparr>net_clock := (case read_deadline c of None \<Rightarrow> net_clock c | Some d \<Rightarrow> max (net_clock c) d)\<rparr>, Inl TimedOut))"

lemma length_readable: "length (readable c) \<le> length (incoming c)"
  by (simp add: readable_def)

lemma receive_frame_shrinks:
  "receive_frame c = (c', Inr f) \<Longrightarrow> length (incoming c') < length (incoming c)"
  using length_readable [of c]
  by (auto simp: receive_frame_def Let_def take_octets_def split: sum.splits if_splits prod.splits dest!: read_frame_shrinks)

text \<open>
  \<open>readMessage\<close>, from the message so far. Each round of the loop consumes at least the two
  octets of a header.
\<close>

function read_message :: "rng \<Rightarrow> octets \<Rightarrow> bool \<Rightarrow> ws_conn \<Rightarrow> ws_conn \<times> (ws_error + octets)" where
  "read_message rng message started c =
     (case receive_frame c of
        (c1, Inl e) \<Rightarrow> (c1, Inl e)
      | (c1, Inr (fin, opcode, payload)) \<Rightarrow>
          if opcode = op_ping then
            (case write_frame rng op_pong payload c1 of
               (c2, Some e) \<Rightarrow> (c2, Inl e)
             | (c2, None) \<Rightarrow> read_message rng message started c2)
          else if opcode = op_pong then read_message rng message started c1
          else if opcode = op_close then (fst (write_frame rng op_close payload c1), Inl Eof)
          else if opcode = op_text \<and> started then (c1, Inl UnexpectedDataFrame)
          else if opcode = op_continuation \<and> \<not> started then (c1, Inl UnexpectedContinuation)
          else if opcode \<noteq> op_text \<and> opcode \<noteq> op_continuation then (c1, Inl (UnsupportedOpcode opcode))
          else
            (let message' = message @ payload in
             if max_message_size < length message' then (c1, Inl MessageTooLarge)
             else if fin then (c1, Inr message')
             else read_message rng message' True c1))"
  by pat_completeness auto
termination
  by (relation "measure (\<lambda>(rng, message, started, c). length (incoming c))")
    (auto dest!: receive_frame_shrinks [OF sym] write_frame_reader [OF sym] simp: same_reader_def)

declare read_message.simps [simp del]

text \<open>\<open>ReadJSON\<close> and \<open>WriteJSON\<close>, with \<open>encoding/json\<close> as a parameter.\<close>

definition read_json :: "(octets \<Rightarrow> 'e + 'v) \<Rightarrow> rng \<Rightarrow> ws_conn \<Rightarrow> ws_conn \<times> ((ws_error + 'e) + 'v)" where
  "read_json unmarshal rng c =
     (case read_message rng [] False c of
        (c', Inl e) \<Rightarrow> (c', Inl (Inl e))
      | (c', Inr payload) \<Rightarrow> (c', (case unmarshal payload of Inl e \<Rightarrow> Inl (Inr e) | Inr v \<Rightarrow> Inr v)))"

definition write_json :: "('v \<Rightarrow> 'e + octets) \<Rightarrow> rng \<Rightarrow> 'v \<Rightarrow> ws_conn \<Rightarrow> ws_conn \<times> (ws_error + 'e) option" where
  "write_json marshal rng v c =
     (case marshal v of
        Inl e \<Rightarrow> (c, Some (Inr e))
      | Inr payload \<Rightarrow>
          (case write_frame rng op_text payload c of
             (c', Some e) \<Rightarrow> (c', Some (Inl e))
           | (c', None) \<Rightarrow> (c', None)))"

section \<open>Time\<close>

lemma fold_max_ge: "(x :: time) \<le> fold max ts x"
proof (induction ts arbitrary: x)
  case (Cons t ts)
  have "x \<le> max t x" by simp
  also have "\<dots> \<le> fold max ts (max t x)" by (rule Cons)
  finally show ?case by simp
qed simp

lemma arrived_0 [simp]: "arrived c 0 = net_clock c"
  by (simp add: arrived_def)

lemma arrived_add: "arrived c (m + n) = fold max (map (arrival c) [received c + m..<received c + (m + n)]) (arrived c m)"
  using upt_add_eq_append [of "received c" "received c + m" n] by (simp add: arrived_def add.assoc)

lemma arrived_mono: "m \<le> n \<Longrightarrow> arrived c m \<le> arrived c n"
  using arrived_add [of c m "n - m"] fold_max_ge [of "arrived c m"] by simp

lemma arrived_ge: "net_clock c \<le> arrived c n"
  using arrived_mono [of 0 n c] by simp

lemma arrival_le_arrived: "0 < n \<Longrightarrow> arrival c (received c) \<le> arrived c n"
  using arrived_mono [of 1 n c] by (simp add: arrived_def)

lemma arrived_take_octets [simp]: "arrived (take_octets m c) n = arrived c (m + n)"
  unfolding arrived_add arrived_def [of "take_octets m c"] by (simp add: take_octets_def add.assoc)

lemma arrived_update [simp]:
  "arrived (c\<lparr>outgoing := a\<rparr>) n = arrived c n" "arrived (c\<lparr>capacity := b\<rparr>) n = arrived c n"
  "arrived (c\<lparr>masks_used := i\<rparr>) n = arrived c n" "arrived (c\<lparr>write_deadline := d\<rparr>) n = arrived c n"
  "arrived (c\<lparr>read_deadline := d\<rparr>) n = arrived c n"
  by (simp_all add: arrived_def)

lemma take_octets_take_octets [simp]: "take_octets n (take_octets m c) = take_octets (m + n) c"
  by (simp add: take_octets_def [of n] take_octets_def [of "m + n"]) (simp add: take_octets_def add.commute)

lemma take_octets_fields [simp]:
  "incoming (take_octets n c) = drop n (incoming c)" "outgoing (take_octets n c) = outgoing c"
  "capacity (take_octets n c) = capacity c" "masks_used (take_octets n c) = masks_used c"
  "net_clock (take_octets n c) = arrived c n" "read_deadline (take_octets n c) = read_deadline c"
  "write_deadline (take_octets n c) = write_deadline c" "shut (take_octets n c) = shut c"
  by (simp_all add: take_octets_def)

lemma take_octets_update [simp]:
  "take_octets n (c\<lparr>outgoing := a\<rparr>) = (take_octets n c)\<lparr>outgoing := a\<rparr>"
  "take_octets n (c\<lparr>masks_used := i\<rparr>) = (take_octets n c)\<lparr>masks_used := i\<rparr>"
  by (simp_all add: take_octets_def)

lemma passed_mono: "passed d t \<Longrightarrow> t \<le> u \<Longrightarrow> passed d u"
  by (auto simp: passed_def split: option.splits)

lemma passed_None [simp]: "\<not> passed None t"
  by (simp add: passed_def)

text \<open>Octets that arrive in time are readable.\<close>

lemma readable_in_time:
  assumes "n \<le> length (incoming c)" "\<not> passed (read_deadline c) (arrived c n)"
  obtains k where "readable c = take n (incoming c) @ take k (drop n (incoming c))"
proof -
  let ?P = "\<lambda>i. \<not> passed (read_deadline c) (arrived c (Suc i))"
  let ?k = "length (takeWhile ?P [0..<length (incoming c)])"
  have "?P i" if "i < n" for i
    using that assms(2) passed_mono [of "read_deadline c" "arrived c (Suc i)" "arrived c n"] arrived_mono [of "Suc i" n c]
    by auto
  then have "takeWhile ?P ([0..<n] @ [n..<length (incoming c)]) = [0..<n] @ takeWhile ?P [n..<length (incoming c)]"
    by (intro takeWhile_append2) simp
  then have "n \<le> ?k" using assms(1) upt_add_eq_append [of 0 n "length (incoming c) - n"] by simp
  then have "?k = n + (?k - n)" by simp
  then have "readable c = take n (incoming c) @ take (?k - n) (drop n (incoming c))"
    unfolding readable_def by (metis take_add)
  with that show thesis by blast
qed

lemma receive_frame_wire:
  assumes "frame_ok (fin, op, payload)" "key_ok key" "incoming c = wire_frame fin op key payload @ rest"
    "\<not> passed (read_deadline c) (arrived c (length (wire_frame fin op key payload)))"
  shows "receive_frame c = (take_octets (length (wire_frame fin op key payload)) c, Inr (fin, op, payload))"
proof -
  let ?w = "wire_frame fin op key payload"
  obtain k where "readable c = ?w @ take k rest"
    by (rule readable_in_time [of "length ?w" c]) (use assms(3,4) in simp_all)
  then show ?thesis
    using read_frame_wire [OF assms(1,2), of "take k rest"] by (simp add: receive_frame_def Let_def)
qed

section \<open>Messages\<close>

lemma read_message_limit:
  "read_message rng message started c = (c', Inr m) \<Longrightarrow> length m \<le> max_message_size"
proof (induction rng message started c rule: read_message.induct)
  case (1 rng message started c)
  obtain fin op p c1 where f: "receive_frame c = (c1, Inr (fin, op, p))"
    using "1.prems" by (cases "receive_frame c"; cases "snd (receive_frame c)")
      (auto simp: read_message.simps [of rng message started c])
  note step = "1.prems" [unfolded read_message.simps [of rng message started c] f sum.case prod.case Let_def]
  consider (ping) "op = op_ping" | (pong) "op = op_pong" | (data) "op \<noteq> op_ping" "op \<noteq> op_pong" by blast
  then show ?case
  proof cases
    case ping
    obtain c2 r where w: "write_frame rng op_pong p c1 = (c2, r)" by (cases "write_frame rng op_pong p c1")
    with step ping have "r = None" by (cases r) auto
    with "1.IH"(1) [OF f [symmetric] refl refl refl ping w [symmetric]] step ping w show ?thesis by simp
  next
    case pong
    then show ?thesis using "1.IH"(2) [OF f [symmetric] refl refl refl] step by simp
  next
    case data
    then show ?thesis using "1.IH"(3) [OF f [symmetric] refl refl refl data] step by (auto split: if_splits)
  qed
qed

text \<open>
  A message on the wire: fragments, each preceded by control frames; the last fragment has
  the FIN bit. The client answers every ping with a pong that carries the same payload.
\<close>

datatype control = Ping octets | Pong octets

fun control_payload :: "control \<Rightarrow> octets" where
  "control_payload (Ping p) = p"
| "control_payload (Pong p) = p"

fun control_wire :: "control \<Rightarrow> octets" where
  "control_wire (Ping p) = server_frame op_ping p"
| "control_wire (Pong p) = server_frame op_pong p"

fun pong_replies :: "rng \<Rightarrow> nat \<Rightarrow> control list \<Rightarrow> octets" where
  "pong_replies rng n [] = []"
| "pong_replies rng n (Ping p # cs) = wire_frame True op_pong (rng n) p @ pong_replies rng (Suc n) cs"
| "pong_replies rng n (Pong p # cs) = pong_replies rng n cs"

fun ping_count :: "control list \<Rightarrow> nat" where
  "ping_count [] = 0"
| "ping_count (Ping p # cs) = Suc (ping_count cs)"
| "ping_count (Pong p # cs) = ping_count cs"

fun message_wire :: "bool \<Rightarrow> (control list \<times> octets) list \<Rightarrow> octets" where
  "message_wire started [] = []"
| "message_wire started ((cs, fragment) # rest) =
     concat (map control_wire cs)
     @ wire_frame (rest = []) (if started then op_continuation else op_text) None fragment
     @ message_wire True rest"

lemma pong_replies_append:
  "pong_replies rng n (xs @ ys) = pong_replies rng n xs @ pong_replies rng (n + ping_count xs) ys"
  by (induction rng n xs rule: pong_replies.induct) auto

lemma ping_count_append: "ping_count (xs @ ys) = ping_count xs + ping_count ys"
  by (induction xs rule: ping_count.induct) auto

lemma frame_ok_control: "length p \<le> 125 \<Longrightarrow> op < 16 \<Longrightarrow> frame_ok (True, op, p)"
  by (simp add: frame_ok_def max_message_size_def)

text \<open>The connection is open and its first \<open>n\<close> octets arrive before both deadlines.\<close>

definition punctual :: "ws_conn \<Rightarrow> nat \<Rightarrow> bool" where
  "punctual c n \<longleftrightarrow> \<not> shut c \<and> \<not> passed (read_deadline c) (arrived c n) \<and> \<not> passed (write_deadline c) (arrived c n)"

lemma punctual_mono: "punctual c n \<Longrightarrow> m \<le> n \<Longrightarrow> punctual c m"
  unfolding punctual_def using passed_mono arrived_mono by blast

lemma punctual_simps [simp]:
  "punctual (take_octets m c) n = punctual c (m + n)" "punctual (c\<lparr>outgoing := a\<rparr>) n = punctual c n"
  "punctual (c\<lparr>masks_used := i\<rparr>) n = punctual c n"
  by (simp_all add: punctual_def)

lemma receive_in_time:
  assumes "frame_ok (fin, op, payload)" "incoming c = wire_frame fin op None payload @ rest"
    "punctual c (length (wire_frame fin op None payload))"
  shows "receive_frame c = (take_octets (length (wire_frame fin op None payload)) c, Inr (fin, op, payload))"
  by (rule receive_frame_wire [OF assms(1) _ assms(2)]) (use assms(3) in \<open>simp_all add: key_ok_def punctual_def\<close>)

lemma read_controls:
  assumes "list_all (\<lambda>ct. length (control_payload ct) \<le> 125) cs" "capacity c = None"
    "\<And>n. rng n \<noteq> None" "incoming c = concat (map control_wire cs) @ rest"
    "punctual c (length (concat (map control_wire cs)))"
  shows "read_message rng message started c = read_message rng message started
     ((take_octets (length (concat (map control_wire cs))) c)
        \<lparr>outgoing := outgoing c @ pong_replies rng (masks_used c) cs, masks_used := masks_used c + ping_count cs\<rparr>)"
  using assms
proof (induction cs arbitrary: c)
  case (Cons ct cs)
  let ?n = "length (control_wire ct)"
  have p: "punctual c ?n" by (rule punctual_mono [OF Cons.prems(5)]) simp
  have ok: "frame_ok (True, op_ping, control_payload ct)" "frame_ok (True, op_pong, control_payload ct)"
    using Cons.prems(1) by (auto intro: frame_ok_control)
  show ?case
  proof (cases ct)
    case (Ping p)
    obtain key where key: "rng (masks_used c) = Some key" using Cons.prems(3) by blast
    let ?c2 = "(take_octets ?n c)\<lparr>outgoing := outgoing c @ wire_frame True op_pong (Some key) p,
        masks_used := masks_used c + 1\<rparr>"
    have "receive_frame c = (take_octets ?n c, Inr (True, op_ping, p))"
      using receive_in_time [of True op_ping p c "concat (map control_wire cs) @ rest"] ok(1) Cons.prems(4) \<open>punctual c ?n\<close>
      by (simp add: Ping server_frame_wire)
    moreover have "write_frame rng op_pong p (take_octets ?n c) = (?c2, None)"
      using Cons.prems(1,2) Ping key \<open>punctual c ?n\<close>
      by (subst write_frame_wire) (simp_all add: max_message_size_def punctual_def)
    ultimately have "read_message rng message started c = read_message rng message started ?c2"
      by (subst read_message.simps) simp
    also have "\<dots> = read_message rng message started
        ((take_octets (length (concat (map control_wire cs))) ?c2)
          \<lparr>outgoing := outgoing ?c2 @ pong_replies rng (masks_used ?c2) cs,
           masks_used := masks_used ?c2 + ping_count cs\<rparr>)"
      by (rule Cons.IH) (use Cons.prems in simp_all)
    finally show ?thesis by (simp add: Ping key)
  next
    case (Pong p)
    have "receive_frame c = (take_octets ?n c, Inr (True, op_pong, p))"
      using receive_in_time [of True op_pong p c "concat (map control_wire cs) @ rest"] ok(2) Cons.prems(4) \<open>punctual c ?n\<close>
      by (simp add: Pong server_frame_wire)
    then have "read_message rng message started c = read_message rng message started (take_octets ?n c)"
      by (subst read_message.simps) simp
    also have "\<dots> = read_message rng message started
        ((take_octets (length (concat (map control_wire cs))) (take_octets ?n c))
          \<lparr>outgoing := outgoing (take_octets ?n c) @ pong_replies rng (masks_used (take_octets ?n c)) cs,
           masks_used := masks_used (take_octets ?n c) + ping_count cs\<rparr>)"
      by (rule Cons.IH) (use Cons.prems in simp_all)
    finally show ?thesis by (simp add: Pong)
  qed
next
  case Nil
  then show ?case by (cases c) (simp add: take_octets_def arrived_def)
qed

lemma read_message_wire:
  assumes "items \<noteq> []" "capacity c = None" "\<And>n. rng n \<noteq> None"
    "list_all (\<lambda>(cs, f). list_all (\<lambda>ct. length (control_payload ct) \<le> 125) cs) items"
    "length (message @ concat (map snd items)) \<le> max_message_size"
    "incoming c = message_wire started items @ rest" "punctual c (length (message_wire started items))"
  shows "read_message rng message started c =
     ((take_octets (length (message_wire started items)) c)
        \<lparr>outgoing := outgoing c @ pong_replies rng (masks_used c) (concat (map fst items)),
         masks_used := masks_used c + ping_count (concat (map fst items))\<rparr>,
      Inr (message @ concat (map snd items)))"
  using assms
proof (induction items arbitrary: c message started)
  case (Cons i items)
  obtain cs f where i: "i = (cs, f)" by (cases i)
  let ?op = "if started then op_continuation else op_text"
  let ?w = "wire_frame (items = []) ?op None f" and ?n = "length (concat (map control_wire cs))"
  let ?c1 = "(take_octets ?n c)\<lparr>outgoing := outgoing c @ pong_replies rng (masks_used c) cs,
      masks_used := masks_used c + ping_count cs\<rparr>"
  have pn: "punctual c ?n" "punctual c (?n + length ?w)"
    by (rule punctual_mono [OF Cons.prems(7)], simp add: i)+
  have controls: "read_message rng message started c = read_message rng message started ?c1"
    using read_controls [OF _ Cons.prems(2,3), where cs = cs and rest = "?w @ message_wire True items @ rest"] Cons.prems(4,6) pn(1)
    by (simp add: i)
  have len: "length (message @ f) \<le> max_message_size" using Cons.prems(5) by (simp add: i)
  then have ok: "frame_ok (items = [], ?op, f)" by (simp add: frame_ok_def word_le_nat_alt)
  have "incoming ?c1 = ?w @ message_wire True items @ rest" using Cons.prems(6) by (simp add: i)
  from receive_in_time [OF ok this] pn(2)
  have frame: "receive_frame ?c1 = (take_octets (length ?w) ?c1, Inr (items = [], ?op, f))" by simp
  show ?case
  proof (cases "items = []")
    case True
    with frame len show ?thesis
      unfolding controls by (subst read_message.simps) (simp add: i not_less)
  next
    case False
    let ?c2 = "take_octets (length ?w) ?c1"
    have "read_message rng message started ?c1 = read_message rng (message @ f) True ?c2"
      using frame len False by (subst read_message.simps) (simp add: not_less)
    also have "\<dots> = ((take_octets (length (message_wire True items)) ?c2)
        \<lparr>outgoing := outgoing ?c2 @ pong_replies rng (masks_used ?c2) (concat (map fst items)),
         masks_used := masks_used ?c2 + ping_count (concat (map fst items))\<rparr>,
      Inr ((message @ f) @ concat (map snd items)))"
      by (rule Cons.IH) (use Cons.prems False in \<open>simp_all add: i add.assoc\<close>)
    finally show ?thesis
      unfolding controls by (simp add: i pong_replies_append ping_count_append add.assoc)
  qed
qed simp

text \<open>A read ends at its deadline.\<close>

lemma readable_arrived:
  assumes "n \<le> length (readable c)" "read_deadline c = Some d" "0 < n"
  shows "arrived c n < d"
proof -
  let ?P = "\<lambda>n. \<not> passed (read_deadline c) (arrived c (Suc n))"
  let ?xs = "takeWhile ?P [0..<length (incoming c)]"
  have n: "n - 1 < length ?xs" using assms(1,3) by (auto simp: readable_def)
  then have "?xs ! (n - 1) = n - 1" using takeWhile_nth [OF n] length_takeWhile_le [of ?P "[0..<length (incoming c)]"] by simp
  then have "?P (n - 1)" using nth_mem [OF n] set_takeWhileD by fastforce
  then show ?thesis using assms(2,3) by (simp add: passed_def)
qed

lemma receive_frame_deadline:
  assumes "receive_frame c = (c', r)" "read_deadline c = Some d" "net_clock c \<le> d"
  shows "net_clock c \<le> net_clock c'" "net_clock c' \<le> d" "read_deadline c' = Some d" "write_deadline c' = write_deadline c"
    "r = Inr f \<Longrightarrow> net_clock c' < d"
proof -
  have le: "arrived c n \<le> d" if "n \<le> length (readable c)" for n
    using readable_arrived [OF that assms(2)] assms(3) by (cases "n = 0") auto
  have lt: "arrived c (length (readable c) - length rest) < d" if "read_frame (readable c) = Inr (f, rest)" for rest
    using readable_arrived [of "length (readable c) - length rest" c d] read_frame_shrinks [OF that] assms(2) by simp
  have e: "arrived c (Suc (length (incoming c))) \<le> d" if "end_in_time c"
    using that assms(2) by (auto simp: end_in_time_def passed_def)
  have "net_clock c \<le> net_clock c' \<and> net_clock c' \<le> d \<and> read_deadline c' = Some d \<and> write_deadline c' = write_deadline c
    \<and> (r = Inr f \<longrightarrow> net_clock c' < d)"
    using assms arrived_ge le lt e
    by (auto simp: receive_frame_def Let_def split: sum.splits prod.splits if_splits)
  then show "net_clock c \<le> net_clock c'" "net_clock c' \<le> d" "read_deadline c' = Some d"
    "write_deadline c' = write_deadline c" "r = Inr f \<Longrightarrow> net_clock c' < d"
    by simp_all
qed

lemma read_message_deadline:
  "read_message rng message started c = (c', r) \<Longrightarrow> read_deadline c = Some d \<Longrightarrow> net_clock c \<le> d \<Longrightarrow>
     net_clock c \<le> net_clock c' \<and> net_clock c' \<le> d \<and> (\<forall>m. r = Inr m \<longrightarrow> net_clock c' < d)"
proof (induction rng message started c rule: read_message.induct)
  case (1 rng message started c)
  obtain c1 r1 where f: "receive_frame c = (c1, r1)" by (cases "receive_frame c")
  note d1 = receive_frame_deadline [OF f "1.prems"(2,3)]
  show ?case
  proof (cases r1)
    case (Inl e)
    with f d1(1,2) "1.prems"(1) show ?thesis by (auto simp: read_message.simps [of rng message started c])
  next
    case (Inr a)
    obtain fin op p where r1: "r1 = Inr (fin, op, p)" using Inr by (cases a) auto
    note f' = f [unfolded r1]
    note step = "1.prems"(1) [unfolded read_message.simps [of rng message started c] f' sum.case prod.case Let_def]
    note lt = d1(5) [OF r1]
    consider (ping) "op = op_ping" | (pong) "op = op_pong" | (close) "op = op_close"
      | (data) "op \<noteq> op_ping" "op \<noteq> op_pong" "op \<noteq> op_close" by blast
    then show ?thesis
    proof cases
      case ping
      obtain c2 r2 where w: "write_frame rng op_pong p c1 = (c2, r2)" by (cases "write_frame rng op_pong p c1")
      have c2: "net_clock c2 = net_clock c1" "read_deadline c2 = Some d"
        using write_frame_reader [OF w] d1(3) by (simp_all add: same_reader_def)
      show ?thesis
      proof (cases r2)
        case None
        from "1.IH"(1) [OF f' [symmetric] refl refl refl ping w [symmetric] None _ c2(2)] step ping w None c2(1) d1(1,2)
        show ?thesis by simp
      qed (use step ping w c2(1) d1(1,2) in auto)
    next
      case pong
      with "1.IH"(2) [OF f' [symmetric] refl refl refl] step d1(1-3) show ?thesis by simp
    next
      case close
      obtain c2 r2 where w: "write_frame rng op_close p c1 = (c2, r2)" by (cases "write_frame rng op_close p c1")
      with step close write_frame_reader [OF w] d1(1,2) show ?thesis by (auto simp: same_reader_def)
    next
      case data
      with "1.IH"(3) [OF f' [symmetric] refl refl refl data] step d1(1-3) lt show ?thesis
        by (auto split: if_splits)
    qed
  qed
qed

text \<open>On a closed connection a read writes nothing and uses up what is buffered.\<close>

lemma receive_frame_shut:
  assumes "receive_frame c = (c', r)" "shut c"
  shows "shut c'" "outgoing c' = outgoing c" "r = Inr f \<Longrightarrow> length (incoming c') < length (incoming c)"
  using assms receive_frame_shrinks [of c c' f]
  by (auto simp: receive_frame_def Let_def split: sum.splits prod.splits if_splits)

lemma write_frame_shut:
  assumes "write_frame rng op payload c = (c', r)" "shut c"
  shows "outgoing c' = outgoing c" "r \<noteq> None"
  using assms by (auto simp: write_frame_def conn_write_def Let_def split: if_splits option.splits)

lemma read_message_shut:
  "read_message rng message started c = (c', r) \<Longrightarrow> shut c \<Longrightarrow>
     shut c' \<and> outgoing c' = outgoing c \<and> (\<forall>m. r = Inr m \<longrightarrow> length (incoming c') < length (incoming c))"
proof (induction rng message started c rule: read_message.induct)
  case (1 rng message started c)
  obtain c1 r1 where f: "receive_frame c = (c1, r1)" by (cases "receive_frame c")
  note d1 = receive_frame_shut [OF f "1.prems"(2)]
  show ?case
  proof (cases r1)
    case (Inl e)
    with f d1(1,2) "1.prems"(1) show ?thesis by (auto simp: read_message.simps [of rng message started c])
  next
    case (Inr a)
    obtain fin op p where r1: "r1 = Inr (fin, op, p)" using Inr by (cases a) auto
    note f' = f [unfolded r1]
    note step = "1.prems"(1) [unfolded read_message.simps [of rng message started c] f' sum.case prod.case Let_def]
    note lt = d1(3) [OF r1]
    consider (ping) "op = op_ping" | (pong) "op = op_pong" | (close) "op = op_close"
      | (data) "op \<noteq> op_ping" "op \<noteq> op_pong" "op \<noteq> op_close" by blast
    then show ?thesis
    proof cases
      case ping
      obtain c2 r2 where w: "write_frame rng op_pong p c1 = (c2, r2)" by (cases "write_frame rng op_pong p c1")
      with step ping write_frame_shut [OF w d1(1)] write_frame_reader [OF w] d1(1,2) show ?thesis
        by (auto simp: same_reader_def)
    next
      case pong
      with "1.IH"(2) [OF f' [symmetric] refl refl refl] step d1(1,2) lt show ?thesis by auto
    next
      case close
      obtain c2 r2 where w: "write_frame rng op_close p c1 = (c2, r2)" by (cases "write_frame rng op_close p c1")
      with step close write_frame_shut(1) [OF w d1(1)] write_frame_reader [OF w] d1(1,2) show ?thesis
        by (auto simp: same_reader_def)
    next
      case data
      with "1.IH"(3) [OF f' [symmetric] refl refl refl data] step d1(1,2) lt show ?thesis
        by (auto split: if_splits)
    qed
  qed
qed

text \<open>A ping that arrives when the deadline of an earlier write has passed cannot be answered.\<close>

lemma late_pong_times_out:
  assumes "incoming c = control_wire (Ping p) @ rest" "length p \<le> 125" "rng (masks_used c) = Some key"
    "\<not> passed (read_deadline c) (arrived c (length (control_wire (Ping p))))"
    "passed (write_deadline c) (arrived c (length (control_wire (Ping p))))" "\<not> shut c"
  shows "snd (read_message rng message started c) = Inl TimedOut"
proof -
  let ?n = "length (control_wire (Ping p))"
  have "frame_ok (True, op_ping, p)" using assms(2) by (intro frame_ok_control) simp_all
  from receive_frame_wire [OF this, of None] assms(1,4)
  have "receive_frame c = (take_octets ?n c, Inr (True, op_ping, p))" by (simp add: server_frame_wire key_ok_def)
  moreover have "write_frame rng op_pong p (take_octets ?n c)
      = ((take_octets ?n c)\<lparr>masks_used := masks_used c + 1\<rparr>, Some TimedOut)"
    using assms(2,3,5,6) by (subst write_frame_refused) (simp_all add: max_message_size_def)
  ultimately show ?thesis by (subst read_message.simps) simp
qed

section \<open>Properties\<close>

definition still_conn :: ws_conn where
  "still_conn = \<lparr>incoming = [], outgoing = [], capacity = None, masks_used = 0, received = 0, arrival = (\<lambda>_. 0),
     net_clock = 0, read_deadline = None, write_deadline = None, shut = False\<rparr>"

lemma arrived_still [simp]: "arrived (still_conn\<lparr>incoming := s\<rparr>) n = 0"
proof -
  have "fold max (map (\<lambda>_. 0) xs) (0 :: time) = 0" for xs :: "nat list" by (induction xs) simp_all
  then show ?thesis by (simp add: arrived_def still_conn_def)
qed

text \<open>C27: Client and server read back what the other side writes, with the octets that follow left
  in place: the client's masked frames under any mask, and the server's frames, whatever length
  encoding the payload needs.\<close>

theorem frames_round_trip:
  assumes "frame_ok (True, op, payload)" "capacity c = None" "\<not> shut c" "\<not> passed (write_deadline c) (net_clock c)"
    "rng (masks_used c) = Some key" "length key = 4"
  shows "read_frame (server_frame op payload @ rest) = Inr ((True, op, payload), rest)
    \<and> (case write_frame rng op payload c of
         (c', e) \<Rightarrow> e = None \<and> (\<exists>wire. outgoing c' = outgoing c @ wire
           \<and> read_client_frame (wire @ rest) = Inr ((op, payload), rest)
           \<and> read_frame (wire @ rest) = Inr ((True, op, payload), rest)))"
proof -
  have "length payload \<le> max_message_size" using assms(1) by (simp add: frame_ok_def)
  then show ?thesis
    using read_frame_wire [OF assms(1), of None] read_frame_wire [OF assms(1), of "Some key"]
      read_client_frame_wire [OF assms(1,6)] write_frame_wire [of c rng key payload op] assms(2-6)
    by (auto simp: server_frame_wire key_ok_def)
qed

lemma frames_round_trip_witness:
  "read_frame (server_frame op_text [0x68, 0x69] @ [7]) = Inr ((True, op_text, [0x68, 0x69]), [7])"
proof -
  have "frame_ok (True, op_text, [0x68, 0x69])"
    by (simp add: frame_ok_def word_less_nat_alt word_le_nat_alt max_message_size_def)
  then show ?thesis
    using frames_round_trip [of op_text "[0x68, 0x69]" still_conn "\<lambda>_. Some [1, 2, 3, 4]" "[1, 2, 3, 4]" "[7]"]
    by (simp add: still_conn_def)
qed

text \<open>C13: A fragmented message with pings and pongs between its fragments that arrives before the
  deadlines is read as the concatenation of the fragments, every ping is answered in order by a
  masked pong with the same payload, the octets after the message stay unread, and the read
  returns when the last octet of the message is there.\<close>

theorem read_message_reassembles:
  assumes "items \<noteq> []" "capacity c = None" "\<And>n. rng n \<noteq> None"
    "list_all (\<lambda>(cs, f). list_all (\<lambda>ct. length (control_payload ct) \<le> 125) cs) items"
    "length (concat (map snd items)) \<le> max_message_size"
    "incoming c = message_wire False items @ rest" "punctual c (length (message_wire False items))"
  shows "\<exists>c'. read_message rng [] False c = (c', Inr (concat (map snd items))) \<and> incoming c' = rest
     \<and> outgoing c' = outgoing c @ pong_replies rng (masks_used c) (concat (map fst items))
     \<and> net_clock c' = arrived c (length (message_wire False items))"
  using read_message_wire [OF assms(1-4), of "[]" False rest] assms(5-7) by simp

lemma read_message_reassembles_witness:
  "\<exists>c'. read_message (\<lambda>_. Some [1, 2, 3, 4]) [] False
     (still_conn\<lparr>incoming := message_wire False [([], [0x61]), ([Ping [9]], [0x62])], write_deadline := Some 5\<rparr>)
       = (c', Inr [0x61, 0x62])
     \<and> outgoing c' = wire_frame True op_pong (Some [1, 2, 3, 4]) [9] \<and> net_clock c' = 0"
proof -
  let ?c = "still_conn\<lparr>incoming := message_wire False [([], [0x61]), ([Ping [9]], [0x62])], write_deadline := Some 5\<rparr>"
  have z: "arrived ?c n = 0" for n by simp
  then have p: "punctual ?c n" for n unfolding punctual_def z by (simp add: still_conn_def passed_def)
  show ?thesis
    using read_message_reassembles [OF _ _ _ _ _ _ p, of "[([], [0x61]), ([Ping [9]], [0x62])]" "\<lambda>_. Some [1, 2, 3, 4]" "[]",
        unfolded z]
    by (auto simp: still_conn_def max_message_size_def)
qed

text \<open>No message that is returned exceeds 16 MiB, however the server fragments it.\<close>

lemma read_message_bounded:
  assumes "read_message rng [] False c = (c', Inr m)"
  shows "length m \<le> max_message_size"
  using assms by (rule read_message_limit)

end
