(* ===== verification/Gateway_Wire.thy ===== *)
theory Gateway_Wire
  imports Discord_Json Ws_Conn
begin

text \<open>
  The gateway of \<open>internal/discord/gateway.go\<close> over the connection of
  \<open>internal/wsclient/wsclient.go\<close>: \<open>ReadJSON\<close> and \<open>writeJSON\<close> on the octets of the stream, driving
  the link of \<open>Gateway\<close>. Every run on the octets is a run of the link, and the text messages
  that a server reads from the octets written are those that the link records as sent.
  Reads and writes have the deadlines of the code. Parameter: the texts of the errors of the
  connection.
\<close>

section \<open>Octets and texts\<close>

definition octets_of :: "gostring \<Rightarrow> octets" where
  "octets_of s = map (\<lambda>c. word_of_nat (byte c)) s"

definition text_of :: "octets \<Rightarrow> gostring" where
  "text_of p = map (\<lambda>w. char_of (unat w)) p"

lemma text_of_octets [simp]: "text_of (octets_of s) = s"
proof -
  have "char_of (unat (word_of_nat (byte c) :: octet)) = c" for c
    using nat_of_char_less_256 [of c] by (simp add: unat_of_nat)
  then show ?thesis by (simp add: text_of_def octets_of_def o_def)
qed

section \<open>The connection of a link\<close>

text \<open>\<open>writeJSON\<close>, with ten seconds for the write; \<open>json.Marshal\<close> does not fail on these payloads.\<close>

definition write_wire ::
    "(ws_error \<Rightarrow> gostring) \<Rightarrow> gostring \<Rightarrow> rng \<Rightarrow> gw_message \<Rightarrow> ws_conn \<Rightarrow> ws_conn \<times> gostring option"
where
  "write_wire err goos rng m c =
     (case write_json (\<lambda>m. Inr (octets_of (message_text goos m))) rng m
            (set_write_deadline (Some (net_clock c + 10 * second)) c) of
        (c', None) \<Rightarrow> (c', None)
      | (c', Some (Inl e)) \<Rightarrow> (c', Some (err e))
      | (c', Some (Inr e)) \<Rightarrow> (c', Some e))"

definition read_wire ::
    "'u gateway_lib \<Rightarrow> (ws_error \<Rightarrow> gostring) \<Rightarrow> rng \<Rightarrow> ws_conn \<Rightarrow> ws_conn \<times> (gostring + envelope)"
where
  "read_wire lib err rng c =
     (case read_json (\<lambda>p. unmarshal decode_envelope (gl_bad lib) (text_of p)) rng c of
        (c', Inl (Inl e)) \<Rightarrow> (c', Inl (err e))
      | (c', Inl (Inr e)) \<Rightarrow> (c', Inl e)
      | (c', Inr en) \<Rightarrow> (c', Inr en))"

text \<open>The hello has to arrive within thirty seconds; then the read deadline is lifted.\<close>

definition hello_wire ::
    "'u gateway_lib \<Rightarrow> (ws_error \<Rightarrow> gostring) \<Rightarrow> rng \<Rightarrow> ws_conn \<Rightarrow> ws_conn \<times> (gostring + duration)"
where
  "hello_wire lib err rng c =
     (case read_message rng [] False (set_read_deadline (Some (net_clock c + 30 * second)) c) of
        (c', r) \<Rightarrow>
          (case check_hello lib (case r of Inl e \<Rightarrow> Inl (err e) | Inr p \<Rightarrow> Inr (text_of p)) of
             Inl e \<Rightarrow> (c', Inl e)
           | Inr d \<Rightarrow> (set_read_deadline None c', Inr d)))"

text \<open>
  What can happen: the read loop reads on or looks around, the heartbeat goroutine takes a step;
  its writes happen at a time of their own. The goroutines that wait for a failed heartbeat and
  for the context close the connection, which can happen at any moment.
\<close>

datatype wire_event =
    ReadNext | HeartTick | HeartLoad | HeartWrite time | SeeHeartbeat | SeeCancel | CloseConn nat

definition wire_step ::
    "'u gateway_lib \<Rightarrow> (ws_error \<Rightarrow> gostring) \<Rightarrow> gostring \<Rightarrow> rng \<Rightarrow> wire_event \<Rightarrow> ws_conn \<times> link
      \<Rightarrow> (ws_conn \<times> link) \<times> gostring option"
where
  "wire_step lib err goos rng ev s =
     (case s of (c, l) \<Rightarrow>
      if heart l = Crashed then ((c, l), None)
      else
        (case ev of
           ReadNext \<Rightarrow>
             (case read_wire lib err rng c of
                (c1, Inl e) \<Rightarrow> ((c1, l), Some (''read Discord Gateway event: '' @ e))
              | (c1, Inr en) \<Rightarrow>
                  (case (if en_op en = 1
                         then write_wire err goos rng (Heartbeat (heartbeat_data (note_sequence en (gateway_of l)))) c1
                         else (c1, None)) of
                     (c2, failure) \<Rightarrow> (case handle_envelope lib failure en l of (l', r) \<Rightarrow> ((c2, l'), r))))
         | HeartTick \<Rightarrow> ((c, clear_ack l), None)
         | HeartLoad \<Rightarrow> ((c, load_sequence l), None)
         | HeartWrite t \<Rightarrow>
             (case heart l of
                Loaded ticking d \<Rightarrow>
                  (case write_wire err goos rng (Heartbeat d) (c\<lparr>net_clock := max (net_clock c) t\<rparr>) of
                     (c', failure) \<Rightarrow> ((c', write_beat failure l), None))
              | _ \<Rightarrow> ((c, l), None))
         | SeeHeartbeat \<Rightarrow> ((c, l), heartbeat_err l)
         | SeeCancel \<Rightarrow> ((c, l), Some ''context canceled'')
         | CloseConn k \<Rightarrow> ((close_conn rng k c, l), None)))"

fun wire_run ::
    "'u gateway_lib \<Rightarrow> (ws_error \<Rightarrow> gostring) \<Rightarrow> gostring \<Rightarrow> rng \<Rightarrow> wire_event list \<Rightarrow> ws_conn \<times> link
      \<Rightarrow> (ws_conn \<times> link) \<times> gostring option"
where
  "wire_run lib err goos rng [] s = (s, None)"
| "wire_run lib err goos rng (ev # evs) s =
     (case wire_step lib err goos rng ev s of
        (s', Some e) \<Rightarrow> (s', Some e)
      | (s', None) \<Rightarrow> wire_run lib err goos rng evs s')"

text \<open>The message that opens or resumes the session, and writing it.\<close>

definition open_message :: "bool \<Rightarrow> gateway \<Rightarrow> gw_message" where
  "open_message resuming g =
     (if resuming then Resume (g_token g) (session_id g) (sequence g)
      else Identify (g_token g) (g_status g) (if g_activity g \<noteq> [] then Some (g_activity g) else None))"

definition open_wire ::
    "(ws_error \<Rightarrow> gostring) \<Rightarrow> gostring \<Rightarrow> rng \<Rightarrow> bool \<Rightarrow> ws_conn \<times> link \<Rightarrow> (ws_conn \<times> link) \<times> gostring option"
where
  "open_wire err goos rng resuming s =
     (case s of (c, l) \<Rightarrow>
      (case write_wire err goos rng (open_message resuming (gateway_of l)) c of
         (c', failure) \<Rightarrow> (case open_link resuming failure l of (l', r) \<Rightarrow> ((c', l'), r))))"

text \<open>
  A connection after the dial, as far as \<open>events\<close>: the hello, the heartbeats that come before the
  session is opened, opening it, the read loop, and closing the connection when it has ended.
  The result also lists the messages that the link has recorded as sent.
\<close>

fun heart_event :: "wire_event \<Rightarrow> bool" where
  "heart_event HeartTick = True"
| "heart_event HeartLoad = True"
| "heart_event (HeartWrite _) = True"
| "heart_event (CloseConn _) = True"
| "heart_event _ = False"

definition serve_wire ::
    "'u gateway_lib \<Rightarrow> (ws_error \<Rightarrow> gostring) \<Rightarrow> gostring \<Rightarrow> rng \<Rightarrow> bool \<Rightarrow> wire_event list
      \<Rightarrow> ws_conn \<times> link \<Rightarrow> ws_conn \<times> gw_message list \<times> gateway \<times> conn_end"
where
  "serve_wire lib err goos rng resuming evs s =
     (case open_wire err goos rng resuming s of
        ((c, l), Some e) \<Rightarrow> (close_conn rng 0 c, sent l, gateway_of l, Ended e)
      | (s', None) \<Rightarrow>
          (case wire_run lib err goos rng evs s' of
             ((c, l), r) \<Rightarrow>
               (if r \<noteq> None \<and> heart l \<noteq> Crashed then close_conn rng 0 c else c, sent l, conn_outcome (l, r))))"

definition connect_wire ::
    "'u gateway_lib \<Rightarrow> (ws_error \<Rightarrow> gostring) \<Rightarrow> gostring \<Rightarrow> rng \<Rightarrow> bool \<Rightarrow> wire_event list \<Rightarrow> wire_event list
      \<Rightarrow> gateway \<Rightarrow> ws_conn \<Rightarrow> ws_conn \<times> gw_message list \<times> gateway \<times> conn_end"
where
  "connect_wire lib err goos rng resuming early evs g c =
     (case hello_wire lib err rng c of
        (c1, Inl e) \<Rightarrow> (close_conn rng 0 c1, [], g, Ended e)
      | (c1, Inr d) \<Rightarrow>
          (case wire_run lib err goos rng (filter heart_event early) (c1, start_link d g) of
             ((c2, l2), _) \<Rightarrow>
               if heart l2 = Crashed then (c2, sent l2, gateway_of l2, Died)
               else serve_wire lib err goos rng resuming evs (c2, l2)))"

section \<open>What a server reads\<close>

text \<open>The frames of a stream, up to the first error.\<close>

function client_frames :: "octets \<Rightarrow> (octet \<times> octets) list" where
  "client_frames s =
     (case read_client_frame s of
        Inl e \<Rightarrow> []
      | Inr (f, rest) \<Rightarrow> if length rest < length s then f # client_frames rest else [])"
  by pat_completeness auto
termination by (relation "measure length") auto

declare client_frames.simps [simp del]

definition text_messages :: "octets \<Rightarrow> gostring list" where
  "text_messages s = map (\<lambda>(opcode, p). text_of p) (filter (\<lambda>(opcode, p). opcode = op_text) (client_frames s))"

text \<open>Frames as the client writes them: opcode, mask, payload.\<close>

definition client_wire :: "(octet \<times> octets \<times> octets) list \<Rightarrow> octets" where
  "client_wire fs = concat (map (\<lambda>(opcode, key, p). wire_frame True opcode (Some key) p) fs)"

definition client_frame_ok :: "octet \<times> octets \<times> octets \<Rightarrow> bool" where
  "client_frame_ok = (\<lambda>(opcode, key, p). frame_ok (True, opcode, p) \<and> length key = 4)"

lemma client_frames_wire:
  "list_all client_frame_ok fs \<Longrightarrow> client_frames (client_wire fs) = map (\<lambda>(opcode, key, p). (opcode, p)) fs"
proof (induction fs)
  case Nil
  then show ?case
    by (simp add: client_wire_def client_frames.simps [of "[]"] read_client_frame_def read_full_def)
next
  case (Cons f fs)
  obtain opcode key p where f: "f = (opcode, key, p)" by (cases f)
  have "read_client_frame (client_wire (f # fs)) = Inr ((opcode, p), client_wire fs)"
    using read_client_frame_wire [of True opcode p key "client_wire fs"] Cons.prems
    by (simp add: f client_wire_def client_frame_ok_def)
  moreover have "length (client_wire fs) < length (client_wire (f # fs))"
    by (simp add: f client_wire_def wire_frame_def)
  ultimately show ?case
    using Cons by (simp add: f client_frames.simps [of "client_wire ((opcode, key, p) # fs)"])
qed

text \<open>A connection that does not break, and what has been written on it.\<close>

definition masks_ok :: "rng \<Rightarrow> bool" where
  "masks_ok rng \<longleftrightarrow> (\<forall>n. \<exists>key. rng n = Some key \<and> length key = 4)"

definition wrote :: "ws_conn \<Rightarrow> (octet \<times> octets \<times> octets) list \<Rightarrow> ws_conn \<Rightarrow> bool" where
  "wrote c fs c' \<longleftrightarrow>
     capacity c' = None \<and> outgoing c' = outgoing c @ client_wire fs \<and> list_all client_frame_ok fs"

lemma wrote_nothing: "capacity c = None \<Longrightarrow> capacity c' = None \<Longrightarrow> outgoing c' = outgoing c \<Longrightarrow> wrote c [] c'"
  by (simp add: wrote_def client_wire_def)

lemma wrote_trans: "wrote c fs c1 \<Longrightarrow> wrote c1 fs' c2 \<Longrightarrow> wrote c (fs @ fs') c2"
  by (auto simp: wrote_def client_wire_def)

lemma write_frame_wrote:
  assumes "write_frame rng opcode p c = (c', r)" "masks_ok rng" "capacity c = None" "opcode < 16"
    "op_close \<le> opcode \<longrightarrow> length p \<le> 125"
  shows "(r \<noteq> None \<and> wrote c [] c') \<or> (r = None \<and> (\<exists>key. wrote c [(opcode, key, p)] c'))"
proof (cases "length p \<le> max_message_size")
  case True
  obtain key where key: "rng (masks_used c) = Some key" "length key = 4" using assms(2) by (auto simp: masks_ok_def)
  show ?thesis
  proof (cases "shut c \<or> passed (write_deadline c) (net_clock c)")
    case refused: True
    show ?thesis
      using write_frame_refused [of c rng key p opcode] refused key(1) True assms(1,3) by (auto intro: wrote_nothing)
  next
    case False
    with write_frame_wire [of c rng key p opcode] key assms True show ?thesis
      by (auto simp: wrote_def client_wire_def client_frame_ok_def frame_ok_def)
  qed
qed (use assms(1,3) in \<open>auto simp: write_frame_def intro: wrote_nothing\<close>)

text \<open>Reading writes control frames only.\<close>

definition controls :: "(octet \<times> octets \<times> octets) list \<Rightarrow> bool" where
  "controls fs \<longleftrightarrow> list_all (\<lambda>f. fst f \<noteq> op_text) fs"

lemma receive_frame_wrote:
  assumes "receive_frame c = (c1, r)" "capacity c = None"
  shows "wrote c [] c1" "r = Inr (fin, op, p) \<Longrightarrow> op_close \<le> op \<longrightarrow> length p \<le> 125"
  using assms read_frame_InrD(1) [of "readable c" fin op p]
  by (auto simp: receive_frame_def Let_def frame_ok_def intro!: wrote_nothing split: sum.splits if_splits prod.splits)

lemma read_message_wrote:
  "read_message rng message started c = (c', r) \<Longrightarrow> masks_ok rng \<Longrightarrow> capacity c = None \<Longrightarrow>
     \<exists>fs. wrote c fs c' \<and> controls fs"
proof (induction rng message started c rule: read_message.induct)
  case (1 rng message started c)
  obtain c1 r1 where f: "receive_frame c = (c1, r1)" by (cases "receive_frame c")
  note c1 = receive_frame_wrote(1) [OF f "1.prems"(3)]
  have cap: "capacity c1 = None" using c1 by (simp add: wrote_def)
  have silent: "\<exists>fs. wrote c fs c1 \<and> controls fs" using c1 by (auto simp: controls_def)
  have later: "\<exists>fs. wrote c fs c' \<and> controls fs"
    if "wrote c fs c2" "controls fs" "\<exists>fs. wrote c2 fs c' \<and> controls fs" for fs c2
  proof -
    from that(3) obtain fs' where "wrote c2 fs' c'" "controls fs'" by blast
    with that(1,2) show ?thesis
      by (intro exI [of _ "fs @ fs'"]) (auto simp: controls_def intro: wrote_trans)
  qed
  note more = later [OF c1]
  show ?case
  proof (cases r1)
    case (Inl e)
    with "1.prems"(1) f silent show ?thesis by (simp add: read_message.simps [of rng message started c])
  next
    case (Inr a)
    obtain fin op p where r1: "r1 = Inr (fin, op, p)" using Inr by (cases a) auto
    note f' = f [unfolded r1]
    note p = receive_frame_wrote(2) [OF f "1.prems"(3) r1]
    note step = "1.prems"(1) [unfolded read_message.simps [of rng message started c] f' sum.case prod.case Let_def]
    consider (ping) "op = op_ping" | (pong) "op = op_pong" | (close) "op = op_close"
      | (data) "op \<noteq> op_ping" "op \<noteq> op_pong" "op \<noteq> op_close" by blast
    then show ?thesis
    proof cases
      case ping
      obtain c2 r2 where w: "write_frame rng op_pong p c1 = (c2, r2)" by (cases "write_frame rng op_pong p c1")
      have "length p \<le> 125" using p ping by simp
      from write_frame_wrote [OF w "1.prems"(2) cap] this
      consider "r2 \<noteq> None" "wrote c1 [] c2" | key where "r2 = None" "wrote c1 [(op_pong, key, p)] c2" by auto
      then show ?thesis
      proof cases
        case 1
        with step ping w show ?thesis by (intro more) (auto simp: controls_def)
      next
        case 2
        then have c2: "wrote c [(op_pong, key, p)] c2" "capacity c2 = None"
          using wrote_trans [OF c1] by (fastforce simp: wrote_def)+
        have "read_message rng message started c2 = (c', r)" using step ping w 2(1) by simp
        with "1.IH"(1) [OF f' [symmetric] refl refl refl ping w [symmetric] 2(1) _ "1.prems"(2) c2(2)]
        show ?thesis by (intro later [OF c2(1)]) (auto simp: controls_def)
      qed
    next
      case pong
      then show ?thesis
        using "1.IH"(2) [OF f' [symmetric] refl refl refl _ pong _ "1.prems"(2) cap] step
        by (intro more) (auto simp: controls_def)
    next
      case close
      obtain c2 r2 where w: "write_frame rng op_close p c1 = (c2, r2)" by (cases "write_frame rng op_close p c1")
      have "length p \<le> 125" using p close by simp
      from write_frame_wrote [OF w "1.prems"(2) cap] this have "\<exists>fs. wrote c1 fs c2 \<and> controls fs"
        by (force simp: controls_def)
      with step close w show ?thesis by (intro more) (auto simp: controls_def)
    next
      case data
      have "c' = c1 \<or> (\<not> max_message_size < length (message @ p) \<and> \<not> fin
          \<and> \<not> (op = op_text \<and> started) \<and> \<not> (op = op_continuation \<and> \<not> started)
          \<and> \<not> (op \<noteq> op_text \<and> op \<noteq> op_continuation) \<and> read_message rng (message @ p) True c1 = (c', r))"
        using step data by (auto split: if_splits)
      then show ?thesis
      proof (elim disjE conjE)
        assume "c' = c1"
        with silent show ?thesis by simp
      qed (use "1.IH"(3) [OF f' [symmetric] refl refl refl data _ _ _ refl _ _ _ "1.prems"(2) cap] in
          \<open>intro more, auto simp: controls_def\<close>)
    qed
  qed
qed

section \<open>Messages and octets go together\<close>

definition text_payloads :: "(octet \<times> octets \<times> octets) list \<Rightarrow> gostring list" where
  "text_payloads fs = map (\<lambda>(opcode, key, p). text_of p) (filter (\<lambda>f. fst f = op_text) fs)"

lemma text_payloads_controls: "controls fs \<Longrightarrow> text_payloads fs = []"
  by (auto simp: text_payloads_def controls_def list_all_iff filter_empty_conv)

lemma text_messages_wire: "list_all client_frame_ok fs \<Longrightarrow> text_messages (client_wire fs) = text_payloads fs"
  by (simp add: text_messages_def client_frames_wire text_payloads_def filter_map o_def case_prod_unfold)

text \<open>What a step has written are the messages that it has recorded, between control frames.\<close>

definition tells :: "gostring \<Rightarrow> ws_conn \<Rightarrow> gw_message list \<Rightarrow> ws_conn \<Rightarrow> bool" where
  "tells goos c ms c' \<longleftrightarrow> (\<exists>fs. wrote c fs c' \<and> text_payloads fs = map (message_text goos) ms)"

lemma tells_trans: "tells goos c ms c1 \<Longrightarrow> tells goos c1 ms' c2 \<Longrightarrow> tells goos c (ms @ ms') c2"
  unfolding tells_def
proof (elim exE conjE)
  fix fs fs'
  assume "wrote c fs c1" "wrote c1 fs' c2"
    and "text_payloads fs = map (message_text goos) ms" "text_payloads fs' = map (message_text goos) ms'"
  then show "\<exists>fs. wrote c fs c2 \<and> text_payloads fs = map (message_text goos) (ms @ ms')"
    by (intro exI [of _ "fs @ fs'"]) (simp add: wrote_trans text_payloads_def)
qed

lemma tells_controls: "wrote c fs c' \<Longrightarrow> controls fs \<Longrightarrow> tells goos c [] c'"
  by (auto simp: tells_def text_payloads_controls)

lemma tells_silent: "capacity c = None \<Longrightarrow> tells goos c [] c"
  by (rule tells_controls [OF wrote_nothing]) (simp_all add: controls_def)

lemma tells_capacity: "tells goos c ms c' \<Longrightarrow> capacity c' = None"
  by (auto simp: tells_def wrote_def)

lemma tells_text:
  "tells goos c ms c' \<Longrightarrow> text_messages (drop (length (outgoing c)) (outgoing c')) = map (message_text goos) ms"
  by (auto simp: tells_def wrote_def text_messages_wire)

lemma tells_same: "tells goos c ms c' \<Longrightarrow> outgoing c0 = outgoing c \<Longrightarrow> tells goos c0 ms c'"
  by (auto simp: tells_def wrote_def)

lemma tells_then_same: "tells goos c ms c' \<Longrightarrow> outgoing c0 = outgoing c' \<Longrightarrow> capacity c0 = capacity c' \<Longrightarrow> tells goos c ms c0"
  by (auto simp: tells_def wrote_def)

lemma write_wire_tells:
  assumes "write_wire err goos rng m c = (c', failure)" "masks_ok rng" "capacity c = None"
  shows "tells goos c (if failure = None then [m] else []) c'"
proof -
  define c0 where "c0 = set_write_deadline (Some (net_clock c + 10 * second)) c"
  obtain r where w: "write_frame rng op_text (octets_of (message_text goos m)) c0 = (c', r)" "failure = map_option err r"
    using assms(1) by (auto simp: write_wire_def write_json_def c0_def split: prod.splits option.splits sum.splits)
  have "op_text < 16" "op_close \<le> op_text \<longrightarrow> length (octets_of (message_text goos m)) \<le> 125"
    by (simp_all add: word_le_nat_alt)
  moreover have "capacity c0 = None" using assms(3) by (simp add: c0_def set_write_deadline_def)
  ultimately consider "r \<noteq> None" "wrote c0 [] c'"
    | key where "r = None" "wrote c0 [(op_text, key, octets_of (message_text goos m))] c'"
    using write_frame_wrote [OF w(1) assms(2)] by auto
  then have "tells goos c0 (if failure = None then [m] else []) c'"
    by cases (use w(2) in \<open>auto simp: tells_def text_payloads_def\<close>)
  then show ?thesis by (rule tells_same) (simp add: c0_def set_write_deadline_def)
qed

lemma read_message_tells:
  assumes "read_message rng message started c = (c', r)" "masks_ok rng" "capacity c = None"
  shows "tells goos c [] c'"
  using read_message_wrote [OF assms] by (auto intro: tells_controls)

lemma close_conn_tells:
  assumes "masks_ok rng" "capacity c = None"
  shows "tells goos c [] (close_conn rng k c)"
proof -
  define c0 where "c0 = set_write_deadline (Some (net_clock c + second)) c"
  obtain c' r where w: "write_frame rng op_close (be_octets 2 1000) c0 = (c', r)"
    by (cases "write_frame rng op_close (be_octets 2 1000) c0")
  have "capacity c0 = None" using assms(2) by (simp add: c0_def set_write_deadline_def)
  then have "\<exists>fs. wrote c0 fs c' \<and> controls fs"
    using write_frame_wrote [OF w assms(1)] by (force simp: controls_def)
  then have "tells goos c0 [] c'" by (auto intro: tells_controls)
  then have "tells goos c [] c'" by (rule tells_same) (simp add: c0_def set_write_deadline_def)
  then have "tells goos c [] (c'\<lparr>incoming := take k (incoming c'), arrival := (\<lambda>_. net_clock c'), shut := True\<rparr>)"
    by (rule tells_then_same) simp_all
  then show ?thesis by (simp add: close_conn_def w flip: c0_def)
qed

lemma read_wire_tells:
  assumes "read_wire lib err rng c = (c', r)" "masks_ok rng" "capacity c = None"
  shows "tells goos c [] c'"
proof -
  obtain r' where "read_message rng [] False c = (c', r')"
    using assms(1) by (auto simp: read_wire_def read_json_def split: prod.splits sum.splits)
  from read_message_tells [OF this assms(2,3)] show ?thesis .
qed

lemma read_wire_payload:
  assumes "read_wire lib err rng c = (c', Inr en)"
  obtains payload where "unmarshal decode_envelope (gl_bad lib) payload = Inr en"
  using assms that by (auto simp: read_wire_def read_json_def split: prod.splits sum.splits)

lemma handle_envelope_sent:
  "handle_envelope lib failure en l = (l', r) \<Longrightarrow> sent l' = sent l
     @ (if en_op en = 1 \<and> failure = None then [Heartbeat (heartbeat_data (note_sequence en (gateway_of l)))] else [])"
  by (auto simp: handle_envelope_def send_heartbeat_def write_message_def Let_def split: if_splits option.splits)

text \<open>A step on the octets, and a step of the link.\<close>

fun shows_as :: "wire_event \<Rightarrow> link_event \<Rightarrow> bool" where
  "shows_as ReadNext (Message payload failure) = True"
| "shows_as ReadNext (ReadFails e) = True"
| "shows_as HeartTick Tick = True"
| "shows_as HeartLoad Load = True"
| "shows_as (HeartWrite t) (Emit failure) = True"
| "shows_as SeeHeartbeat NoticeHeartbeat = True"
| "shows_as SeeCancel NoticeCancel = True"
| "shows_as _ _ = False"

fun link_moves :: "wire_event \<Rightarrow> bool" where
  "link_moves (CloseConn k) = False"
| "link_moves _ = True"

lemma some_shows_as:
  assumes "link_moves ev"
  shows "\<exists>ev'. shows_as ev ev'"
proof -
  have "shows_as ReadNext (ReadFails [])" "shows_as HeartTick Tick" "shows_as HeartLoad Load"
    "shows_as (HeartWrite t) (Emit None)" "shows_as SeeHeartbeat NoticeHeartbeat" "shows_as SeeCancel NoticeCancel" for t
    by simp_all
  then show ?thesis using assms by (cases ev) (blast | simp)+
qed

lemma wire_step_simulated:
  assumes "wire_step lib err goos rng ev (c, l) = ((c', l'), r)" "link_moves ev"
  shows "\<exists>ev'. shows_as ev ev' \<and> link_step lib ev' l = (l', r)"
proof (cases "heart l = Crashed")
  case True
  with assms some_shows_as [of ev] show ?thesis by (auto simp: wire_step_def link_step_def)
next
  case False
  show ?thesis
  proof (cases ev)
    case ReadNext
    obtain c1 res where rd: "read_wire lib err rng c = (c1, res)" by (cases "read_wire lib err rng c")
    show ?thesis
    proof (cases res)
      case (Inl e)
      with assms False ReadNext rd show ?thesis
        by (intro exI [of _ "ReadFails e"]) (simp add: wire_step_def link_step_def)
    next
      case (Inr en)
      obtain payload where p: "unmarshal decode_envelope (gl_bad lib) payload = Inr en"
        by (rule read_wire_payload [OF rd [unfolded Inr]])
      obtain failure where "handle_envelope lib failure en l = (l', r)"
        using assms False ReadNext rd Inr by (auto simp: wire_step_def split: prod.splits)
      with p False ReadNext show ?thesis
        by (intro exI [of _ "Message payload failure"]) (simp add: link_step_def handle_message_def)
    qed
  next
    case (HeartWrite t)
    have "\<exists>failure. l' = write_beat failure l \<and> r = None"
    proof (cases "heart l")
      case (Loaded ticking d)
      with assms False HeartWrite show ?thesis by (auto simp: wire_step_def split: prod.splits)
    qed (use assms False HeartWrite in \<open>auto simp: wire_step_def write_beat_def\<close>)
    then obtain failure where "l' = write_beat failure l" "r = None" by blast
    with HeartWrite False show ?thesis by (intro exI [of _ "Emit failure"]) (simp add: link_step_def)
  qed (use assms False in \<open>auto simp: wire_step_def link_step_def intro: exI [of _ Tick] exI [of _ Load]
        exI [of _ NoticeHeartbeat] exI [of _ NoticeCancel]\<close>)
qed

lemma wire_step_tells:
  assumes "wire_step lib err goos rng ev (c, l) = ((c', l'), r)" "masks_ok rng" "capacity c = None"
  obtains ms where "sent l' = sent l @ ms" "tells goos c ms c'"
proof (cases "heart l = Crashed")
  case True
  with assms(1,3) that [of "[]"] tells_silent show ?thesis by (simp add: wire_step_def)
next
  case False
  show ?thesis
  proof (cases ev)
    case ReadNext
    obtain c1 res where rd: "read_wire lib err rng c = (c1, res)" by (cases "read_wire lib err rng c")
    note t = read_wire_tells [OF rd assms(2,3), of goos]
    show ?thesis
    proof (cases res)
      case (Inl e)
      with assms(1) False ReadNext rd t that [of "[]"] show ?thesis by (simp add: wire_step_def)
    next
      case (Inr en)
      let ?m = "Heartbeat (heartbeat_data (note_sequence en (gateway_of l)))"
      obtain failure where w: "(if en_op en = 1 then write_wire err goos rng ?m c1 else (c1, None)) = (c', failure)"
        and h: "handle_envelope lib failure en l = (l', r)"
        using assms(1) False ReadNext rd Inr by (auto simp: wire_step_def split: prod.splits)
      let ?ms = "if en_op en = 1 \<and> failure = None then [?m] else []"
      have "tells goos c1 ?ms c'"
        using w write_wire_tells [of err goos rng ?m c1 c' failure] assms(2) tells_capacity [OF t] tells_silent
        by (auto split: if_splits)
      then show ?thesis using that [of ?ms] handle_envelope_sent [OF h] tells_trans [OF t] by simp
    qed
  next
    case (HeartWrite t)
    show ?thesis
    proof (cases "heart l")
      case (Loaded ticking d)
      let ?c = "c\<lparr>net_clock := max (net_clock c) t\<rparr>"
      obtain failure where w: "write_wire err goos rng (Heartbeat d) ?c = (c', failure)" and l': "l' = write_beat failure l"
        using assms(1) False HeartWrite Loaded by (auto simp: wire_step_def split: prod.splits)
      have "sent l' = sent l @ (if failure = None then [Heartbeat d] else [])"
        by (cases failure) (simp_all add: l' write_beat_def Loaded write_message_def)
      moreover have "tells goos c (if failure = None then [Heartbeat d] else []) c'"
        by (rule tells_same [OF write_wire_tells [OF w assms(2)]]) (use assms(3) in simp_all)
      ultimately show ?thesis by (rule that)
    qed (use assms(1,3) HeartWrite that [of "[]"] tells_silent in \<open>auto simp: wire_step_def\<close>)
  next
    case (CloseConn k)
    with assms(1) False have "l' = l" "c' = close_conn rng k c" by (simp_all add: wire_step_def)
    with that [of "[]"] close_conn_tells [OF assms(2,3)] show ?thesis by simp
  qed (use assms(1,3) False that [of "[]"] tells_silent in
      \<open>auto simp: wire_step_def clear_ack_def load_sequence_def split: heart.splits if_splits\<close>)
qed

lemma wire_step_close: "\<not> link_moves ev \<Longrightarrow> wire_step lib err goos rng ev (c, l) = ((c', l'), r) \<Longrightarrow> l' = l \<and> r = None"
  by (cases ev) (auto simp: wire_step_def split: if_splits)

lemma some_shows_as_all: "\<exists>evs'. list_all2 shows_as (filter link_moves evs) evs'"
proof (induction evs)
  case (Cons ev evs)
  with some_shows_as [of ev] show ?case by (auto simp: list_all2_Cons1)
qed simp

lemma wire_run_simulated:
  "wire_run lib err goos rng evs (c, l) = ((c', l'), r) \<Longrightarrow>
     \<exists>evs'. list_all2 shows_as (filter link_moves evs) evs' \<and> link_run lib evs' l = (l', r)"
proof (induction evs arbitrary: c l)
  case (Cons ev evs)
  obtain c1 l1 r1 where s: "wire_step lib err goos rng ev (c, l) = ((c1, l1), r1)" by (metis surj_pair)
  show ?case
  proof (cases "link_moves ev")
    case False
    with wire_step_close [OF False s] s Cons show ?thesis by simp
  next
    case True
    obtain ev' where ev': "shows_as ev ev'" "link_step lib ev' l = (l1, r1)"
      using wire_step_simulated [OF s True] by blast
    show ?thesis
    proof (cases r1)
      case None
      with s Cons.prems have "wire_run lib err goos rng evs (c1, l1) = ((c', l'), r)" by simp
      from Cons.IH [OF this] obtain evs'
        where "list_all2 shows_as (filter link_moves evs) evs'" "link_run lib evs' l1 = (l', r)" by blast
      with ev' None True show ?thesis by (intro exI [of _ "ev' # evs'"]) simp
    next
      case (Some e)
      obtain evs' where "list_all2 shows_as (filter link_moves evs) evs'" using some_shows_as_all by blast
      with ev' Some s Cons.prems True show ?thesis by (intro exI [of _ "ev' # evs'"]) auto
    qed
  qed
qed simp

lemma wire_run_tells:
  assumes "wire_run lib err goos rng evs (c, l) = ((c', l'), r)" "masks_ok rng" "capacity c = None"
  shows "\<exists>ms. sent l' = sent l @ ms \<and> tells goos c ms c'"
  using assms
proof (induction evs arbitrary: c l)
  case (Cons ev evs)
  obtain c1 l1 r1 where s: "wire_step lib err goos rng ev (c, l) = ((c1, l1), r1)" by (metis surj_pair)
  obtain ms where ms: "sent l1 = sent l @ ms" "tells goos c ms c1"
    by (rule wire_step_tells [OF s Cons.prems(2,3)])
  show ?case
  proof (cases r1)
    case None
    with s Cons.prems(1) have "wire_run lib err goos rng evs (c1, l1) = ((c', l'), r)" by simp
    from Cons.IH [OF this Cons.prems(2) tells_capacity [OF ms(2)]]
    obtain ms' where "sent l' = sent l1 @ ms'" "tells goos c1 ms' c'" by blast
    with ms show ?thesis by (intro exI [of _ "ms @ ms'"]) (simp add: tells_trans)
  qed (use ms s Cons.prems(1) in auto)
qed (use tells_silent in auto)

lemma open_link_sent:
  "open_link resuming failure l = (l', r) \<Longrightarrow>
     sent l' = sent l @ (if failure = None then [open_message resuming (gateway_of l)] else [])"
  by (auto simp: open_link_def write_message_def open_message_def Let_def split: if_splits option.splits)

lemma open_wire_tells:
  assumes "open_wire err goos rng resuming (c, l) = ((c', l'), r)" "masks_ok rng" "capacity c = None"
  obtains failure ms where "open_link resuming failure l = (l', r)" "sent l' = sent l @ ms" "tells goos c ms c'"
proof -
  obtain failure where w: "write_wire err goos rng (open_message resuming (gateway_of l)) c = (c', failure)"
    and o: "open_link resuming failure l = (l', r)"
    using assms(1) by (auto simp: open_wire_def split: prod.splits)
  show thesis by (rule that [OF o open_link_sent [OF o] write_wire_tells [OF w assms(2,3)]])
qed

lemma heart_actions: "list_all2 shows_as wire evs' \<Longrightarrow> list_all heart_event wire \<Longrightarrow> filter heartbeat_action evs' = evs'"
proof (induction wire evs' rule: list_all2_induct)
  case (Cons ev wire ev' evs')
  then have "heartbeat_action ev'" by (cases ev; cases ev') auto
  with Cons show ?case by simp
qed simp

lemma heart_events_simulated:
  "list_all2 shows_as (filter link_moves (filter heart_event evs)) evs' \<Longrightarrow> filter heartbeat_action evs' = evs'"
  by (erule heart_actions) (simp add: list_all_iff)

lemma hello_wire_tells:
  assumes "hello_wire lib err rng c = (c', r)" "masks_ok rng" "capacity c = None"
  shows "tells goos c [] c'"
proof -
  let ?c = "set_read_deadline (Some (net_clock c + 30 * second)) c"
  obtain c1 r1 where rd: "read_message rng [] False ?c = (c1, r1)" by (cases "read_message rng [] False ?c")
  have "tells goos ?c [] c1"
    by (rule read_message_tells [OF rd assms(2)]) (simp add: set_read_deadline_def assms(3))
  then have t: "tells goos c [] c1" by (rule tells_same) (simp add: set_read_deadline_def)
  have "c' = c1 \<or> c' = set_read_deadline None c1"
    using assms(1) rd by (auto simp: hello_wire_def split: sum.splits)
  with t show ?thesis by (auto intro: tells_then_same simp: set_read_deadline_def)
qed

lemma hello_wire_checks:
  assumes "hello_wire lib err rng c = (c', r)"
  obtains payload where "check_hello lib payload = r"
  using assms that by (auto simp: hello_wire_def split: prod.splits sum.splits)

lemma serve_wire_simulated:
  assumes "serve_wire lib err goos rng resuming evs (c, l) = (c', ms, gr)" "masks_ok rng" "tells goos c0 (sent l) c"
  shows "\<exists>failure evs'. list_all2 shows_as (filter link_moves evs) evs'
     \<and> gr = (case open_link resuming failure l of
          (l', Some e) \<Rightarrow> (gateway_of l', Ended e) | (l', None) \<Rightarrow> conn_outcome (link_run lib evs' l'))"
    "tells goos c0 ms c'"
proof -
  obtain c1 l1 r1 where opn: "open_wire err goos rng resuming (c, l) = ((c1, l1), r1)" by (metis surj_pair)
  obtain failure ms1 where o: "open_link resuming failure l = (l1, r1)"
    and 1: "sent l1 = sent l @ ms1" "tells goos c ms1 c1"
    by (rule open_wire_tells [OF opn assms(2) tells_capacity [OF assms(3)]])
  have t1: "tells goos c0 (sent l1) c1" using tells_trans [OF assms(3) 1(2)] 1(1) by simp
  have closed: "tells goos c0 ms c \<Longrightarrow> tells goos c0 ms (close_conn rng 0 c)" for ms c
    using tells_trans [OF _ close_conn_tells [OF assms(2)], of goos c0 ms c] tells_capacity by simp
  obtain any where any: "list_all2 shows_as (filter link_moves evs) any" using some_shows_as_all by blast
  obtain c2 l2 r2 where loop: "wire_run lib err goos rng evs (c1, l1) = ((c2, l2), r2)" by (metis surj_pair)
  obtain ms2 where 2: "sent l2 = sent l1 @ ms2" "tells goos c1 ms2 c2"
    using wire_run_tells [OF loop assms(2) tells_capacity [OF t1]] by blast
  have t2: "tells goos c0 (sent l2) c2" using tells_trans [OF t1 2(2)] 2(1) by simp
  obtain evs' where evs': "list_all2 shows_as (filter link_moves evs) evs'" "link_run lib evs' l1 = (l2, r2)"
    using wire_run_simulated [OF loop] by blast
  show "\<exists>failure evs'. list_all2 shows_as (filter link_moves evs) evs'
     \<and> gr = (case open_link resuming failure l of
          (l', Some e) \<Rightarrow> (gateway_of l', Ended e) | (l', None) \<Rightarrow> conn_outcome (link_run lib evs' l'))"
    using assms(1) opn loop evs' o by (cases r1) (auto simp: serve_wire_def intro!: exI [of _ failure] exI [of _ evs'])
  show "tells goos c0 ms c'"
    using assms(1) opn loop closed t1 t2 by (cases r1) (auto simp: serve_wire_def split: if_splits)
qed

section \<open>A closed connection\<close>

lemma close_conn_shut: "shut (close_conn rng k c)" "length (incoming (close_conn rng k c)) \<le> k"
  by (simp_all add: close_conn_def split: prod.split)

lemma close_conn_again:
  assumes "shut c"
  shows "outgoing (close_conn rng k c) = outgoing c" "length (incoming (close_conn rng k c)) \<le> length (incoming c)"
proof -
  define c0 where "c0 = set_write_deadline (Some (net_clock c + second)) c"
  obtain c' r where w: "write_frame rng op_close (be_octets 2 1000) c0 = (c', r)"
    by (cases "write_frame rng op_close (be_octets 2 1000) c0")
  have c0: "shut c0" "outgoing c0 = outgoing c" "incoming c0 = incoming c"
    using assms by (simp_all add: c0_def set_write_deadline_def)
  then show "outgoing (close_conn rng k c) = outgoing c" "length (incoming (close_conn rng k c)) \<le> length (incoming c)"
    using write_frame_shut(1) [OF w c0(1)] write_frame_reader [OF w]
    by (simp_all add: close_conn_def w same_reader_def flip: c0_def)
qed

lemma write_wire_shut:
  assumes "write_wire err goos rng m c = (c', failure)" "shut c"
  shows "shut c'" "outgoing c' = outgoing c" "incoming c' = incoming c"
proof -
  define c0 where "c0 = set_write_deadline (Some (net_clock c + 10 * second)) c"
  obtain r where w: "write_frame rng op_text (octets_of (message_text goos m)) c0 = (c', r)"
    using assms(1) by (auto simp: write_wire_def write_json_def c0_def split: prod.splits option.splits sum.splits)
  have c0: "shut c0" "outgoing c0 = outgoing c" "incoming c0 = incoming c"
    using assms(2) by (simp_all add: c0_def set_write_deadline_def)
  then show "shut c'" "outgoing c' = outgoing c" "incoming c' = incoming c"
    using write_frame_shut(1) [OF w c0(1)] write_frame_reader [OF w] by (simp_all add: same_reader_def)
qed

text \<open>A step on a closed connection: it writes nothing, and the read loop uses up what is buffered.\<close>

lemma wire_step_shut:
  assumes "wire_step lib err goos rng ev (c, l) = ((c', l'), r)" "shut c" "heart l \<noteq> Crashed"
  shows "shut c' \<and> outgoing c' = outgoing c
    \<and> (r = None \<longrightarrow> length (incoming c') + (if ev = ReadNext then 1 else 0) \<le> length (incoming c))"
proof (cases ev)
  case ReadNext
  obtain c1 res where rd: "read_wire lib err rng c = (c1, res)" by (cases "read_wire lib err rng c")
  obtain r1 where m: "read_message rng [] False c = (c1, r1)" "\<And>en. res = Inr en \<Longrightarrow> \<exists>m. r1 = Inr m"
    using rd by (auto simp: read_wire_def read_json_def split: prod.splits sum.splits)
  note c1 = read_message_shut [OF m(1) assms(2)]
  show ?thesis
  proof (cases res)
    case (Inl e)
    with assms(1,3) ReadNext rd c1 show ?thesis by (auto simp: wire_step_def)
  next
    case (Inr en)
    let ?m = "Heartbeat (heartbeat_data (note_sequence en (gateway_of l)))"
    obtain failure where "(if en_op en = 1 then write_wire err goos rng ?m c1 else (c1, None)) = (c', failure)"
      using assms(1,3) ReadNext rd Inr by (auto simp: wire_step_def split: prod.splits)
    then have "shut c' \<and> outgoing c' = outgoing c1 \<and> incoming c' = incoming c1"
      using write_wire_shut [of err goos rng ?m c1 c' failure] c1 by (auto split: if_splits)
    then show ?thesis using c1 m(2) [OF Inr] ReadNext by auto
  qed
next
  case (HeartWrite t)
  show ?thesis
  proof (cases "heart l")
    case (Loaded ticking d)
    let ?c = "c\<lparr>net_clock := max (net_clock c) t\<rparr>"
    obtain failure where "write_wire err goos rng (Heartbeat d) ?c = (c', failure)"
      using assms(1) HeartWrite Loaded by (auto simp: wire_step_def split: prod.splits)
    from write_wire_shut [OF this] HeartWrite assms(2) show ?thesis by simp
  qed (use assms HeartWrite in \<open>auto simp: wire_step_def\<close>)
next
  case (CloseConn k)
  with assms close_conn_shut(1) close_conn_again show ?thesis by (auto simp: wire_step_def)
qed (use assms in \<open>auto simp: wire_step_def\<close>)

lemma wire_run_crashed: "heart l = Crashed \<Longrightarrow> wire_run lib err goos rng evs (c, l) = ((c, l), None)"
  by (induction evs) (simp_all add: wire_step_def)

lemma wire_run_append:
  "wire_run lib err goos rng (xs @ ys) s =
     (case wire_run lib err goos rng xs s of
        (s', Some e) \<Rightarrow> (s', Some e)
      | (s', None) \<Rightarrow> wire_run lib err goos rng ys s')"
  by (induction xs arbitrary: s) (auto split: prod.splits option.splits)

lemma wire_run_shut:
  assumes "wire_run lib err goos rng evs (c, l) = ((c', l'), r)" "shut c"
  shows "outgoing c' = outgoing c \<and> (length (incoming c) < count_list evs ReadNext \<longrightarrow> r \<noteq> None \<or> heart l' = Crashed)"
  using assms
proof (induction evs arbitrary: c l)
  case (Cons ev evs)
  show ?case
  proof (cases "heart l = Crashed")
    case True
    with Cons.prems(1) show ?thesis using wire_run_crashed [OF True, of lib err goos rng "ev # evs" c] by simp
  next
    case False
    obtain c1 l1 r1 where s: "wire_step lib err goos rng ev (c, l) = ((c1, l1), r1)" by (metis surj_pair)
    note c1 = wire_step_shut [OF s Cons.prems(2) False]
    show ?thesis
    proof (cases r1)
      case None
      with s Cons.prems(1) have "wire_run lib err goos rng evs (c1, l1) = ((c', l'), r)" by simp
      from Cons.IH [OF this] c1 None show ?thesis by (cases "ev = ReadNext") auto
    qed (use s c1 Cons.prems(1) in auto)
  qed
qed simp

section \<open>Properties\<close>


definition sample_octets :: ws_conn where
  "sample_octets = still_conn\<lparr>incoming := server_frame op_text (octets_of (sample_payload 10 1 [] hello_data))
     @ server_frame op_text (octets_of (sample_payload 1 3 [] JNull))\<rparr>"

definition sample_masks :: rng where
  "sample_masks = (\<lambda>n. Some [1, 2, 3, 4])"




text \<open>C31: The deadline of a write outlives it: a ping that arrives ten seconds or more after the last
  message was written, with nothing written since, cannot be answered, and ends the connection.\<close>

theorem late_ping_ends_connection:
  assumes "write_wire err goos rng m c = (c1, failure)" "masks_ok rng" "read_deadline c = None"
    "incoming c = control_wire (Ping p) @ rest" "length p \<le> 125" "\<not> shut c"
    "net_clock c + 10 * second \<le> arrived c (length (control_wire (Ping p)))" "heart l \<noteq> Crashed"
  shows "snd (wire_step lib err goos rng ReadNext (c1, l)) = Some (''read Discord Gateway event: '' @ err TimedOut)"
proof -
  define c0 where "c0 = set_write_deadline (Some (net_clock c + 10 * second)) c"
  let ?n = "length (control_wire (Ping p))"
  obtain r where "write_frame rng op_text (octets_of (message_text goos m)) c0 = (c1, r)"
    using assms(1) by (auto simp: write_wire_def write_json_def c0_def split: prod.splits option.splits sum.splits)
  from write_frame_reader [OF this] have c1: "incoming c1 = incoming c" "arrived c1 ?n = arrived c ?n"
    "read_deadline c1 = None" "write_deadline c1 = Some (net_clock c + 10 * second)" "\<not> shut c1"
    using assms(3,6) by (simp_all add: same_reader_def c0_def set_write_deadline_def arrived_def)
  obtain key where key: "rng (masks_used c1) = Some key" using assms(2) by (auto simp: masks_ok_def)
  have "passed (write_deadline c1) (arrived c1 ?n)" "\<not> passed (read_deadline c1) (arrived c1 ?n)"
    using assms(7) c1(2-4) by (simp_all add: passed_def)
  then have "snd (read_message rng [] False c1) = Inl TimedOut"
    using late_pong_times_out [of c1 p rest rng key "[]" False] assms(4,5) c1(1,5) key by simp
  then show ?thesis
    using assms(8) by (cases "read_message rng [] False c1") (simp add: wire_step_def read_wire_def read_json_def)
qed

lemma late_ping_ends_connection_witness:
  "snd (wire_step sample_lib_gw (\<lambda>_. ''i/o timeout'') ''linux'' sample_masks ReadNext
     (fst (write_wire (\<lambda>_. ''i/o timeout'') ''linux'' sample_masks (Heartbeat None)
        (still_conn\<lparr>incoming := control_wire (Ping []), arrival := (\<lambda>_. 20 * second)\<rparr>)), sample_link))
   = Some ''read Discord Gateway event: i/o timeout''"
proof -
  define c where "c = still_conn\<lparr>incoming := control_wire (Ping []), arrival := (\<lambda>_. 20 * second)\<rparr>"
  have "0 < length (control_wire (Ping []))" by (simp add: server_frame_def frame_header_def)
  from arrival_le_arrived [OF this, of c]
  have late: "net_clock c + 10 * second \<le> arrived c (length (control_wire (Ping [])))"
    by (simp add: c_def still_conn_def)
  obtain c1 r where w: "write_wire (\<lambda>_. ''i/o timeout'') ''linux'' sample_masks (Heartbeat None) c = (c1, r)"
    by (cases "write_wire (\<lambda>_. ''i/o timeout'') ''linux'' sample_masks (Heartbeat None) c")
  have "masks_ok sample_masks" by (simp add: masks_ok_def sample_masks_def)
  from late_ping_ends_connection [OF w this _ _ _ _ late, of "[]" sample_link sample_lib_gw]
  have "snd (wire_step sample_lib_gw (\<lambda>_. ''i/o timeout'') ''linux'' sample_masks ReadNext (c1, sample_link))
      = Some (''read Discord Gateway event: '' @ ''i/o timeout'')"
    by (simp add: c_def still_conn_def sample_link_def)
  then show ?thesis unfolding c_def [symmetric] w by simp
qed

text \<open>C30: Closing the connection, which cancelling the context and a failed heartbeat do, ends it: nothing
  is written after the close frame, and the read loop returns after at most as many messages as
  there are octets in the buffer of the reader, however the other goroutines go on.\<close>

theorem closed_connection_ends:
  assumes "wire_run lib err goos rng (evs1 @ CloseConn k # evs2) (c, l) = ((c', l'), r)"
  shows "(k < count_list evs2 ReadNext \<longrightarrow> r \<noteq> None \<or> heart l' = Crashed)
    \<and> outgoing c' = outgoing (fst (fst (wire_run lib err goos rng (evs1 @ [CloseConn k]) (c, l))))"
proof -
  obtain c1 l1 r1 where first: "wire_run lib err goos rng evs1 (c, l) = ((c1, l1), r1)" by (metis surj_pair)
  show ?thesis
  proof (cases "r1 = None \<and> heart l1 \<noteq> Crashed")
    case True
    let ?c = "close_conn rng k c1"
    have step: "wire_step lib err goos rng (CloseConn k) (c1, l1) = ((?c, l1), None)"
      using True by (simp add: wire_step_def)
    then have "wire_run lib err goos rng evs2 (?c, l1) = ((c', l'), r)"
      using assms True first by (simp add: wire_run_append)
    from wire_run_shut [OF this close_conn_shut(1)] close_conn_shut(2) [of rng k c1]
    show ?thesis using True first step by (auto simp: wire_run_append)
  next
    case False
    then show ?thesis
      using assms first wire_run_crashed [of l1 lib err goos rng "CloseConn k # evs2" c1]
        wire_run_crashed [of l1 lib err goos rng "[CloseConn k]" c1]
      by (cases r1) (auto simp: wire_run_append simp del: wire_run.simps)
  qed
qed

lemma closed_connection_ends_witness:
  "case wire_run sample_lib_gw (\<lambda>_. ''use of closed network connection'') ''linux'' sample_masks
     ([HeartTick] @ CloseConn 0 # [ReadNext]) (sample_octets, sample_link) of
     ((c', l'), r) \<Rightarrow> heart l' = Crashed \<or> (\<exists>e. r = Some e)"
proof -
  obtain c' l' r where w: "wire_run sample_lib_gw (\<lambda>_. ''use of closed network connection'') ''linux'' sample_masks
     ([HeartTick] @ CloseConn 0 # [ReadNext]) (sample_octets, sample_link) = ((c', l'), r)"
    by (metis surj_pair)
  have "0 < count_list [ReadNext] ReadNext" by simp
  with closed_connection_ends [OF w] show ?thesis unfolding w by auto
qed

end
