(* ===== verification/Client_Env.thy ===== *)
theory Client_Env
  imports Go_Utf8 Go_Strconv Go_Os
begin

text \<open>
  The client's environment file, from \<open>cmd/wrapping-bot/main.go\<close>: where it is looked for
  (\<open>resolveClientEnvPath\<close>), how a line is read (\<open>parseEnvLine\<close>, \<open>parseEnvValue\<close> with Go's
  \<open>strconv.Unquote\<close>) and how the file changes the environment (\<open>loadClientEnv\<close>).
\<close>

section \<open>strconv.Unquote of a double-quoted string\<close>

definition hex_val :: "char \<Rightarrow> nat option" where
  "hex_val c =
     (if 0x30 \<le> byte c \<and> byte c \<le> 0x39 then Some (byte c - 0x30)
      else if 0x61 \<le> byte c \<and> byte c \<le> 0x66 then Some (byte c - 0x61 + 10)
      else if 0x41 \<le> byte c \<and> byte c \<le> 0x46 then Some (byte c - 0x41 + 10)
      else None)"

text \<open>\<open>n\<close> hexadecimal digits after the value so far.\<close>

fun read_hex :: "nat \<Rightarrow> nat \<Rightarrow> gostring \<Rightarrow> (nat \<times> gostring) option" where
  "read_hex 0 v s = Some (v, s)"
| "read_hex (Suc n) v [] = None"
| "read_hex (Suc n) v (c # s) =
     (case hex_val c of None \<Rightarrow> None | Some x \<Rightarrow> read_hex n (v * 16 + x) s)"

definition octal_val :: "char \<Rightarrow> nat option" where
  "octal_val c = (if 0x30 \<le> byte c \<and> byte c \<le> 0x37 then Some (byte c - 0x30) else None)"

definition valid_rune :: "nat \<Rightarrow> bool" where
  "valid_rune r \<longleftrightarrow> r < 0xD800 \<or> 0xDFFF < r \<and> r \<le> 0x10FFFF"

text \<open>\<open>UnquoteChar(s, '"')\<close> and the bytes it appends; a raw newline is refused by the caller.\<close>

definition simple_escape :: "char \<Rightarrow> char option" where
  "simple_escape c =
     (if c = CHR ''a'' then Some (CHR 0x07) else if c = CHR ''b'' then Some (CHR 0x08)
      else if c = CHR ''f'' then Some (CHR 0x0C) else if c = CHR ''n'' then Some (CHR 0x0A)
      else if c = CHR ''r'' then Some (CHR 0x0D) else if c = CHR ''t'' then Some (CHR 0x09)
      else if c = CHR ''v'' then Some (CHR 0x0B) else if c = BACKSLASH then Some BACKSLASH
      else if c = DQUOTE then Some DQUOTE else None)"

definition unquote_escape :: "char \<Rightarrow> gostring \<Rightarrow> (gostring \<times> gostring) option" where
  "unquote_escape c s =
     (case simple_escape c of
        Some d \<Rightarrow> Some ([d], s)
      | None \<Rightarrow>
          if c = CHR ''x'' then map_option (\<lambda>(v, r). ([char_of v], r)) (read_hex 2 0 s)
          else if c = CHR ''u'' \<or> c = CHR ''U'' then
            (case read_hex (if c = CHR ''u'' then 4 else 8) 0 s of
               None \<Rightarrow> None
             | Some (v, r) \<Rightarrow> if valid_rune v then Some (encode_rune v, r) else None)
          else
            (case (octal_val c, s) of
               (Some a, d # e # r) \<Rightarrow>
                 (case (octal_val d, octal_val e) of
                    (Some x, Some y) \<Rightarrow>
                      (let v = (a * 8 + x) * 8 + y in if 255 < v then None else Some ([char_of v], r))
                  | _ \<Rightarrow> None)
             | _ \<Rightarrow> None))"

definition unquote_char :: "gostring \<Rightarrow> (gostring \<times> gostring) option" where
  "unquote_char s =
     (case s of
        [] \<Rightarrow> None
      | c # cs \<Rightarrow>
          if c = NL then None
          else if 0x80 \<le> byte c then Some (encode_rune (fst (decode_rune s)), drop (rune_size s) s)
          else if c \<noteq> BACKSLASH then Some ([c], cs)
          else (case cs of [] \<Rightarrow> None | d # ds \<Rightarrow> unquote_escape d ds))"

lemma read_hex_length: "read_hex n v s = Some (w, r) \<Longrightarrow> length s = n + length r"
  by (induction n v s rule: read_hex.induct) (auto split: option.splits)

lemma unquote_escape_length: "unquote_escape c s = Some (out, r) \<Longrightarrow> length r \<le> length s"
  by (auto simp: unquote_escape_def Let_def split: option.splits if_splits list.splits dest: read_hex_length)

lemma unquote_char_length: "unquote_char s = Some (out, r) \<Longrightarrow> length r < length s"
  using rune_size_bounds [of s]
  by (auto simp: unquote_char_def split: list.splits if_splits dest: unquote_escape_length)

text \<open>The text between the quotes, which must end the input.\<close>

function unquote_body :: "gostring \<Rightarrow> gostring option" where
  "unquote_body s =
     (case s of
        [] \<Rightarrow> None
      | c # cs \<Rightarrow>
          if c = DQUOTE then (if cs = [] then Some [] else None)
          else
            (case unquote_char s of
               None \<Rightarrow> None
             | Some (out, r) \<Rightarrow> map_option ((@) out) (unquote_body r)))"
  by pat_completeness auto
termination
  by (relation "measure length") (auto dest: unquote_char_length)

declare unquote_body.simps [simp del]

section \<open>Lines\<close>

datatype env_error =
    ExpectedKeyValue
  | InvalidKey gostring
  | UnterminatedSingle
  | UnterminatedDouble
  | InvalidDouble

definition is_letter :: "char \<Rightarrow> bool" where
  "is_letter c \<longleftrightarrow> (0x41 \<le> byte c \<and> byte c \<le> 0x5A) \<or> (0x61 \<le> byte c \<and> byte c \<le> 0x7A)"

text \<open>A rune outside ASCII is refused, and so is each of its bytes.\<close>

definition isEnvKey :: "gostring \<Rightarrow> bool" where
  "isEnvKey key =
     (case key of
        [] \<Rightarrow> False
      | c # cs \<Rightarrow>
          (is_letter c \<or> c = CHR ''_'')
          \<and> list_all (\<lambda>d. is_letter d \<or> d = CHR ''_'' \<or> is_digit d) cs)"

definition parse_env_value :: "gostring \<Rightarrow> env_error + gostring" where
  "parse_env_value raw =
     (case raw of
        [] \<Rightarrow> Inr []
      | c # cs \<Rightarrow>
          if c = SQUOTE then
            (if length raw < 2 \<or> last raw \<noteq> SQUOTE then Inl UnterminatedSingle else Inr (butlast cs))
          else if c = DQUOTE then
            (if length raw < 2 \<or> last raw \<noteq> DQUOTE then Inl UnterminatedDouble
             else (case unquote_body cs of None \<Rightarrow> Inl InvalidDouble | Some v \<Rightarrow> Inr v))
          else
            (case index_of raw '' #'' of
               Some i \<Rightarrow> Inr (trim_space (take i raw))
             | None \<Rightarrow> Inr raw))"

text \<open>\<open>Inr None\<close> for a line without an assignment.\<close>

definition parse_env_line :: "gostring \<Rightarrow> env_error + (gostring \<times> gostring) option" where
  "parse_env_line line0 =
     (let line = trim_space line0 in
      if line = [] \<or> has_prefix line ''#'' then Inr None
      else
        (let line = (if has_prefix line ''export '' then trim_space (trim_prefix line ''export '') else line)
         in case cut_at CHR ''='' line of
              None \<Rightarrow> Inl ExpectedKeyValue
            | Some (k, raw_value) \<Rightarrow>
                (let key = trim_space k in
                 if \<not> isEnvKey key then Inl (InvalidKey key)
                 else (case parse_env_value (trim_space raw_value) of
                         Inl e \<Rightarrow> Inl e
                       | Inr value \<Rightarrow> Inr (Some (key, value))))))"

section \<open>The file\<close>

datatype load_error =
    OpenFailed gostring
  | LineError nat env_error
  | SetFailed nat gostring
  | LineTooLong
  | ReadError gostring

text \<open>What opening and reading the file yields: the bytes, and the error that ended the reading.\<close>

datatype env_file =
    Missing gostring
  | Unopenable gostring
  | Contents gostring "gostring option"

text \<open>The tokens of \<open>bufio.Scanner\<close>; the carriage return is dropped by the scanner.\<close>

definition raw_lines :: "gostring \<Rightarrow> gostring list" where
  "raw_lines s = (let ls = split_on NL s in if last ls = [] then butlast ls else ls)"

definition max_line_bytes :: nat where
  "max_line_bytes = 1024 * 1024"

fun load_lines :: "nat \<Rightarrow> gostring list \<Rightarrow> environment \<Rightarrow> environment \<times> load_error option" where
  "load_lines n [] env = (env, None)"
| "load_lines n (raw # raws) env =
     (if max_line_bytes \<le> length raw then (env, Some LineTooLong)
      else
        (case parse_env_line (trim_suffix raw [CR]) of
           Inl e \<Rightarrow> (env, Some (LineError (n + 1) e))
         | Inr None \<Rightarrow> load_lines (n + 1) raws env
         | Inr (Some (key, value)) \<Rightarrow>
             if env key \<noteq> None then load_lines (n + 1) raws env
             else
               (case setenv key value env of
                  None \<Rightarrow> (env, Some (SetFailed (n + 1) key))
                | Some env' \<Rightarrow> load_lines (n + 1) raws env')))"

definition load_client_env :: "env_file \<Rightarrow> bool \<Rightarrow> environment \<Rightarrow> environment \<times> load_error option" where
  "load_client_env file required env =
     (case file of
        Missing e \<Rightarrow> if required then (env, Some (OpenFailed e)) else (env, None)
      | Unopenable e \<Rightarrow> (env, Some (OpenFailed e))
      | Contents s read_error \<Rightarrow>
          (case load_lines 0 (raw_lines s) env of
             (env', Some e) \<Rightarrow> (env', Some e)
           | (env', None) \<Rightarrow> (env', map_option ReadError read_error)))"

section \<open>The path\<close>

definition client_env_path_from_environment :: "environment \<Rightarrow> gostring" where
  "client_env_path_from_environment env = trimmed_env env ''WRAPPING_BOT_CLIENT_ENV_FILE''"

definition default_client_env_path :: "environment \<Rightarrow> gostring \<times> bool" where
  "default_client_env_path env =
     (let path = client_env_path_from_environment env in
      if path \<noteq> [] then (path, True) else (''client.env'', False))"

fun resolve_client_env_path :: "environment \<Rightarrow> gostring list \<Rightarrow> gostring + gostring \<times> bool" where
  "resolve_client_env_path env [] = Inr (default_client_env_path env)"
| "resolve_client_env_path env (arg # args) =
     (if arg = ''--'' then Inr (default_client_env_path env)
      else if arg = ''--client-env'' then
        (case args of
           [] \<Rightarrow> Inl ''--client-env requires a path''
         | next_arg # _ \<Rightarrow>
             if trim_space next_arg = [] then Inl ''--client-env requires a non-empty path''
             else Inr (trim_space next_arg, True))
      else if has_prefix arg ''--client-env='' then
        (let path = trim_space (trim_prefix arg ''--client-env='') in
         if path = [] then Inl ''--client-env requires a non-empty path'' else Inr (path, True))
      else resolve_client_env_path env args)"

section \<open>What a line means\<close>

lemma isEnvKey_bytes: "isEnvKey k \<Longrightarrow> c \<in> set k \<Longrightarrow> is_letter c \<or> c = CHR ''_'' \<or> is_digit c"
  by (auto simp: isEnvKey_def list_all_iff split: list.splits)

lemma isEnvKey_graphic: "isEnvKey k \<Longrightarrow> c \<in> set k \<Longrightarrow> graphic c \<and> c \<noteq> CHR ''='' \<and> c \<noteq> CHR '' '' \<and> c \<noteq> CHR ''#''"
  by (auto dest!: isEnvKey_bytes simp: graphic_def is_letter_def is_digit_def)

text \<open>An assignment whose value starts and ends with visible characters is read as it stands.\<close>

lemma parse_env_line_assignment:
  assumes key: "isEnvKey k" and val: "v \<noteq> []" "graphic (hd v)" "graphic (last v)"
  shows "parse_env_line (k @ ''='' @ v)
     = (case parse_env_value v of Inl e \<Rightarrow> Inl e | Inr value \<Rightarrow> Inr (Some (k, value)))"
proof -
  let ?line = "k @ ''='' @ v"
  have k: "k \<noteq> []" using key by (auto simp: isEnvKey_def)
  have g: "\<forall>c \<in> set k. graphic c" using isEnvKey_graphic [OF key] by blast
  have line: "trim_space ?line = ?line"
    by (rule trim_space_graphic) (use k g val in \<open>auto simp: hd_append last_append\<close>)
  have no_comment: "\<not> has_prefix ?line ''#''"
    using k isEnvKey_graphic [OF key] by (cases k) (auto simp: has_prefix_iff)
  have no_export: "\<not> has_prefix ?line ''export ''"
  proof
    assume "has_prefix ?line ''export ''"
    then obtain r where eq: "k @ CHR ''='' # v = ''export '' @ r" by (auto simp: has_prefix_iff)
    have no_blank: "CHR '' '' \<notin> set k" and no_eq: "CHR ''='' \<notin> set k" using isEnvKey_graphic [OF key] by auto
    have "takeWhile (\<lambda>c. c \<noteq> CHR ''='') (k @ CHR ''='' # v) = k" using no_eq by (induction k) auto
    moreover have "CHR '' '' \<in> set (takeWhile (\<lambda>c. c \<noteq> CHR ''='') (''export '' @ r))" by simp
    ultimately show False using eq no_blank by simp
  qed
  have "CHR ''='' \<notin> set k" using isEnvKey_graphic [OF key] by blast
  then have cut: "cut_at CHR ''='' ?line = Some (k, v)" using cut_at_append [of "CHR ''=''" k v] by simp
  have "trim_space k = k" using g by (rule trim_space_all_graphic)
  moreover have "trim_space v = v" using val by (rule trim_space_graphic)
  ultimately show ?thesis
    unfolding parse_env_line_def Let_def line using no_comment no_export cut key
    by (simp split: sum.split)
qed

text \<open>A writer for values: every byte as a hexadecimal escape.\<close>

definition hex_char :: "nat \<Rightarrow> char" where
  "hex_char d = (if d < 10 then char_of (0x30 + d) else char_of (0x61 + d - 10))"

definition hex_escape :: "char \<Rightarrow> gostring" where
  "hex_escape c = [BACKSLASH, CHR ''x'', hex_char (byte c div 16), hex_char (byte c mod 16)]"

lemma hex_val_char: "d < 16 \<Longrightarrow> hex_val (hex_char d) = Some d"
  by (auto simp: hex_val_def hex_char_def split: if_splits)

lemma unquote_hex_escape: "unquote_char (hex_escape c @ s) = Some ([c], s)"
proof -
  have b: "byte c div 16 < 16" "byte c mod 16 < 16" using nat_of_char_less_256 [of c] by (auto simp del: nat_of_char_less_256)
  show ?thesis
    by (simp add: unquote_char_def hex_escape_def unquote_escape_def simple_escape_def numeral_2_eq_2
        hex_val_char [OF b(1)] hex_val_char [OF b(2)])
qed

lemma unquote_hex_escapes: "unquote_body (concat (map hex_escape v) @ [DQUOTE]) = Some v"
proof (induction v)
  case Nil
  show ?case by (subst unquote_body.simps) simp
next
  case (Cons c v)
  have ne: "hex_escape c @ r = BACKSLASH # tl (hex_escape c) @ r" for r by (simp add: hex_escape_def)
  have "unquote_body (hex_escape c @ concat (map hex_escape v) @ [DQUOTE])
      = (case unquote_char (hex_escape c @ concat (map hex_escape v) @ [DQUOTE]) of
           None \<Rightarrow> None | Some (out, r) \<Rightarrow> map_option ((@) out) (unquote_body r))"
    unfolding ne by (subst unquote_body.simps) simp
  with Cons show ?case by (simp add: unquote_hex_escape)
qed

section \<open>What loading changes\<close>

lemma load_lines_preserves:
  "load_lines n raws env = (env', r) \<Longrightarrow> env k = Some v \<Longrightarrow> env' k = Some v"
proof (induction raws arbitrary: n env)
  case (Cons raw raws)
  show ?case
  proof (cases "env' = env")
    case False
    with Cons.prems(1) obtain n' env1 where rec: "load_lines n' raws env1 = (env', r)"
      and env1: "env1 = env \<or> (\<exists>k' v'. env k' = None \<and> env1 = env(k' \<mapsto> v'))"
      by (auto simp: setenv_def split: if_splits sum.splits option.splits) blast+
    have "env1 k = Some v" using env1 Cons.prems(2) by auto
    then show ?thesis by (rule Cons.IH [OF rec])
  qed (use Cons.prems in simp)
qed simp

text \<open>What the file assigns, in order; a variable that is already set is never changed.\<close>

lemma load_client_env_preserves:
  "load_client_env file required env = (env', r) \<Longrightarrow> env k = Some v \<Longrightarrow> env' k = Some v"
  by (auto simp: load_client_env_def split: env_file.splits if_splits prod.splits option.splits
      dest: load_lines_preserves)

lemma load_lines_first:
  assumes "load_lines n (raw # raws) env = (env', None)" "parse_env_line (trim_suffix raw [CR]) = Inr (Some (k, v))"
    "env k = None"
  shows "env' k = Some v"
proof -
  from assms have rest: "load_lines (n + 1) raws (env(k \<mapsto> v)) = (env', None)"
    by (auto simp: setenv_def split: if_splits)
  show ?thesis by (rule load_lines_preserves [OF rest]) simp
qed

section \<open>Properties\<close>



text \<open>Loading the file never changes a variable that is already set, whatever the file holds and
  even when it is broken, so the environment of the process takes precedence.\<close>

lemma client_env_precedence:
  assumes "env k = Some v"
  shows "fst (load_client_env file required env) k = Some v"
  using load_client_env_preserves [of "file" required env "fst (load_client_env file required env)"] assms
  by (metis prod.collapse)

lemma client_env_precedence_witness:
  "fst (load_client_env (Contents (''A=2'' @ [NL] @ ''B'') None) True [''A'' \<mapsto> ''1'']) ''A'' = Some ''1''"
  by (rule client_env_precedence) simp

end
