(* ===== verification/Client_Session.thy ===== *)
theory Client_Session
  imports Protocol Go_Time Lossy_Queue
begin

text \<open>
  \<open>internal/clientstream/session.go\<close>. A session is a bounded channel of events between the
  wrapper (\<open>SendStart\<close>, the two stream writers, \<open>Close\<close>, all under the lock \<open>sendMu\<close>) and
  the uploading goroutine. What happens under one hold of the lock, and one receive of the
  uploader, is one operation on the shared state; \<open>session_run\<close> performs any interleaving.
  The field \<open>encoded\<close> holds the events written to the request body. Parameters: the errors of
  the encoder and of \<open>json.Unmarshal\<close>, the outcome of the HTTP request.
\<close>

definition max_output_event_bytes :: nat where
  "max_output_event_bytes = 8 * 1024"

record session_config =
  endpoint :: gostring
  token :: gostring
  events_capacity :: int
  finish_timeout :: duration

record session =
  events :: "event list"              \<comment> \<open>the channel\<close>
  session_closed :: bool
  session_dropped :: nat
  encoded :: "event list"
  encode_err :: "gostring option"
  encode_calls :: nat

text \<open>\<open>New\<close>: the checks and defaults; the result holds the capacity of the channel.\<close>

definition new_session :: "session_config \<Rightarrow> gostring + session_config \<times> session" where
  "new_session cfg =
     (if trim_space (endpoint cfg) = [] then Inl ''relay endpoint is required''
      else if trim_space (token cfg) = [] then Inl ''relay token is required''
      else
        (let cfg1 = (if events_capacity cfg \<le> 0 then cfg\<lparr>events_capacity := 1024\<rparr> else cfg);
             cfg2 = (if finish_timeout cfg1 \<le> 0 then cfg1\<lparr>finish_timeout := 15 * second\<rparr> else cfg1)
         in Inr (cfg2, \<lparr>events = [], session_closed = False, session_dropped = 0, encoded = [],
                        encode_err = None, encode_calls = 0\<rparr>)))"

section \<open>Operations\<close>

definition output_event :: "gostring \<Rightarrow> time \<Rightarrow> gostring \<Rightarrow> gostring \<Rightarrow> event" where
  "output_event run_id now stream data =
     zero_event\<lparr>ev_version := protocol_version, ev_type := event_output, ev_run_id := run_id,
       ev_timestamp := now, ev_stream := stream, ev_data := data\<rparr>"

text \<open>
  \<open>SendStart\<close>. A send to a full channel blocks until the uploader receives; here it happens at
  a moment when there is room, which is always the case when it is the first operation.
\<close>

definition send_start :: "event \<Rightarrow> session \<Rightarrow> session \<times> gostring option" where
  "send_start e s =
     (if session_closed s then (s, Some ''relay session is closed'')
      else (s\<lparr>events := events s @ [e]\<rparr>, None))"

text \<open>One round of the loop of \<open>Write\<close>: a non-blocking send of one chunk.\<close>

definition write_chunk :: "nat \<Rightarrow> event \<Rightarrow> session \<Rightarrow> session" where
  "write_chunk cap e s =
     (if session_closed s then s
      else if length (events s) < cap then s\<lparr>events := events s @ [e]\<rparr>
      else s\<lparr>session_dropped := session_dropped s + length (ev_data e)\<rparr>)"

text \<open>\<open>Write\<close>, with the clock of each round; it always reports the full length.\<close>

function write_loop ::
    "nat \<Rightarrow> gostring \<Rightarrow> gostring \<Rightarrow> (nat \<Rightarrow> time) \<Rightarrow> nat \<Rightarrow> gostring \<Rightarrow> session \<Rightarrow> session" where
  "write_loop cap run_id stream now i p s =
     (if p = [] then s
      else
        (let n = (if max_output_event_bytes < length p then max_output_event_bytes else length p);
             e = output_event run_id (now i) stream (take n p)
         in if session_closed s then s
            else write_loop cap run_id stream now (i + 1) (drop n p) (write_chunk cap e s)))"
  by pat_completeness auto
termination
  by (relation "measure (\<lambda>(cap, run_id, stream, now, i, p, s). length p)")
    (auto simp: max_output_event_bytes_def)

declare write_loop.simps [simp del]

definition session_write ::
    "nat \<Rightarrow> gostring \<Rightarrow> gostring \<Rightarrow> (nat \<Rightarrow> time) \<Rightarrow> gostring \<Rightarrow> session \<Rightarrow> session \<times> nat" where
  "session_write cap run_id stream now p s = (write_loop cap run_id stream now 0 p s, length p)"

definition client_notice :: "nat \<Rightarrow> gostring" where
  "client_notice n =
     ''[wrapping-bot client queue overflow: '' @ format_nat n @ '' bytes omitted]'' @ [NL]"

text \<open>\<open>Close\<close>, first part: the notice is sent only if the channel has room at once.\<close>

definition close_notice :: "nat \<Rightarrow> gostring \<Rightarrow> time \<Rightarrow> session \<Rightarrow> session" where
  "close_notice cap run_id now s =
     (if session_closed s \<or> session_dropped s = 0 then s
      else if length (events s) < cap
      then s\<lparr>events := events s @ [output_event run_id now stream_system (client_notice (session_dropped s))]\<rparr>
      else s)"

text \<open>
  Second part: the exit event is sent if there is room before the timer fires; then the channel
  is closed.
\<close>

definition close_exit :: "nat \<Rightarrow> event \<Rightarrow> session \<Rightarrow> session" where
  "close_exit cap e s =
     (if session_closed s then s
      else (if length (events s) < cap then s\<lparr>events := events s @ [e]\<rparr> else s)\<lparr>session_closed := True\<rparr>)"

text \<open>One receive of the uploader, which encodes the event unless an earlier one failed.\<close>

definition upload_one :: "(nat \<Rightarrow> gostring option) \<Rightarrow> session \<Rightarrow> session" where
  "upload_one encode_fails s =
     (case events s of
        [] \<Rightarrow> s
      | e # es \<Rightarrow>
          if encode_err s \<noteq> None then s\<lparr>events := es\<rparr>
          else
            (case encode_fails (encode_calls s) of
               Some err \<Rightarrow> s\<lparr>events := es, encode_err := Some err, encode_calls := encode_calls s + 1\<rparr>
             | None \<Rightarrow> s\<lparr>events := es, encoded := encoded s @ [e], encode_calls := encode_calls s + 1\<rparr>))"

datatype session_op =
    Start event
  | Chunk event
  | Upload
  | CloseNotice gostring time
  | CloseExit event

fun session_step :: "nat \<Rightarrow> (nat \<Rightarrow> gostring option) \<Rightarrow> session_op \<Rightarrow> session \<Rightarrow> session" where
  "session_step cap enc (Start e) s = fst (send_start e s)"
| "session_step cap enc (Chunk e) s = write_chunk cap e s"
| "session_step cap enc Upload s = upload_one enc s"
| "session_step cap enc (CloseNotice run_id now) s = close_notice cap run_id now s"
| "session_step cap enc (CloseExit e) s = close_exit cap e s"

fun session_run :: "nat \<Rightarrow> (nat \<Rightarrow> gostring option) \<Rightarrow> session_op list \<Rightarrow> session \<Rightarrow> session" where
  "session_run cap enc [] s = s"
| "session_run cap enc (op # ops) s = session_run cap enc ops (session_step cap enc op s)"

text \<open>
  \<open>Close(exitEvent)\<close> with the receives of the uploader around its two sends: \<open>waiting\<close> of them
  happen while it waits for room; afterwards the uploader empties the channel.
\<close>

definition close_ops :: "event \<Rightarrow> time \<Rightarrow> nat \<Rightarrow> session_op list" where
  "close_ops exit_event now waiting =
     CloseNotice (ev_run_id exit_event) now # replicate waiting Upload @ [CloseExit exit_event]"

definition close_session ::
    "nat \<Rightarrow> (nat \<Rightarrow> gostring option) \<Rightarrow> event \<Rightarrow> time \<Rightarrow> nat \<Rightarrow> session \<Rightarrow> session" where
  "close_session cap enc exit_event now waiting s =
     (let s' = session_run cap enc (close_ops exit_event now waiting) s
      in session_run cap enc (replicate (length (events s')) Upload) s')"

section \<open>Timeouts and the result\<close>

definition close_timeout :: "duration \<Rightarrow> duration" where
  "close_timeout timeout = (if timeout \<le> 0 then 15 * second else timeout)"

definition final_send_timeout :: "duration \<Rightarrow> duration" where
  "final_send_timeout timeout =
     (let t = close_timeout timeout div 3;
          t = (if 5 * second < t then 5 * second else t)
      in if t < 250 * millisecond then 250 * millisecond else t)"

record result =
  r_response :: stream_response
  r_err :: "gostring option"

text \<open>The request that \<open>upload\<close> makes: its URL and its authorization header.\<close>

definition relay_url :: "session_config \<Rightarrow> gostring" where
  "relay_url cfg = trim_right_char CHR ''/'' (endpoint cfg) @ ''/v1/runs/stream''"

definition relay_authorization :: "session_config \<Rightarrow> gostring" where
  "relay_authorization cfg = ''Bearer '' @ token cfg"

text \<open>The HTTP exchange as the goroutine of \<open>upload\<close> sees it.\<close>

datatype relay_outcome =
    RequestFailed gostring
  | ReadFailed gostring
  | Replied int gostring gostring      \<comment> \<open>status code, status line, body, of which 1 MiB is read\<close>

definition relay_result ::
    "(gostring \<Rightarrow> gostring + stream_response) \<Rightarrow> relay_outcome \<Rightarrow> result" where
  "relay_result unmarshal out =
     (case out of
        RequestFailed e \<Rightarrow> \<lparr>r_response = zero_response, r_err = Some e\<rparr>
      | ReadFailed e \<Rightarrow> \<lparr>r_response = zero_response, r_err = Some e\<rparr>
      | Replied status line whole \<Rightarrow>
          (let body = take 1048576 whole in
           case (if 0 < length body then unmarshal body else Inr zero_response) of
             Inl e \<Rightarrow> \<lparr>r_response = zero_response, r_err = Some (''decode relay response: '' @ e)\<rparr>
           | Inr response \<Rightarrow>
               if status < 200 \<or> 300 \<le> status
               then (let message = (if rs_error response = [] then trim_space body else rs_error response)
                     in \<lparr>r_response = response,
                         r_err = Some (''relay returned '' @ line @ '': '' @ message)\<rparr>)
               else \<lparr>r_response = response, r_err = None\<rparr>))"

definition upload_result :: "gostring option \<Rightarrow> result \<Rightarrow> result" where
  "upload_result encode_error r =
     (if encode_error \<noteq> None \<and> r_err r = None then r\<lparr>r_err := encode_error\<rparr> else r)"

text \<open>
  The result that \<open>upload\<close> delivers. Where the request cannot be built it delivers the error at
  once and receives no event: the session then sees no \<open>Upload\<close>.
\<close>

definition upload_done :: "gostring option \<Rightarrow> gostring option \<Rightarrow> result \<Rightarrow> result" where
  "upload_done request_error encode_error r =
     (case request_error of
        Some e \<Rightarrow> \<lparr>r_response = zero_response, r_err = Some e\<rparr>
      | None \<Rightarrow> upload_result encode_error r)"

text \<open>
  The end of \<open>Close\<close>: \<open>elapsed\<close> time was spent on the sends, \<open>arrives\<close> is the result if it
  comes before the rest of the timeout is over. The flag says that the request was cancelled.
\<close>

definition await_result ::
    "duration \<Rightarrow> duration \<Rightarrow> result option \<Rightarrow> bool \<times> result" where
  "await_result timeout elapsed arrives =
     (let remaining = close_timeout timeout - elapsed;
          late = \<lparr>r_response = zero_response,
                  r_err = Some (''relay did not finish within '' @ duration_string (close_timeout timeout))\<rparr>
      in if remaining \<le> 0 then (True, late)
         else (case arrives of Some r \<Rightarrow> (False, r) | None \<Rightarrow> (True, late)))"

section \<open>Chunks\<close>

text \<open>The events that \<open>Write\<close> offers for a piece of output.\<close>

function write_events :: "gostring \<Rightarrow> gostring \<Rightarrow> (nat \<Rightarrow> time) \<Rightarrow> nat \<Rightarrow> gostring \<Rightarrow> event list" where
  "write_events run_id stream now i p =
     (if p = [] then []
      else output_event run_id (now i) stream (take max_output_event_bytes p)
             # write_events run_id stream now (i + 1) (drop max_output_event_bytes p))"
  by pat_completeness auto
termination
  by (relation "measure (\<lambda>(run_id, stream, now, i, p). length p)") (auto simp: max_output_event_bytes_def)

declare write_events.simps [simp del]

lemma output_event_simps [simp]:
  "ev_data (output_event r t st d) = d" "ev_stream (output_event r t st d) = st"
  "ev_run_id (output_event r t st d) = r" "ev_version (output_event r t st d) = protocol_version"
  "ev_type (output_event r t st d) = event_output"
  by (simp_all add: output_event_def)

lemma session_run_append: "session_run cap enc (xs @ ys) s = session_run cap enc ys (session_run cap enc xs s)"
  by (induction xs arbitrary: s) auto

lemma write_chunks_closed: "session_closed s \<Longrightarrow> session_run cap enc (map Chunk es) s = s"
  by (induction es) (auto simp: write_chunk_def)

lemma write_loop_run:
  "write_loop cap run_id stream now i p s
     = session_run cap enc (map Chunk (write_events run_id stream now i p)) s"
proof (induction cap run_id stream now i p s rule: write_loop.induct)
  case (1 cap run_id stream now i p s)
  define n where "n = (if max_output_event_bytes < length p then max_output_event_bytes else length p)"
  have n: "take n p = take max_output_event_bytes p" "drop n p = drop max_output_event_bytes p"
    by (simp_all add: n_def)
  show ?case
  proof (cases "p = [] \<or> session_closed s")
    case True
    then have "write_loop cap run_id stream now i p s = s"
      by (subst write_loop.simps) (auto simp: Let_def)
    moreover have "session_run cap enc (map Chunk (write_events run_id stream now i p)) s = s"
      using True write_chunks_closed by (auto simp: write_events.simps [of run_id stream now i "[]"])
    ultimately show ?thesis by simp
  next
    case False
    then show ?thesis
      using 1 [OF _ refl refl] n
      by (simp add: write_loop.simps [of cap run_id stream now i p s]
          write_events.simps [of run_id stream now i p] n_def [symmetric] Let_def)
  qed
qed

lemma write_events_data: "concat (map ev_data (write_events run_id stream now i p)) = p"
  by (induction run_id stream now i p rule: write_events.induct) (subst write_events.simps, auto)

lemma write_events_shape:
  "e \<in> set (write_events run_id stream now i p) \<Longrightarrow>
     \<exists>t d. e = output_event run_id t stream d \<and> d \<noteq> [] \<and> length d \<le> max_output_event_bytes"
proof (induction run_id stream now i p rule: write_events.induct)
  case (1 run_id stream now i p)
  then consider "p \<noteq> []" "e = output_event run_id (now i) stream (take max_output_event_bytes p)"
    | "p \<noteq> []" "e \<in> set (write_events run_id stream now (i + 1) (drop max_output_event_bytes p))"
    by (auto simp: write_events.simps [of run_id stream now i p] split: if_splits)
  then show ?case
  proof cases
    case 1
    then show ?thesis
      by (intro exI [of _ "now i"] exI [of _ "take max_output_event_bytes p"])
        (simp add: max_output_event_bytes_def)
  qed (rule "1.IH")
qed

section \<open>What is uploaded\<close>

text \<open>The events an operation puts on the channel.\<close>

fun accepts :: "nat \<Rightarrow> session_op \<Rightarrow> session \<Rightarrow> event list" where
  "accepts cap (Start e) s = (if session_closed s then [] else [e])"
| "accepts cap (Chunk e) s = (if session_closed s \<or> cap \<le> length (events s) then [] else [e])"
| "accepts cap Upload s = []"
| "accepts cap (CloseNotice r t) s =
     (if session_closed s \<or> session_dropped s = 0 \<or> cap \<le> length (events s) then []
      else [output_event r t stream_system (client_notice (session_dropped s))])"
| "accepts cap (CloseExit e) s = (if session_closed s \<or> cap \<le> length (events s) then [] else [e])"

fun accepted :: "nat \<Rightarrow> (nat \<Rightarrow> gostring option) \<Rightarrow> session_op list \<Rightarrow> session \<Rightarrow> event list" where
  "accepted cap enc [] s = []"
| "accepted cap enc (op # ops) s = accepts cap op s @ accepted cap enc ops (session_step cap enc op s)"

lemma accepted_append:
  "accepted cap enc (xs @ ys) s = accepted cap enc xs s @ accepted cap enc ys (session_run cap enc xs s)"
  by (induction xs arbitrary: s) auto

text \<open>
  The encoded events are always a prefix of what was put on the channel, and together with the
  events still on the channel all of it, as long as no encoding failed.
\<close>

definition uploads :: "event list \<Rightarrow> session \<Rightarrow> bool" where
  "uploads h s \<longleftrightarrow>
     prefix (encoded s) h \<and> suffix (events s) h \<and> (encode_err s = None \<longrightarrow> h = encoded s @ events s)"

lemma uploads_step: "uploads h s \<Longrightarrow> uploads (h @ accepts cap op s) (session_step cap enc op s)"
proof (cases op)
  case Upload
  assume u: "uploads h s"
  show ?thesis
  proof (cases "events s")
    case Nil
    then show ?thesis using u by (simp add: Upload upload_one_def)
  next
    case (Cons e es)
    have "suffix es h" using u Cons by (auto simp: uploads_def suffix_def)
    with u Cons show ?thesis
      by (auto simp: Upload upload_one_def uploads_def split: option.split)
  qed
qed (auto simp: uploads_def send_start_def write_chunk_def close_notice_def close_exit_def
    intro: suffix_appendI)

lemma uploads_run: "uploads h s \<Longrightarrow> uploads (h @ accepted cap enc ops s) (session_run cap enc ops s)"
proof (induction ops arbitrary: h s)
  case (Cons op ops)
  show ?case using Cons.IH [OF uploads_step [OF Cons.prems, of cap op enc]] by simp
qed simp

section \<open>Accounting\<close>

text \<open>Between start and close a session only sees chunks and the uploader.\<close>

fun relays :: "session_op \<Rightarrow> bool" where
  "relays (Chunk e) = True"
| "relays Upload = True"
| "relays _ = False"

fun chunk_events :: "session_op list \<Rightarrow> event list" where
  "chunk_events [] = []"
| "chunk_events (Chunk e # ops) = e # chunk_events ops"
| "chunk_events (_ # ops) = chunk_events ops"

definition event_bytes :: "event list \<Rightarrow> nat" where
  "event_bytes es = sum_list (map (length \<circ> ev_data) es)"

lemma event_bytes_simps [simp]:
  "event_bytes [] = 0" "event_bytes (e # es) = length (ev_data e) + event_bytes es"
  "event_bytes (xs @ ys) = event_bytes xs + event_bytes ys"
  by (simp_all add: event_bytes_def)

lemma upload_one_frame:
  "session_closed (upload_one enc s) = session_closed s" "session_dropped (upload_one enc s) = session_dropped s"
  "events (upload_one enc s) = tl (events s)"
  by (auto simp: upload_one_def split: list.split option.split)

lemma relay_effect:
  assumes "list_all relays ops" "\<not> session_closed s" "length (events s) \<le> cap"
    "session_run cap enc ops s = s'"
  shows "\<not> session_closed s'" "length (events s') \<le> cap"
    "subseq (accepted cap enc ops s) (chunk_events ops)"
    "event_bytes (accepted cap enc ops s) + session_dropped s' = session_dropped s + event_bytes (chunk_events ops)"
    "length (events s) + length (chunk_events ops) \<le> cap \<Longrightarrow> accepted cap enc ops s = chunk_events ops"
proof -
  have "\<not> session_closed s' \<and> length (events s') \<le> cap \<and> subseq (accepted cap enc ops s) (chunk_events ops)
    \<and> event_bytes (accepted cap enc ops s) + session_dropped s' = session_dropped s + event_bytes (chunk_events ops)
    \<and> (length (events s) + length (chunk_events ops) \<le> cap \<longrightarrow> accepted cap enc ops s = chunk_events ops)"
    using assms
  proof (induction ops arbitrary: s)
    case (Cons op ops)
    let ?s1 = "session_step cap enc op s"
    show ?case
    proof (cases op)
      case (Chunk e)
      have "\<not> session_closed ?s1 \<and> length (events ?s1) \<le> cap"
        using Cons.prems by (auto simp: Chunk write_chunk_def)
      then show ?thesis
        using Cons.IH [of ?s1] Cons.prems by (auto simp: Chunk write_chunk_def)
    next
      case Upload
      have "\<not> session_closed ?s1 \<and> length (events ?s1) \<le> cap"
        using Cons.prems by (simp add: Upload upload_one_frame)
      then show ?thesis
        using Cons.IH [of ?s1] Cons.prems by (auto simp: Upload upload_one_frame)
    qed (use Cons.prems in simp_all)
  qed simp
  then show "\<not> session_closed s'" "length (events s') \<le> cap"
    "subseq (accepted cap enc ops s) (chunk_events ops)"
    "event_bytes (accepted cap enc ops s) + session_dropped s' = session_dropped s + event_bytes (chunk_events ops)"
    "length (events s) + length (chunk_events ops) \<le> cap \<Longrightarrow> accepted cap enc ops s = chunk_events ops"
    by simp_all
qed

lemma uploads_drain:
  "length (events s) \<le> n \<Longrightarrow> events (session_run cap enc (replicate n Upload) s) = []"
  by (induction n arbitrary: s) (auto simp: upload_one_frame)

lemma uploads_frame:
  "session_closed (session_run cap enc (replicate n Upload) s) = session_closed s"
  "session_dropped (session_run cap enc (replicate n Upload) s) = session_dropped s"
  "length (events (session_run cap enc (replicate n Upload) s)) = length (events s) - n"
  "accepted cap enc (replicate n Upload) s = []"
  by (induction n arbitrary: s) (auto simp: upload_one_frame)

lemma encode_err_none:
  "(\<And>n. enc n = None) \<Longrightarrow> encode_err s = None \<Longrightarrow> encode_err (session_run cap enc ops s) = None"
proof (induction ops arbitrary: s)
  case (Cons op ops)
  have "encode_err (session_step cap enc op s) = None"
    using Cons.prems
    by (cases op) (auto simp: send_start_def write_chunk_def upload_one_def close_notice_def close_exit_def
        split: list.split)
  then show ?case unfolding session_run.simps by (rule Cons.IH [OF Cons.prems(1)])
qed simp

text \<open>What \<open>Close\<close> adds: the notice if bytes were dropped and there is room, then the exit event.\<close>

lemma close_accepts:
  assumes "\<not> session_closed s" "length (events s) \<le> cap" "1 \<le> cap"
  shows "\<exists>notice exits. accepted cap enc (close_ops ex now waiting) s = notice @ exits
     \<and> notice = (if session_dropped s = 0 \<or> cap \<le> length (events s) then []
                 else [output_event (ev_run_id ex) now stream_system (client_notice (session_dropped s))])
     \<and> (exits = [] \<or> exits = [ex]) \<and> (0 < waiting \<longrightarrow> exits = [ex])
     \<and> (length (events s) + 1 < cap \<longrightarrow> exits = [ex])"
proof -
  let ?s1 = "close_notice cap (ev_run_id ex) now s"
  let ?s2 = "session_run cap enc (replicate waiting Upload) ?s1"
  have s1: "\<not> session_closed ?s1" "length (events ?s1) \<le> cap" "length (events ?s1) \<le> length (events s) + 1"
    using assms by (auto simp: close_notice_def)
  have s2: "\<not> session_closed ?s2" "length (events ?s2) = length (events ?s1) - waiting"
    using s1(1) by (simp_all add: uploads_frame)
  have "accepted cap enc (close_ops ex now waiting) s
     = accepts cap (CloseNotice (ev_run_id ex) now) s @ accepts cap (CloseExit ex) ?s2"
    by (simp add: close_ops_def accepted_append uploads_frame)
  moreover have "accepts cap (CloseExit ex) ?s2 = [ex]" if "0 < waiting \<or> length (events s) + 1 < cap"
    using s1 s2 assms(3) that by auto
  ultimately show ?thesis using s2(1) assms(1) by auto
qed

lemma close_session_closed:
  "\<not> session_closed s \<Longrightarrow> session_closed (close_session cap enc ex now waiting s)
     \<and> events (close_session cap enc ex now waiting s) = []"
proof -
  assume "\<not> session_closed s"
  then have "session_closed (session_run cap enc (close_ops ex now waiting) s)"
    by (simp add: close_ops_def session_run_append uploads_frame close_exit_def)
  then show ?thesis by (simp add: close_session_def Let_def uploads_frame uploads_drain)
qed

text \<open>A whole session, from \<open>New\<close> to the end of the upload.\<close>

definition whole_session ::
    "nat \<Rightarrow> (nat \<Rightarrow> gostring option) \<Rightarrow> session \<Rightarrow> event \<Rightarrow> session_op list \<Rightarrow> event \<Rightarrow> time \<Rightarrow> nat \<Rightarrow> session" where
  "whole_session cap enc s0 start mid ex now waiting =
     close_session cap enc ex now waiting (session_run cap enc (Start start # mid) s0)"

lemma whole_session_effect:
  assumes "new_session cfg = Inr (cfg', s0)" "cap = nat (events_capacity cfg')" "list_all relays mid"
    "\<And>n. enc n = None" "whole_session cap enc s0 start mid ex now waiting = t"
  obtains outs notice exits n where "encoded t = start # outs @ notice @ exits" "events t = []"
    "session_closed t" "subseq outs (chunk_events mid)" "event_bytes outs + n = event_bytes (chunk_events mid)"
    "notice = [] \<or> notice = [output_event (ev_run_id ex) now stream_system (client_notice n)]"
    "n = 0 \<longrightarrow> notice = []" "exits = [] \<or> exits = [ex]" "0 < waiting \<longrightarrow> exits = [ex]"
    "length (chunk_events mid) < cap \<longrightarrow> outs = chunk_events mid"
    "length (chunk_events mid) + 2 < cap \<longrightarrow> exits = [ex]"
proof -
  have s0: "s0 = \<lparr>events = [], session_closed = False, session_dropped = 0, encoded = [],
      encode_err = None, encode_calls = 0\<rparr>" and cap: "1 \<le> cap"
    using assms(1,2) by (auto simp: new_session_def Let_def split: if_splits)
  let ?s1 = "s0\<lparr>events := [start]\<rparr>"
  define s2 where "s2 = session_run cap enc mid ?s1"
  have r: "session_run cap enc (Start start # mid) s0 = s2"
    by (simp add: s2_def send_start_def s0)
  note e = relay_effect [OF assms(3) _ _ s2_def [symmetric]]
  have e1: "\<not> session_closed s2" "length (events s2) \<le> cap"
    by (rule e; use cap s0 in simp)+
  obtain notice exits where c: "accepted cap enc (close_ops ex now waiting) s2 = notice @ exits"
    "notice = (if session_dropped s2 = 0 \<or> cap \<le> length (events s2) then []
       else [output_event (ev_run_id ex) now stream_system (client_notice (session_dropped s2))])"
    "exits = [] \<or> exits = [ex]" "0 < waiting \<longrightarrow> exits = [ex]" "length (events s2) + 1 < cap \<longrightarrow> exits = [ex]"
    using close_accepts [OF e1 cap, of enc ex now waiting] by blast
  let ?ops = "mid @ close_ops ex now waiting"
  define u where "u = session_run cap enc (close_ops ex now waiting) s2"
  have t: "t = session_run cap enc (?ops @ replicate (length (events u)) Upload) ?s1"
    using assms(5) by (simp add: whole_session_def close_session_def Let_def r session_run_append s2_def u_def
        del: session_run.simps(2))
  have "uploads [start] ?s1" by (simp add: uploads_def s0)
  then have up: "uploads ([start] @ accepted cap enc (?ops @ replicate (length (events u)) Upload) ?s1) t"
    unfolding t by (rule uploads_run)
  have acc: "accepted cap enc (?ops @ replicate (length (events u)) Upload) ?s1
     = accepted cap enc mid ?s1 @ notice @ exits"
    by (simp add: accepted_append uploads_frame s2_def [symmetric] c(1))
  have closed: "session_closed t" "events t = []"
    using close_session_closed [OF e1(1), of cap enc ex now waiting] assms(5)
    unfolding whole_session_def r by simp_all
  have "encode_err t = None" unfolding t by (rule encode_err_none) (simp_all add: assms(4) s0)
  then have enc: "encoded t = start # accepted cap enc mid ?s1 @ notice @ exits"
    using up closed(2) unfolding acc uploads_def by auto
  have bytes: "event_bytes (accepted cap enc mid ?s1) + session_dropped s2 = event_bytes (chunk_events mid)"
    using e(4) cap s0 by simp
  have len: "length (events s2) \<le> length (chunk_events mid) + 1"
  proof -
    have "uploads ([start] @ accepted cap enc mid ?s1) s2"
      unfolding s2_def by (rule uploads_run) (simp add: uploads_def s0)
    then have "length (events s2) \<le> length ([start] @ accepted cap enc mid ?s1)"
      unfolding uploads_def by (blast intro: suffix_length_le)
    also have "\<dots> \<le> length (chunk_events mid) + 1"
      using e(3) cap s0 by (simp add: list_emb_length)
    finally show ?thesis .
  qed
  show thesis
  proof (rule that [OF enc closed(2,1) _ bytes])
    show "subseq (accepted cap enc mid ?s1) (chunk_events mid)" using e(3) cap s0 by simp
    show "length (chunk_events mid) < cap \<longrightarrow> accepted cap enc mid ?s1 = chunk_events mid"
      using e(5) cap s0 by simp
    show "length (chunk_events mid) + 2 < cap \<longrightarrow> exits = [ex]" using c(5) len by linarith
  qed (use c in \<open>simp_all split: if_splits\<close>)
qed

text \<open>The notice is lost when the channel is full at the moment of \<open>Close\<close>.\<close>

lemma close_notice_lost: "cap \<le> length (events s) \<Longrightarrow> close_notice cap run_id now s = s"
  by (simp add: close_notice_def)

lemma final_send_timeout_bounds:
  "250 * millisecond \<le> final_send_timeout t" "final_send_timeout t \<le> 5 * second"
  by (simp_all add: final_send_timeout_def Let_def)

section \<open>The queue it implements\<close>

definition session_queue :: "session \<Rightarrow> event lossy" where
  "session_queue s = \<lparr>lq_items = events s, lq_lost = session_dropped s, lq_shut = session_closed s\<rparr>"

lemma session_queue_simps:
  "lq_items (session_queue s) = events s" "lq_lost (session_queue s) = session_dropped s"
  "lq_shut (session_queue s) = session_closed s"
  by (simp_all add: session_queue_def)

text \<open>Only chunks count when they are refused: the notice and the exit event do not.\<close>

fun session_view :: "session_op \<Rightarrow> session \<Rightarrow> event lq_op list" where
  "session_view (Start e) s = [Offer e 0]"
| "session_view (Chunk e) s = [Offer e (length (ev_data e))]"
| "session_view Upload s = [Take]"
| "session_view (CloseNotice run_id now) s =
     (if session_dropped s = 0 then []
      else [Offer (output_event run_id now stream_system (client_notice (session_dropped s))) 0])"
| "session_view (CloseExit e) s = [Offer e 0, Shut]"

text \<open>A start event waits for room.\<close>

fun session_enabled :: "nat \<Rightarrow> session_op \<Rightarrow> session \<Rightarrow> bool" where
  "session_enabled cap (Start e) s = (session_closed s \<or> length (events s) < cap)"
| "session_enabled cap _ s = True"

interpretation session_lq: lossy_queue cap "session_step cap enc" "\<lambda>_. True" "session_enabled cap"
    session_queue session_view for cap enc
proof
  fix s op
  assume "session_enabled cap op s"
  then show "session_queue (session_step cap enc op s) = lq_run cap (session_view op s) (session_queue s)"
    by (cases op)
      (auto simp: session_queue_def send_start_def write_chunk_def upload_one_frame close_notice_def close_exit_def)
qed simp

lemma session_lq_runs: "session_lq.runs cap enc ops s = session_run cap enc ops s"
  by (induction ops arbitrary: s) simp_all

section \<open>Properties\<close>

text \<open>\<open>Write\<close> offers its data as output events of the run whose data, joined, is the data
  written, each nonempty and of at most 8192 bytes, and reports the full length even when the
  session drops them.\<close>

lemma write_offers_everything:
  "session_write cap run_id stream now p s
     = (session_run cap enc (map Chunk (write_events run_id stream now 0 p)) s, length p)
   \<and> concat (map ev_data (write_events run_id stream now 0 p)) = p
   \<and> list_all (\<lambda>e. ev_data e \<noteq> [] \<and> length (ev_data e) \<le> 8192 \<and> ev_stream e = stream
        \<and> ev_run_id e = run_id \<and> ev_type e = event_output \<and> ev_version e = protocol_version)
      (write_events run_id stream now 0 p)"
proof -
  have "list_all (\<lambda>e. ev_data e \<noteq> [] \<and> length (ev_data e) \<le> 8192 \<and> ev_stream e = stream
        \<and> ev_run_id e = run_id \<and> ev_type e = event_output \<and> ev_version e = protocol_version)
      (write_events run_id stream now 0 p)"
    unfolding list_all_iff
    by (auto dest!: write_events_shape simp: max_output_event_bytes_def)
  then show ?thesis by (simp add: session_write_def write_loop_run [of _ _ _ _ _ _ _ enc] write_events_data)
qed


definition sample_session_config :: session_config where
  "sample_session_config = \<lparr>endpoint = ''http://relay'', token = ''t'', events_capacity = 2, finish_timeout = 0\<rparr>"

lemma sample_session:
  "\<exists>cfg' s0. new_session sample_session_config = Inr (cfg', s0) \<and> events_capacity cfg' = 2"
proof -
  have "trim_space ''http://relay'' = ''http://relay''" "trim_space ''t'' = ''t''"
    by (rule trim_space_all_graphic; simp add: graphic_def)+
  then show ?thesis by (simp add: new_session_def sample_session_config_def Let_def)
qed


text \<open>C8: The session's channel is a lossy queue. Under every interleaving of the wrapper's operations
  and the uploader, its events, its count of dropped bytes and its closed flag are those of the
  abstract queue; what the uploader receives and what still waits is a selection of what was
  offered, in order, and the count is exactly the bytes of the chunks left out.\<close>

theorem session_refines_lossy_queue:
  assumes "session_lq.all_enabled cap enc ops s" "session_run cap enc ops s = s'"
    "ops' = session_lq.views cap enc ops s"
  shows "session_queue s' = lq_run cap ops' (session_queue s)
    \<and> (\<exists>acc received. events s @ map fst acc = received @ events s'
        \<and> subseq acc (lq_offered cap ops' (session_queue s))
        \<and> weight acc + session_dropped s' = session_dropped s + weight (lq_offered cap ops' (session_queue s)))
    \<and> (length (events s) \<le> cap \<longrightarrow> length (events s') \<le> cap)"
proof -
  note q = session_lq.runs_simulate [OF TrueI assms(1), unfolded session_lq_runs assms(2), folded assms(3)]
  note c = session_lq.runs_conserve [OF TrueI assms(1), unfolded session_lq_runs assms(2), folded assms(3)]
  show ?thesis
    by (intro conjI exI impI) (rule q c [unfolded session_queue_simps] | assumption)+
qed

lemma session_refines_lossy_queue_witness:
  "\<exists>s'. session_run 1 (\<lambda>_. None) [Start zero_event, Chunk (output_event [] 0 stream_stdout ''ab'')]
       \<lparr>events = [], session_closed = False, session_dropped = 0, encoded = [], encode_err = None, encode_calls = 0\<rparr> = s'
     \<and> session_dropped s' = 2 \<and> length (events s') \<le> 1"
proof -
  let ?ops = "[Start zero_event, Chunk (output_event [] 0 stream_stdout ''ab'')]"
  let ?s = "\<lparr>events = [], session_closed = False, session_dropped = 0, encoded = [], encode_err = None, encode_calls = 0\<rparr>"
  have e: "session_lq.all_enabled 1 (\<lambda>_. None) ?ops ?s" by (simp add: send_start_def write_chunk_def)
  have "length (events (session_run 1 (\<lambda>_. None) ?ops ?s)) \<le> 1"
    using session_refines_lossy_queue [OF e refl refl] by simp
  moreover have "session_dropped (session_run 1 (\<lambda>_. None) ?ops ?s) = 2" by (simp add: send_start_def write_chunk_def)
  ultimately show ?thesis by blast
qed

end
