(* ===== verification/Client_Main.thy ===== *)
theory Client_Main
  imports Client_Env Client_Session Daemon_Format Go_Duration "HOL-Library.AList"
begin

text \<open>
  The wrapper, \<open>cmd/wrapping-bot/main.go\<close>: options (with Go's \<open>flag\<close> package), the command
  that is executed, the environment fields that are relayed, and \<open>run\<close> up to its exit code.
  Parameters: the upper-case table of package \<open>unicode\<close>, the random run ID, and what the operating system reports of the
  child process.
\<close>

section \<open>Options\<close>

text \<open>\<open>stringList.Set\<close>\<close>

definition string_list_set :: "gostring \<Rightarrow> gostring list \<Rightarrow> gostring list" where
  "string_list_set value s = (let value = trim_space value in if value \<noteq> [] then s @ [value] else s)"

fun parse_csv_parts :: "gostring list \<Rightarrow> gostring list" where
  "parse_csv_parts [] = []"
| "parse_csv_parts (p # ps) =
     (let value = trim_space p in if value \<noteq> [] then value # parse_csv_parts ps else parse_csv_parts ps)"

definition parse_csv :: "gostring \<Rightarrow> gostring list" where
  "parse_csv raw = parse_csv_parts (split_on CHR '','' raw)"

definition client_env_or :: "environment \<Rightarrow> gostring \<Rightarrow> gostring \<Rightarrow> gostring" where
  "client_env_or env key fallback =
     (let value = trimmed_env env key in if value \<noteq> [] then value else fallback)"

definition client_env_int :: "environment \<Rightarrow> gostring \<Rightarrow> int \<Rightarrow> int" where
  "client_env_int env key fallback =
     (case parse_int64 (trimmed_env env key) of
        None \<Rightarrow> fallback
      | Some v \<Rightarrow> if v \<le> 0 then fallback else v)"

definition client_env_bool :: "environment \<Rightarrow> gostring \<Rightarrow> bool \<Rightarrow> bool" where
  "client_env_bool env key fallback =
     (case parse_bool (trimmed_env env key) of None \<Rightarrow> fallback | Some v \<Rightarrow> v)"

definition client_env_duration :: "environment \<Rightarrow> gostring \<Rightarrow> duration \<Rightarrow> duration" where
  "client_env_duration env key fallback =
     (case parse_duration (trimmed_env env key) of
        None \<Rightarrow> fallback
      | Some v \<Rightarrow> if v \<le> 0 then fallback else v)"

record options =
  o_client_env :: gostring
  o_endpoint :: gostring
  o_token :: gostring
  o_channel_id :: gostring
  o_name :: gostring
  o_shell :: bool
  o_env_keys :: "gostring list"
  o_env_prefixes :: "gostring list"
  o_allow_secrets :: bool
  o_queue_size :: int
  o_finish_timeout :: duration

definition default_options :: "environment \<Rightarrow> options" where
  "default_options env =
     (let keys0 = parse_csv (getenv env ''WRAPPING_BOT_ENV_KEYS'');
          pfxs0 = parse_csv (getenv env ''WRAPPING_BOT_ENV_PREFIXES'');
          unset = (length keys0 = 0 \<and> length pfxs0 = 0);
          keys = (if unset then [''RUN_ID'', ''TOPOLOGY'', ''PROTOCOL'', ''NODES'', ''SEED''] else keys0);
          pfxs = (if unset then [''EXP_'', ''PEERKIT_''] else pfxs0)
      in \<lparr>o_client_env = client_env_path_from_environment env,
          o_endpoint = client_env_or env ''WRAPPING_BOT_ENDPOINT'' ''http://127.0.0.1:8080'',
          o_token = trimmed_env env ''WRAPPING_BOT_TOKEN'',
          o_channel_id = trimmed_env env ''WRAPPING_BOT_CHANNEL_ID'',
          o_name = trimmed_env env ''WRAPPING_BOT_RUN_NAME'',
          o_shell = False,
          o_env_keys = keys,
          o_env_prefixes = pfxs,
          o_allow_secrets = client_env_bool env ''WRAPPING_BOT_ALLOW_SECRET_ENV'' False,
          o_queue_size = client_env_int env ''WRAPPING_BOT_CLIENT_QUEUE_SIZE'' 1024,
          o_finish_timeout =
            client_env_duration env ''WRAPPING_BOT_FINISH_TIMEOUT'' (15 * second)\<rparr>)"

text \<open>The flags of the flag set, and \<open>Value.Set\<close> of each.\<close>

datatype flag =
    FClientEnv | FEndpoint | FToken | FChannelId | FName | FShell | FEnv | FEnvPrefix
  | FAllowSecretEnv | FQueueSize | FFinishTimeout

definition flag_names :: "(gostring \<times> flag) list" where
  "flag_names =
     [(''client-env'', FClientEnv), (''endpoint'', FEndpoint), (''token'', FToken),
      (''channel-id'', FChannelId), (''name'', FName), (''shell'', FShell), (''env'', FEnv),
      (''env-prefix'', FEnvPrefix), (''allow-secret-env'', FAllowSecretEnv),
      (''queue-size'', FQueueSize), (''finish-timeout'', FFinishTimeout)]"

fun is_bool_flag :: "flag \<Rightarrow> bool" where
  "is_bool_flag FShell = True"
| "is_bool_flag FAllowSecretEnv = True"
| "is_bool_flag _ = False"

fun set_flag :: "flag \<Rightarrow> gostring \<Rightarrow> options \<Rightarrow> options option" where
  "set_flag FClientEnv v opts = Some (opts\<lparr>o_client_env := v\<rparr>)"
| "set_flag FEndpoint v opts = Some (opts\<lparr>o_endpoint := v\<rparr>)"
| "set_flag FToken v opts = Some (opts\<lparr>o_token := v\<rparr>)"
| "set_flag FChannelId v opts = Some (opts\<lparr>o_channel_id := v\<rparr>)"
| "set_flag FName v opts = Some (opts\<lparr>o_name := v\<rparr>)"
| "set_flag FShell v opts = map_option (\<lambda>b. opts\<lparr>o_shell := b\<rparr>) (parse_bool v)"
| "set_flag FEnv v opts = Some (opts\<lparr>o_env_keys := string_list_set v (o_env_keys opts)\<rparr>)"
| "set_flag FEnvPrefix v opts = Some (opts\<lparr>o_env_prefixes := string_list_set v (o_env_prefixes opts)\<rparr>)"
| "set_flag FAllowSecretEnv v opts = map_option (\<lambda>b. opts\<lparr>o_allow_secrets := b\<rparr>) (parse_bool v)"
| "set_flag FQueueSize v opts = map_option (\<lambda>n. opts\<lparr>o_queue_size := n\<rparr>) (parse_int_base0 v)"
| "set_flag FFinishTimeout v opts = map_option (\<lambda>d. opts\<lparr>o_finish_timeout := d\<rparr>) (parse_duration v)"

datatype flag_error =
    BadSyntax gostring
  | Help
  | Undefined gostring
  | BadValue gostring gostring
  | NeedsArgument gostring

text \<open>The name and the value of an argument \<open>name=value\<close>; an equals sign in first place does not count.\<close>

definition flag_value :: "gostring \<Rightarrow> gostring \<times> gostring option" where
  "flag_value name =
     (case name of
        [] \<Rightarrow> ([], None)
      | c # cs \<Rightarrow> (case cut_at CHR ''='' cs of None \<Rightarrow> (name, None) | Some (n, v) \<Rightarrow> (c # n, Some v)))"

text \<open>An argument that is not a flag (it stays), the terminator (it goes), or a flag text.\<close>

datatype flag_arg = Operand | Terminator | FlagText gostring

definition classify_arg :: "gostring \<Rightarrow> flag_arg" where
  "classify_arg s =
     (case s of
        a # b # rest \<Rightarrow>
          if a \<noteq> CHR ''-'' then Operand
          else if b \<noteq> CHR ''-'' then FlagText (b # rest)
          else if rest = [] then Terminator else FlagText rest
      | _ \<Rightarrow> Operand)"

function parse_flags :: "gostring list \<Rightarrow> options \<Rightarrow> flag_error + options \<times> gostring list" where
  "parse_flags args opts =
     (case args of
        [] \<Rightarrow> Inr (opts, [])
      | s # rest \<Rightarrow>
          (case classify_arg s of
             Operand \<Rightarrow> Inr (opts, args)
           | Terminator \<Rightarrow> Inr (opts, rest)
           | FlagText text \<Rightarrow>
               if text = [] \<or> hd text = CHR ''-'' \<or> hd text = CHR ''='' then Inl (BadSyntax s)
               else
                 (case flag_value text of
                    (name, val) \<Rightarrow>
                      (case map_of flag_names name of
                         None \<Rightarrow> Inl (if name = ''help'' \<or> name = ''h'' then Help else Undefined name)
                       | Some f \<Rightarrow>
                           if is_bool_flag f then
                             (let v = (case val of Some v \<Rightarrow> v | None \<Rightarrow> ''true'') in
                              case set_flag f v opts of
                                None \<Rightarrow> Inl (BadValue v name)
                              | Some opts' \<Rightarrow> parse_flags rest opts')
                           else
                             (case (val, rest) of
                                (Some v, _) \<Rightarrow>
                                  (case set_flag f v opts of
                                     None \<Rightarrow> Inl (BadValue v name)
                                   | Some opts' \<Rightarrow> parse_flags rest opts')
                              | (None, v # rest') \<Rightarrow>
                                  (case set_flag f v opts of
                                     None \<Rightarrow> Inl (BadValue v name)
                                   | Some opts' \<Rightarrow> parse_flags rest' opts')
                              | (None, []) \<Rightarrow> Inl (NeedsArgument name))))))"
  by pat_completeness auto
termination
  by (relation "measure (\<lambda>(args, opts). length args)") auto

declare parse_flags.simps [simp del]

datatype options_error =
    FlagError flag_error
  | CommandRequired
  | TokenRequired
  | ChannelRequired
  | QueueNotPositive

text \<open>The client's own copy of \<open>isDiscordChannelID\<close>.\<close>

definition client_isDiscordChannelID :: "gostring \<Rightarrow> bool" where
  "client_isDiscordChannelID value =
     (if value \<noteq> trim_space value \<or> length value < 17 \<or> 20 < length value then False
      else parse_uint64 value \<noteq> None)"

definition parse_options :: "environment \<Rightarrow> gostring list \<Rightarrow> options_error + options \<times> gostring list" where
  "parse_options env args =
     (case parse_flags args (default_options env) of
        Inl e \<Rightarrow> Inl (FlagError e)
      | Inr (opts, command_args) \<Rightarrow>
          if length command_args = 0 then Inl CommandRequired
          else if trim_space (o_token opts) = [] then Inl TokenRequired
          else if \<not> client_isDiscordChannelID (o_channel_id opts) then Inl ChannelRequired
          else if o_queue_size opts < 1 then Inl QueueNotPositive
          else Inr (opts, command_args))"

section \<open>The command\<close>

definition client_shell_quote :: "gostring \<Rightarrow> gostring" where
  "client_shell_quote value =
     (if value = [] then [SQUOTE, SQUOTE]
      else if list_all shell_safe value then value
      else [SQUOTE]
           @ replace_all [SQUOTE] [SQUOTE, DQUOTE, SQUOTE, DQUOTE, SQUOTE] value
           @ [SQUOTE])"

text \<open>The program to execute and its arguments; \<open>args\<close> is not empty where it is called.\<close>

definition build_command :: "gostring list \<Rightarrow> bool \<Rightarrow> gostring \<times> gostring list" where
  "build_command args shell =
     (if shell then
        (let command = (if 1 < length args then join_with '' '' (map client_shell_quote args) else hd args)
         in (''/bin/sh'', [''-lc'', command]))
      else (hd args, tl args))"

definition should_use_shell :: "gostring list \<Rightarrow> bool" where
  "should_use_shell args =
     (case args of
        [a] \<Rightarrow> list_ex (\<lambda>c. c \<in> set ('' '' @ [CHR 0x09] @ ''|&;<>()$'' @ [TICK] @ ''*?[]{}~''
                                  @ [SQUOTE, DQUOTE, BACKSLASH])) a
      | _ \<Rightarrow> False)"

section \<open>The relayed environment\<close>

text \<open>\<open>strings.FieldsFunc\<close> with an ASCII separator.\<close>

fun fields_by :: "(char \<Rightarrow> bool) \<Rightarrow> gostring \<Rightarrow> gostring \<Rightarrow> gostring list" where
  "fields_by sep w [] = (if w = [] then [] else [w])"
| "fields_by sep w (c # cs) =
     (if sep c then (if w = [] then fields_by sep [] cs else w # fields_by sep [] cs)
      else fields_by sep (w @ [c]) cs)"

definition sensitive_words :: "gostring list" where
  "sensitive_words =
     [''TOKEN'', ''SECRET'', ''PASSWORD'', ''PASSWD'', ''CREDENTIAL'', ''CREDENTIALS'', ''COOKIE'',
      ''AUTH'', ''AUTHORIZATION'', ''PRIVATEKEY'', ''PRIVATE'']"

definition looks_sensitive :: "(nat \<Rightarrow> nat) \<Rightarrow> gostring \<Rightarrow> bool" where
  "looks_sensitive upper_table key =
     (let upper = to_upper upper_table key;
          parts = fields_by (\<lambda>c. c = CHR ''_'' \<or> c = CHR ''-'' \<or> c = CHR ''.'') [] upper
      in list_ex (\<lambda>p. p \<in> set sensitive_words) parts
         \<or> has_suffix upper ''_KEY'' \<or> contains_str upper ''API_KEY'' \<or> contains_str upper ''PRIVATE_KEY'')"

text \<open>The loop of \<open>truncateUTF8\<close> is that of \<open>SplitUTF8\<close>: back to a rune start.\<close>

definition truncate_utf8 :: "gostring \<Rightarrow> nat \<Rightarrow> gostring" where
  "truncate_utf8 value max_bytes =
     (if length value \<le> max_bytes then value else take (back_to_start value max_bytes) value)"

definition ellipsis :: gostring where  \<comment> \<open>U+2026\<close>
  "ellipsis = [CHR 0xE2, CHR 0x80, CHR 0xA6]"

type_synonym go_map = "(gostring \<times> gostring) list"   \<comment> \<open>entries in iteration order, keys distinct\<close>

definition add_environment ::
    "(nat \<Rightarrow> nat) \<Rightarrow> bool \<Rightarrow> gostring \<Rightarrow> gostring \<Rightarrow> go_map \<Rightarrow> go_map" where
  "add_environment upper_table allow_secrets key value target =
     (if length key = 0 \<or> 128 < length key \<or> (\<not> allow_secrets \<and> looks_sensitive upper_table key) then target
      else
        (let value = (if 512 < length value then truncate_utf8 value 512 @ ellipsis else value)
         in AList.update key value target))"

fun select_keys :: "(nat \<Rightarrow> nat) \<Rightarrow> bool \<Rightarrow> go_map \<Rightarrow> gostring list \<Rightarrow> go_map \<Rightarrow> go_map" where
  "select_keys ut allow all [] selected = selected"
| "select_keys ut allow all (key # keys) selected =
     select_keys ut allow all keys
       (case map_of all key of
          None \<Rightarrow> selected
        | Some value \<Rightarrow> add_environment ut allow key value selected)"

text \<open>The loop over the map \<open>all\<close>; its second argument is what is left of the iteration.\<close>

fun select_prefixes :: "(nat \<Rightarrow> nat) \<Rightarrow> bool \<Rightarrow> go_map \<Rightarrow> gostring list \<Rightarrow> go_map \<Rightarrow> go_map" where
  "select_prefixes ut allow [] pfxs selected = selected"
| "select_prefixes ut allow ((key, value) # all) pfxs selected =
     select_prefixes ut allow all pfxs
       (if list_ex (\<lambda>p. p \<noteq> [] \<and> has_prefix key p) pfxs
        then add_environment ut allow key value selected else selected)"

definition collect_environment ::
    "(nat \<Rightarrow> nat) \<Rightarrow> go_map \<Rightarrow> gostring list \<Rightarrow> gostring list \<Rightarrow> bool \<Rightarrow> go_map" where
  "collect_environment ut all keys pfxs allow =
     (let selected = select_prefixes ut allow all pfxs (select_keys ut allow all keys [])
      in if length selected \<le> 128 then selected
         else map (\<lambda>k. (k, map_get selected k)) (take 128 (sort (map fst selected))))"

section \<open>The run\<close>

definition hex_encode :: "gostring \<Rightarrow> gostring" where
  "hex_encode bytes = concat (map (\<lambda>b. [hex_char (byte b div 16), hex_char (byte b mod 16)]) bytes)"

text \<open>What the operating system reports of the child: start and wait errors, or its exit status.\<close>

datatype child =
    StartFailed gostring
  | Finished
  | ExitStatus int
  | WaitFailed gostring

definition child_exit :: "child \<Rightarrow> int \<times> gostring" where
  "child_exit ch =
     (case ch of
        StartFailed e \<Rightarrow> (127, e)
      | Finished \<Rightarrow> (0, [])
      | ExitStatus code \<Rightarrow> (code, [])
      | WaitFailed e \<Rightarrow> (1, e))"

record world =
  w_args :: "gostring list"
  w_env :: environment
  w_file :: "gostring \<Rightarrow> env_file"
  w_random :: "gostring option"                \<comment> \<open>the sixteen bytes of \<open>rand.Read\<close>\<close>
  w_hostname :: gostring
  w_cwd :: gostring
  w_entries :: "environment \<Rightarrow> go_map"         \<comment> \<open>the map built from \<open>os.Environ\<close>, as it is ranged over\<close>
  w_started :: time
  w_finished :: time
  w_child :: child

definition start_event :: "(nat \<Rightarrow> nat) \<Rightarrow> world \<Rightarrow> environment \<Rightarrow> gostring \<Rightarrow> options \<Rightarrow> gostring list \<Rightarrow> event" where
  "start_event upper_table w env run_id opts command_args =
     zero_event\<lparr>ev_version := protocol_version, ev_type := Protocol.event_start, ev_run_id := run_id,
       ev_timestamp := w_started w, ev_channel_id := o_channel_id opts, ev_name := o_name opts,
       ev_command := command_args, ev_shell := (o_shell opts \<or> should_use_shell command_args),
       ev_hostname := w_hostname w, ev_working_directory := w_cwd w,
       ev_environment := collect_environment upper_table (w_entries w env) (o_env_keys opts)
         (o_env_prefixes opts) (o_allow_secrets opts)\<rparr>"

definition exit_event :: "world \<Rightarrow> gostring \<Rightarrow> event" where
  "exit_event w run_id =
     (case child_exit (w_child w) of
        (code, err) \<Rightarrow>
          zero_event\<lparr>ev_version := protocol_version, ev_type := event_exit, ev_run_id := run_id,
            ev_timestamp := w_finished w, ev_exit_code := Some code, ev_error := err\<rparr>)"

text \<open>
  \<open>run\<close>: it gives up with an exit code of its own, or starts a session, executes a command
  between the two events and returns the exit code of the child, whatever the relay answers.
\<close>

datatype run_outcome =
    GaveUp int
  | Ran session_config session event "gostring \<times> gostring list" event int

definition run_wrapper :: "(nat \<Rightarrow> nat) \<Rightarrow> world \<Rightarrow> run_outcome" where
  "run_wrapper upper_table w =
     (case resolve_client_env_path (w_env w) (w_args w) of
        Inl _ \<Rightarrow> GaveUp 2
      | Inr (path, explicit) \<Rightarrow>
          (case load_client_env (w_file w path) explicit (w_env w) of
             (env, Some _) \<Rightarrow> GaveUp 2
           | (env, None) \<Rightarrow>
               (case parse_options env (w_args w) of
                  Inl _ \<Rightarrow> GaveUp 2
                | Inr (opts, command_args) \<Rightarrow>
                    (case w_random w of
                       None \<Rightarrow> GaveUp 1
                     | Some bytes \<Rightarrow>
                         (let run_id = hex_encode bytes;
                              shell = (o_shell opts \<or> should_use_shell command_args)
                          in case new_session \<lparr>endpoint = o_endpoint opts, token = o_token opts,
                                events_capacity = o_queue_size opts, finish_timeout = o_finish_timeout opts\<rparr> of
                               Inl _ \<Rightarrow> GaveUp 2
                             | Inr (cfg, s0) \<Rightarrow>
                                 Ran cfg s0 (start_event upper_table w env run_id opts command_args)
                                   (build_command command_args shell) (exit_event w run_id)
                                   (fst (child_exit (w_child w))))))))"

text \<open>What \<open>run\<close> prints after the session is closed.\<close>

definition relay_warning :: "result \<Rightarrow> gostring option" where
  "relay_warning r =
     (case r_err r of
        Some e \<Rightarrow> Some (''wrapping-bot: relay error: '' @ e)
      | None \<Rightarrow>
          if 0 < rs_dropped_bytes (r_response r)
          then Some (''wrapping-bot: daemon omitted '' @ format_int (rs_dropped_bytes (r_response r)) @ '' log bytes'')
          else None)"

section \<open>What parsing guarantees\<close>

lemma parse_options_ok:
  assumes "parse_options env args = Inr (opts, command_args)"
  shows "command_args \<noteq> []" "trim_space (o_token opts) \<noteq> []"
    "client_isDiscordChannelID (o_channel_id opts)" "1 \<le> o_queue_size opts"
  using assms by (auto simp: parse_options_def split: sum.splits if_splits prod.splits)

lemma client_isDiscordChannelID_same: "client_isDiscordChannelID = isDiscordChannelID"
  by (rule ext) (simp add: client_isDiscordChannelID_def isDiscordChannelID_def)

lemma client_shell_quote_same: "client_shell_quote = shell_quote"
  by (rule ext) (simp add: client_shell_quote_def shell_quote_def)

text \<open>After \<open>--\<close> the command is taken as it is.\<close>

lemma parse_flags_terminator: "parse_flags (''--'' # args) opts = Inr (opts, args)"
  by (subst parse_flags.simps) (simp add: classify_arg_def)

section \<open>What is relayed of the environment\<close>

definition field_allowed :: "(nat \<Rightarrow> nat) \<Rightarrow> bool \<Rightarrow> gostring \<Rightarrow> bool" where
  "field_allowed ut allow key \<longleftrightarrow>
     key \<noteq> [] \<and> length key \<le> 128 \<and> (allow \<or> \<not> looks_sensitive ut key)"

definition field_value :: "gostring \<Rightarrow> gostring" where
  "field_value v = (if 512 < length v then truncate_utf8 v 512 @ ellipsis else v)"

definition prefix_wanted :: "gostring list \<Rightarrow> gostring \<Rightarrow> bool" where
  "prefix_wanted pfxs key \<longleftrightarrow> list_ex (\<lambda>p. p \<noteq> [] \<and> has_prefix key p) pfxs"

lemma add_environment_eq:
  "add_environment ut allow key v target =
     (if field_allowed ut allow key then AList.update key (field_value v) target else target)"
  by (auto simp: add_environment_def field_allowed_def field_value_def not_less)

lemma select_keys_map:
  "map_of (select_keys ut allow all keys selected) k =
     (if k \<in> set keys \<and> field_allowed ut allow k \<and> map_of all k \<noteq> None
      then map_option field_value (map_of all k) else map_of selected k)"
  by (induction keys arbitrary: selected)
    (auto simp: add_environment_eq update_conv' split: option.split)

lemma select_keys_distinct:
  "distinct (map fst selected) \<Longrightarrow> distinct (map fst (select_keys ut allow all keys selected))"
  by (induction keys arbitrary: selected) (auto simp: add_environment_eq distinct_update split: option.split)

lemma select_prefixes_map:
  "distinct (map fst all) \<Longrightarrow>
   map_of (select_prefixes ut allow all pfxs selected) k =
     (if prefix_wanted pfxs k \<and> field_allowed ut allow k \<and> map_of all k \<noteq> None
      then map_option field_value (map_of all k) else map_of selected k)"
proof (induction all arbitrary: selected)
  case (Cons kv all)
  obtain key v where kv: "kv = (key, v)" by (cases kv)
  have "map_of all key = None" using Cons.prems by (simp add: kv map_of_eq_None_iff)
  then show ?case
    using Cons by (auto simp: kv add_environment_eq update_conv' prefix_wanted_def)
qed simp

lemma select_prefixes_distinct:
  "distinct (map fst selected) \<Longrightarrow> distinct (map fst (select_prefixes ut allow all pfxs selected))"
  by (induction ut allow all pfxs selected rule: select_prefixes.induct)
    (auto simp: add_environment_eq distinct_update)

definition selected_fields :: "(nat \<Rightarrow> nat) \<Rightarrow> go_map \<Rightarrow> gostring list \<Rightarrow> gostring list \<Rightarrow> bool \<Rightarrow> go_map" where
  "selected_fields ut all keys pfxs allow =
     select_prefixes ut allow all pfxs (select_keys ut allow all keys [])"

lemma selected_fields_map:
  assumes "distinct (map fst all)"
  shows "map_of (selected_fields ut all keys pfxs allow) k =
     (if (k \<in> set keys \<or> prefix_wanted pfxs k) \<and> field_allowed ut allow k
      then map_option field_value (map_of all k) else None)"
  by (auto simp: selected_fields_def select_prefixes_map [OF assms] select_keys_map)

lemma selected_fields_distinct: "distinct (map fst (selected_fields ut all keys pfxs allow))"
  by (simp add: selected_fields_def select_prefixes_distinct select_keys_distinct)

lemma collect_environment_map:
  "map_of (collect_environment ut all keys pfxs allow) k =
     (let s = selected_fields ut all keys pfxs allow in
      if length s \<le> 128 \<or> k \<in> set (take 128 (sort (map fst s))) then map_of s k else None)"
proof -
  let ?s = "selected_fields ut all keys pfxs allow"
  have "map_of ?s k = Some (map_get ?s k)" if "k \<in> set (take 128 (sort (map fst ?s)))"
  proof -
    have "k \<in> set (map fst ?s)" using that by (metis in_set_takeD set_sort)
    then have "map_of ?s k \<noteq> None" by (simp add: map_of_eq_None_iff image_iff)
    then show ?thesis by (auto simp: map_get_def)
  qed
  then show ?thesis
    by (simp add: collect_environment_def selected_fields_def [symmetric] Let_def map_of_map_restrict
        restrict_map_def)
qed

lemma length_collect_environment: "length (collect_environment ut all keys pfxs allow) \<le> 128"
  by (simp add: collect_environment_def Let_def)

lemma collect_environment_distinct: "distinct (map fst (collect_environment ut all keys pfxs allow))"
  using selected_fields_distinct [of ut all keys pfxs allow]
  by (simp add: collect_environment_def selected_fields_def [symmetric] Let_def comp_def)

lemma length_field_value: "length (field_value v) \<le> 515"
proof (cases "512 < length v")
  case True
  then have "length (truncate_utf8 v 512) \<le> 512"
    using back_to_start_le [of v 512] by (simp add: truncate_utf8_def)
  with True show ?thesis by (simp add: field_value_def ellipsis_def)
qed (simp add: field_value_def)

section \<open>The events of a run\<close>

lemma hex_encode_length: "length (hex_encode bytes) = 2 * length bytes"
  by (induction bytes) (simp_all add: hex_encode_def)

lemma graphic_hex_char: "d < 16 \<Longrightarrow> graphic (hex_char d)"
  by (auto simp: graphic_def hex_char_def)

lemma hex_encode_graphic: "c \<in> set (hex_encode bytes) \<Longrightarrow> graphic c"
proof (induction bytes)
  case (Cons b bytes)
  have "byte b div 16 < 16" "byte b mod 16 < 16" using nat_of_char_less_256 [of b] by (auto simp del: nat_of_char_less_256)
  then show ?case using Cons graphic_hex_char by (auto simp: hex_encode_def)
qed (simp add: hex_encode_def)

lemma run_wrapper_Ran:
  assumes "run_wrapper upper_table w = Ran cfg s0 start command ex code"
  obtains path explicit env opts command_args bytes where
    "load_client_env (w_file w path) explicit (w_env w) = (env, None)"
    "parse_options env (w_args w) = Inr (opts, command_args)" "w_random w = Some bytes"
    "new_session \<lparr>endpoint = o_endpoint opts, token = o_token opts, events_capacity = o_queue_size opts,
       finish_timeout = o_finish_timeout opts\<rparr> = Inr (cfg, s0)"
    "start = start_event upper_table w env (hex_encode bytes) opts command_args"
    "command = build_command command_args (o_shell opts \<or> should_use_shell command_args)"
    "ex = exit_event w (hex_encode bytes)" "code = fst (child_exit (w_child w))"
  using assms
  by (auto simp: run_wrapper_def Let_def split: sum.splits prod.splits option.splits)

lemma start_event_valid:
  assumes "parse_options env (w_args w) = Inr (opts, command_args)" "length bytes = 16"
  shows "validate_start (start_event upper_table w env (hex_encode bytes) opts command_args) = None"
proof -
  note p = parse_options_ok [OF assms(1)]
  have id: "length (hex_encode bytes) = 32" using assms(2) by (simp add: hex_encode_length)
  then have "hex_encode bytes \<noteq> []" by auto
  moreover have "trim_space (hex_encode bytes) = hex_encode bytes"
    using hex_encode_graphic by (intro trim_space_all_graphic) blast
  moreover have "\<not> 128 < length (collect_environment ut all keys pfxs allow)" for ut all keys pfxs allow
    using length_collect_environment [of ut all keys pfxs allow] by simp
  ultimately show ?thesis
    using p id by (simp add: validate_start_def start_event_def client_isDiscordChannelID_same)
qed

section \<open>Properties\<close>



text \<open>C18: Only selected environment fields leave the machine: each is named by a key or a prefix of
  the options, does not look like a secret unless that is permitted, has a key of at most 128
  and a value of at most 515 bytes; and there are at most 128 of them, the daemon's limit.\<close>

theorem relayed_environment_filtered:
  assumes "distinct (map fst all)" "map_of (collect_environment ut all keys pfxs allow) k = Some v"
  shows "(k \<in> set keys \<or> prefix_wanted pfxs k) \<and> (allow \<or> \<not> looks_sensitive ut k)
    \<and> k \<noteq> [] \<and> length k \<le> 128 \<and> length v \<le> 515
    \<and> (\<exists>value. map_of all k = Some value \<and> v = field_value value)
    \<and> length (collect_environment ut all keys pfxs allow) \<le> 128"
proof -
  have "map_of (selected_fields ut all keys pfxs allow) k = Some v"
    using assms(2) by (simp add: collect_environment_map Let_def split: if_splits)
  then have s: "k \<in> set keys \<or> prefix_wanted pfxs k" "field_allowed ut allow k"
    "\<exists>value. map_of all k = Some value \<and> v = field_value value"
    by (auto simp: selected_fields_map [OF assms(1)] split: if_splits)
  then show ?thesis
    using length_field_value length_collect_environment by (auto simp: field_allowed_def)
qed

lemma relayed_environment_filtered_witness:
  "map_of (collect_environment (\<lambda>r. r) [(''SEED'', ''7''), (''HOME'', ''/'')] [''SEED''] [] True) ''SEED'' = Some ''7''
   \<and> length (collect_environment (\<lambda>r. r) [(''SEED'', ''7''), (''HOME'', ''/'')] [''SEED''] [] True) \<le> 128"
proof -
  have d: "distinct (map fst [(''SEED'', ''7''), (''HOME'', ''/'')])" by simp
  have "collect_environment (\<lambda>r. r) [(''SEED'', ''7''), (''HOME'', ''/'')] [''SEED''] [] True = [(''SEED'', ''7'')]"
    by (simp add: collect_environment_def add_environment_def)
  then have "map_of (collect_environment (\<lambda>r. r) [(''SEED'', ''7''), (''HOME'', ''/'')] [''SEED''] [] True) ''SEED'' = Some ''7''"
    by simp
  with relayed_environment_filtered [OF d this] show ?thesis by simp
qed

text \<open>The relayed fields do not depend on the order in which Go ranges over the environment.\<close>

lemma relayed_environment_deterministic:
  assumes "set all = set all'" "distinct (map fst all)" "distinct (map fst all')"
  shows "map_of (collect_environment ut all keys pfxs allow) = map_of (collect_environment ut all' keys pfxs allow)"
proof -
  let ?s = "selected_fields ut all keys pfxs allow" and ?s' = "selected_fields ut all' keys pfxs allow"
  have "map_of all = map_of all'" using assms by (simp add: map_of_inject_set)
  then have same: "map_of ?s = map_of ?s'"
    by (intro ext) (simp add: selected_fields_map assms(2,3))
  then have "set (map fst ?s) = set (map fst ?s')" by (metis dom_map_of_conv_image_fst set_map)
  then have "sort (map fst ?s) = sort (map fst ?s')"
    using selected_fields_distinct [of ut "all" keys pfxs allow] selected_fields_distinct [of ut all' keys pfxs allow]
    by (intro sorted_distinct_set_unique) simp_all
  moreover from this have "length ?s = length ?s'" by (metis length_map length_sort)
  ultimately show ?thesis by (intro ext) (simp add: collect_environment_map same Let_def)
qed

lemma relayed_environment_deterministic_witness:
  "map_of (collect_environment (\<lambda>r. r) [(''A'', ''1''), (''B'', ''2'')] [] [''A''] True)
     = map_of (collect_environment (\<lambda>r. r) [(''B'', ''2''), (''A'', ''1'')] [] [''A''] True)"
  by (rule relayed_environment_deterministic) (auto simp: insert_commute)

end
