(* ===== verification/Ws_Dial.thy ===== *)
theory Ws_Dial
  imports Ws_Conn
begin

text \<open>
  Opening a connection in \<open>internal/wsclient/wsclient.go\<close>: where to dial, the request for the
  upgrade, the checks of the reply, and the deadline of the exchange, which is lifted at its end.
  Parsing a URL, the network, the digest of the key and simple case folding are parameters.
\<close>

record ws_url =
  u_scheme :: gostring
  u_host :: gostring
  u_hostname :: gostring
  u_port :: gostring
  u_request_uri :: gostring

record upgrade_reply =
  ur_status :: int
  ur_status_line :: gostring
  ur_connection :: "gostring list"
  ur_upgrade :: "gostring list"
  ur_accept :: gostring

definition web_socket_guid :: gostring where
  "web_socket_guid = ''258EAFA5-E914-47DA-95CA-C5AB0DC85B11''"

definition join_host_port :: "gostring \<Rightarrow> gostring \<Rightarrow> gostring" where
  "join_host_port host port =
     (if CHR '':'' \<in> set host then ''['' @ host @ '']:'' @ port else host @ '':'' @ port)"

text \<open>Whether to use TLS, and the address to dial.\<close>

definition dial_target :: "(gostring \<Rightarrow> gostring) \<Rightarrow> ws_url \<Rightarrow> gostring + bool \<times> gostring" where
  "dial_target quote u =
     (if u_scheme u \<noteq> ''ws'' \<and> u_scheme u \<noteq> ''wss''
      then Inl (''unsupported WebSocket scheme '' @ quote (u_scheme u))
      else if u_host u = [] then Inl ''WebSocket URL has no host''
      else
        (let port = (if u_port u = [] then (if u_scheme u = ''wss'' then ''443'' else ''80'') else u_port u)
         in Inr (u_scheme u = ''wss'', join_host_port (u_hostname u) port)))"

definition equal_fold :: "(nat \<Rightarrow> nat) \<Rightarrow> gostring \<Rightarrow> gostring \<Rightarrow> bool" where
  "equal_fold orbit a b = (map orbit (runes a) = map orbit (runes b))"

definition header_contains_token :: "(nat \<Rightarrow> nat) \<Rightarrow> gostring list \<Rightarrow> gostring \<Rightarrow> bool" where
  "header_contains_token orbit values token =
     list_ex (\<lambda>value. list_ex (\<lambda>part. equal_fold orbit (trim_space part) token) (split_on CHR '','' value)) values"

definition check_upgrade ::
    "(nat \<Rightarrow> nat) \<Rightarrow> (gostring \<Rightarrow> gostring) \<Rightarrow> gostring \<Rightarrow> upgrade_reply \<Rightarrow> gostring option" where
  "check_upgrade orbit digest key r =
     (if ur_status r \<noteq> 101 then Some (''WebSocket upgrade returned '' @ ur_status_line r)
      else if \<not> header_contains_token orbit (ur_connection r) ''upgrade''
              \<or> \<not> header_contains_token orbit (ur_upgrade r) ''websocket''
      then Some ''invalid WebSocket upgrade headers''
      else if ur_accept r \<noteq> digest (key @ web_socket_guid)
      then Some ''invalid Sec-WebSocket-Accept header''
      else None)"

definition handshake_headers :: "gostring \<Rightarrow> (gostring \<times> gostring) list" where
  "handshake_headers key =
     [(''Upgrade'', ''websocket''), (''Connection'', ''Upgrade''), (''Sec-WebSocket-Key'', key),
      (''Sec-WebSocket-Version'', ''13''), (''User-Agent'', ''wrapping-bot/1'')]"

record upgrade_request =
  up_method :: gostring
  up_uri :: gostring
  up_host :: gostring
  up_headers :: "(gostring \<times> gostring) list"

definition handshake_request :: "gostring \<Rightarrow> ws_url \<Rightarrow> upgrade_request" where
  "handshake_request key u =
     \<lparr>up_method = ''GET'', up_uri = (if u_request_uri u = [] then ''/'' else u_request_uri u), up_host = u_host u,
      up_headers = handshake_headers key\<rparr>"

text \<open>
  What the outside contributes to a dial, in the order in which it is asked for. The times are
  those at which the write and the reply would be complete; past the deadline they time out.
\<close>

record ws_dial =
  wd_url :: "gostring + ws_url"
  wd_connect :: "bool \<Rightarrow> gostring \<Rightarrow> gostring + ws_conn"
  wd_key :: "gostring + gostring"                  \<comment> \<open>base64 of 16 random bytes\<close>
  wd_context :: "time option"                      \<comment> \<open>the deadline of the context\<close>
  wd_request :: "upgrade_request \<Rightarrow> gostring option"
  wd_sent :: time
  wd_reply :: "gostring + upgrade_reply"
  wd_replied :: time
  wd_timeout :: gostring                           \<comment> \<open>the error of a deadline that has passed\<close>

definition set_deadline :: "time option \<Rightarrow> ws_conn \<Rightarrow> ws_conn" where
  "set_deadline t c = set_write_deadline t (set_read_deadline t c)"

definition handshake ::
    "(nat \<Rightarrow> nat) \<Rightarrow> (gostring \<Rightarrow> gostring) \<Rightarrow> ws_dial \<Rightarrow> ws_url \<Rightarrow> ws_conn \<Rightarrow> gostring + ws_conn" where
  "handshake orbit digest d u c0 =
     (case wd_key d of
        Inl e \<Rightarrow> Inl e
      | Inr key \<Rightarrow>
          (let deadline = (case wd_context d of Some t \<Rightarrow> t | None \<Rightarrow> net_clock c0 + 15 * second);
               c = set_deadline (Some deadline) c0
           in case (if passed (write_deadline c) (wd_sent d) then Some (wd_timeout d)
                    else wd_request d (handshake_request key u)) of
                Some e \<Rightarrow> Inl e
              | None \<Rightarrow>
                  (case (if passed (read_deadline c) (wd_replied d) then Inl (wd_timeout d) else wd_reply d) of
                     Inl e \<Rightarrow> Inl e
                   | Inr r \<Rightarrow>
                       (case check_upgrade orbit digest key r of
                          Some e \<Rightarrow> Inl e
                        | None \<Rightarrow> Inr (set_deadline None (c\<lparr>net_clock := wd_replied d\<rparr>))))))"

definition dial_context ::
    "(gostring \<Rightarrow> gostring) \<Rightarrow> (nat \<Rightarrow> nat) \<Rightarrow> (gostring \<Rightarrow> gostring) \<Rightarrow> ws_dial \<Rightarrow> gostring + ws_conn" where
  "dial_context quote orbit digest d =
     (case wd_url d of
        Inl e \<Rightarrow> Inl e
      | Inr u \<Rightarrow>
          (case dial_target quote u of
             Inl e \<Rightarrow> Inl e
           | Inr (tls, address) \<Rightarrow>
               (case wd_connect d tls address of
                  Inl e \<Rightarrow> Inl e
                | Inr c \<Rightarrow> handshake orbit digest d u c)))"

text \<open>
  A connection is used only after the server has answered the key that was sent, it has no
  deadline left over, and without a deadline of the context it was opened within 15 seconds.
\<close>

lemma handshake_opens:
  assumes "handshake orbit digest d u c0 = Inr c"
  obtains key r where "wd_key d = Inr key" "wd_reply d = Inr r" "ur_status r = 101"
    "ur_accept r = digest (key @ web_socket_guid)" "read_deadline c = None" "write_deadline c = None"
    "wd_context d = None \<Longrightarrow> net_clock c < net_clock c0 + 15 * second"
  using assms
  by (auto simp: handshake_def check_upgrade_def Let_def set_deadline_def set_read_deadline_def set_write_deadline_def
      passed_def split: sum.splits prod.splits option.splits if_splits)

lemma dial_context_proves_key:
  assumes "dial_context quote orbit digest d = Inr c"
  obtains key r where "wd_key d = Inr key" "wd_reply d = Inr r" "ur_status r = 101"
    "ur_accept r = digest (key @ web_socket_guid)" "read_deadline c = None" "write_deadline c = None"
proof -
  from assms obtain u c0 where "handshake orbit digest d u c0 = Inr c"
    by (auto simp: dial_context_def split: sum.splits prod.splits)
  from handshake_opens [OF this] that show thesis by metis
qed

end
