(* ===== verification/Ws_Upgrade.thy ===== *)
theory Ws_Upgrade
  imports Ws_Dial Go_Strconv
begin

text \<open>
  The server side of the WebSocket handshake (\<open>UpgradeForTest\<close> in
  \<open>internal/wsclient/wsclient.go\<close>) as the bytes it writes, and what \<open>http.ReadResponse\<close> makes
  of them for the client: the status line, then field lines up to an empty one. The digest of
  the key (SHA-1 in base64) is a parameter.
\<close>

section \<open>The server\<close>

abbreviation CRLF :: gostring where "CRLF \<equiv> [CR, NL]"

definition upgrade_text :: "gostring \<Rightarrow> gostring" where
  "upgrade_text accept =
     ''HTTP/1.1 101 Switching Protocols'' @ CRLF @ ''Upgrade: websocket'' @ CRLF @ ''Connection: Upgrade'' @ CRLF
       @ ''Sec-WebSocket-Accept: '' @ accept @ CRLF @ CRLF"

text \<open>Whether the connection can be taken over, the error of doing so, the error of writing.\<close>

record hijack =
  hj_supported :: bool
  hj_error :: "gostring option"
  hj_write :: "gostring option"

text \<open>\<open>Header.Get\<close>: the first value of a field, empty if there is none.\<close>

definition header_get :: "gostring \<Rightarrow> (gostring \<times> gostring) list \<Rightarrow> gostring" where
  "header_get k hs = (case map_of hs k of None \<Rightarrow> [] | Some v \<Rightarrow> v)"

text \<open>An error, or the text that was written to the connection.\<close>

definition upgrade_for_test ::
    "(gostring \<Rightarrow> gostring) \<Rightarrow> (gostring \<times> gostring) list \<Rightarrow> hijack \<Rightarrow> gostring + gostring" where
  "upgrade_for_test digest headers hj =
     (let key = header_get ''Sec-WebSocket-Key'' headers in
      if key = [] then Inl ''missing Sec-WebSocket-Key''
      else if \<not> hj_supported hj then Inl ''HTTP server does not support hijacking''
      else
        (case hj_error hj of
           Some e \<Rightarrow> Inl e
         | None \<Rightarrow>
             (case hj_write hj of
                Some e \<Rightarrow> Inl e
              | None \<Rightarrow> Inr (upgrade_text (digest (key @ web_socket_guid))))))"

definition header_value_length :: "int \<Rightarrow> gostring" where
  "header_value_length n = format_int n"

section \<open>Reading the reply\<close>

text \<open>\<open>textproto\<close>: lines without their line ends, trimmed values, canonical keys.\<close>

definition reply_lines :: "gostring \<Rightarrow> gostring list" where
  "reply_lines s = map (\<lambda>l. trim_suffix l [CR]) (split_on NL s)"

definition blank :: "char \<Rightarrow> bool" where
  "blank c \<longleftrightarrow> c = CHR '' '' \<or> c = CHR 0x09"

definition trim_blanks :: "gostring \<Rightarrow> gostring" where
  "trim_blanks s = rev (dropWhile blank (rev (dropWhile blank s)))"

fun canonical_from :: "bool \<Rightarrow> gostring \<Rightarrow> gostring" where
  "canonical_from up [] = []"
| "canonical_from up (c # cs) = (if up then upper_char c else lower_char c) # canonical_from (c = CHR ''-'') cs"

fun read_fields :: "gostring list \<Rightarrow> (gostring \<times> gostring) list option" where
  "read_fields [] = None"
| "read_fields (l # ls) =
     (if l = [] then Some []
      else
        (case cut_at CHR '':'' l of
           None \<Rightarrow> None
         | Some (k, v) \<Rightarrow>
             if k = [] then None
             else map_option (Cons (canonical_from True k, trim_blanks v)) (read_fields ls)))"

definition field_values :: "gostring \<Rightarrow> (gostring \<times> gostring) list \<Rightarrow> gostring list" where
  "field_values k fs = map snd (filter (\<lambda>f. fst f = k) fs)"

text \<open>\<open>http.ReadResponse\<close>: protocol, a status of three digits, the fields.\<close>

definition read_upgrade :: "gostring \<Rightarrow> upgrade_reply option" where
  "read_upgrade s =
     (case reply_lines s of
        [] \<Rightarrow> None
      | l # ls \<Rightarrow>
          (case cut_at CHR '' '' l of
             None \<Rightarrow> None
           | Some (proto, status) \<Rightarrow>
               (let code = (case cut_at CHR '' '' status of None \<Rightarrow> status | Some (c, _) \<Rightarrow> c) in
                if length code \<noteq> 3 \<or> \<not> list_all is_digit code \<or> proto \<notin> set [''HTTP/1.0'', ''HTTP/1.1''] then None
                else
                  (case read_fields ls of
                     None \<Rightarrow> None
                   | Some fs \<Rightarrow>
                       Some \<lparr>ur_status = int (digits_val code), ur_status_line = status,
                             ur_connection = field_values ''Connection'' fs, ur_upgrade = field_values ''Upgrade'' fs,
                             ur_accept = header_get ''Sec-Websocket-Accept'' fs\<rparr>))))"

lemma split_on_append:
  "c \<notin> set a \<Longrightarrow> split_on c (a @ c # b) = a # split_on c b"
  by (induction a) auto

lemma trim_blanks_graphic: "s \<noteq> [] \<Longrightarrow> \<forall>c \<in> set s. graphic c \<Longrightarrow> trim_blanks (CHR '' '' # s) = s"
proof -
  assume s: "s \<noteq> []" "\<forall>c \<in> set s. graphic c"
  have nb: "\<not> blank c" if "graphic c" for c using that by (auto simp: blank_def graphic_def)
  have "dropWhile blank (CHR '' '' # s) = s" using s nb by (cases s) (auto simp: blank_def)
  moreover have "dropWhile blank (rev s) = rev s"
  proof -
    obtain c cs where r: "rev s = c # cs" using s(1) by (cases "rev s") auto
    then have "c \<in> set s" by (metis list.set_intros(1) set_rev)
    then show ?thesis using s(2) nb r by simp
  qed
  ultimately show ?thesis by (simp add: trim_blanks_def)
qed

lemma read_upgrade_text:
  assumes "accept \<noteq> []" "\<forall>c \<in> set accept. graphic c"
  shows "read_upgrade (upgrade_text accept) =
     Some \<lparr>ur_status = 101, ur_status_line = ''101 Switching Protocols'', ur_connection = [''Upgrade''],
           ur_upgrade = [''websocket''], ur_accept = accept\<rparr>"
proof -
  have nl: "NL \<notin> set (''Sec-WebSocket-Accept: '' @ accept @ [CR])" using assms(2) by (auto simp: graphic_def)
  have "upgrade_text accept =
     (''HTTP/1.1 101 Switching Protocols'' @ [CR]) @ NL # (''Upgrade: websocket'' @ [CR]) @ NL # (''Connection: Upgrade'' @ [CR]) @ NL #
       (''Sec-WebSocket-Accept: '' @ accept @ [CR]) @ NL # [CR] @ NL # []"
    by (simp add: upgrade_text_def)
  then have "split_on NL (upgrade_text accept) =
     [''HTTP/1.1 101 Switching Protocols'' @ [CR], ''Upgrade: websocket'' @ [CR], ''Connection: Upgrade'' @ [CR],
      ''Sec-WebSocket-Accept: '' @ accept @ [CR], [CR], []]"
    using split_on_append [OF nl] by (simp only: split_on_append) simp
  then have "reply_lines (upgrade_text accept) =
     [''HTTP/1.1 101 Switching Protocols'', ''Upgrade: websocket'', ''Connection: Upgrade'',
      ''Sec-WebSocket-Accept: '' @ accept, [], []]"
    using trim_suffix_append [of "''Sec-WebSocket-Accept: '' @ accept" "[CR]"]
    by (simp add: reply_lines_def trim_suffix_def)
  moreover have "canonical_from True ''Sec-WebSocket-Accept'' = ''Sec-Websocket-Accept''"
    "canonical_from True ''Upgrade'' = ''Upgrade''" "canonical_from True ''Connection'' = ''Connection''"
    "digits_val ''101'' = 101" "list_all is_digit ''101''"
    by code_simp+
  moreover have "trim_blanks (CHR '' '' # accept) = accept" "trim_blanks '' websocket'' = ''websocket''"
    "trim_blanks '' Upgrade'' = ''Upgrade''"
    using trim_blanks_graphic [OF assms] by (simp, code_simp+)
  ultimately show ?thesis
    by (simp add: read_upgrade_def field_values_def header_get_def del: canonical_from.simps)
qed

text \<open>Simple case folding identifies the two cases of an ASCII letter.\<close>

definition folds_ascii :: "(nat \<Rightarrow> nat) \<Rightarrow> bool" where
  "folds_ascii orbit \<longleftrightarrow> (\<forall>r. 0x41 \<le> r \<and> r \<le> 0x5A \<longrightarrow> orbit (r + 0x20) = orbit r)"

lemma tokens_match:
  assumes "folds_ascii orbit"
  shows "header_contains_token orbit [''Upgrade''] ''upgrade''" "header_contains_token orbit [''websocket''] ''websocket''"
proof -
  have "orbit 0x75 = orbit 0x55" using assms [unfolded folds_ascii_def, rule_format, of "0x55"] by simp
  moreover have "runes ''Upgrade'' = [0x55, 0x70, 0x67, 0x72, 0x61, 0x64, 0x65]"
    "runes ''upgrade'' = [0x75, 0x70, 0x67, 0x72, 0x61, 0x64, 0x65]" by code_simp+
  moreover have "trim_space ''Upgrade'' = ''Upgrade''" "trim_space ''websocket'' = ''websocket''"
    by (rule trim_space_all_graphic; simp add: graphic_def)+
  ultimately show "header_contains_token orbit [''Upgrade''] ''upgrade''" "header_contains_token orbit [''websocket''] ''websocket''"
    by (simp_all add: header_contains_token_def equal_fold_def)
qed

section \<open>Properties\<close>

text \<open>C28: Client and server agree on the handshake: the server takes the key from the request that the
  client makes, and the client accepts the text that the server writes, when it arrives in
  time, the digest is printable text and case folding identifies the cases of ASCII letters.
  The connection that the client then uses has no deadline left.\<close>

theorem handshake_accepted:
  assumes "wd_key d = Inr key" "key \<noteq> []" "wd_request d (handshake_request key u) = None"
    "upgrade_for_test digest (up_headers (handshake_request key u)) \<lparr>hj_supported = True, hj_error = None, hj_write = None\<rparr>
       = Inr text"
    "wd_reply d = (case read_upgrade text of None \<Rightarrow> Inl ''malformed HTTP response'' | Some r \<Rightarrow> Inr r)"
    "folds_ascii orbit" "\<And>x. digest x \<noteq> [] \<and> (\<forall>c \<in> set (digest x). graphic c)"
    "wd_context d = None" "max (wd_sent d) (wd_replied d) < net_clock c0 + 15 * second"
  shows "\<exists>c. handshake orbit digest d u c0 = Inr c \<and> net_clock c = wd_replied d
    \<and> read_deadline c = None \<and> write_deadline c = None"
proof -
  let ?accept = "digest (key @ web_socket_guid)"
  have "text = upgrade_text ?accept"
    using assms(2,4) by (simp add: upgrade_for_test_def header_get_def handshake_request_def handshake_headers_def)
  moreover have "?accept \<noteq> []" "\<forall>c \<in> set ?accept. graphic c" using assms(7) by blast+
  ultimately have "wd_reply d = Inr \<lparr>ur_status = 101, ur_status_line = ''101 Switching Protocols'',
      ur_connection = [''Upgrade''], ur_upgrade = [''websocket''], ur_accept = ?accept\<rparr>"
    using assms(5) by (simp add: read_upgrade_text)
  then show ?thesis
    using assms(1,3,8,9) tokens_match [OF assms(6)]
    by (simp add: handshake_def check_upgrade_def passed_def set_deadline_def set_read_deadline_def set_write_deadline_def)
qed

definition sample_dial :: ws_dial where
  "sample_dial =
     \<lparr>wd_url = Inl [], wd_connect = (\<lambda>_ _. Inr still_conn), wd_key = Inr ''key'', wd_context = None,
      wd_request = (\<lambda>_. None), wd_sent = 1,
      wd_reply = (case read_upgrade (upgrade_text ''digest'') of None \<Rightarrow> Inl ''malformed HTTP response'' | Some r \<Rightarrow> Inr r),
      wd_replied = 2, wd_timeout = ''i/o timeout''\<rparr>"

lemma handshake_accepted_witness:
  "\<exists>c. handshake (\<lambda>r. if 0x61 \<le> r \<and> r \<le> 0x7A then r - 0x20 else r) (\<lambda>x. ''digest'') sample_dial
     \<lparr>u_scheme = ''ws'', u_host = ''h'', u_hostname = ''h'', u_port = [], u_request_uri = []\<rparr> still_conn = Inr c
   \<and> net_clock c = 2"
proof -
  have "\<exists>c. handshake (\<lambda>r. if 0x61 \<le> r \<and> r \<le> 0x7A then r - 0x20 else r) (\<lambda>x. ''digest'') sample_dial
     \<lparr>u_scheme = ''ws'', u_host = ''h'', u_hostname = ''h'', u_port = [], u_request_uri = []\<rparr> still_conn = Inr c
   \<and> net_clock c = wd_replied sample_dial \<and> read_deadline c = None \<and> write_deadline c = None"
    by (rule handshake_accepted [of _ "''key''" _ "\<lambda>x. ''digest''" "upgrade_text ''digest''"])
      (simp_all add: sample_dial_def still_conn_def upgrade_for_test_def header_get_def handshake_request_def
        handshake_headers_def folds_ascii_def graphic_def)
  then show ?thesis by (auto simp: sample_dial_def)
qed

end
