(* ===== verification/Spec2Isabelle.thy ===== *)
theory Spec2Isabelle
  imports Daemon_Main Shared_Sender Gateway_Wire Client_Main Ws_Upgrade
begin

text \<open>
  wrapping-bot relays the output of a command to a Discord channel. The wrapper
  (\<open>src/cmd/wrapping-bot\<close>) runs the command and uploads its output as one HTTP request, a stream
  of JSON lines. The relay (\<open>src/cmd/wrapping-botd\<close>, \<open>src/internal/daemon\<close>) checks the request,
  batches the output and posts it through Discord's REST API (\<open>src/internal/discord/sender.go\<close>);
  beside that it shows a presence through Discord's gateway (\<open>src/internal/discord/gateway.go\<close>),
  over a WebSocket client of its own (\<open>src/internal/wsclient\<close>). This development models the Go
  code of all these parts as executable functions and proves what makes them correct, alone and
  together.

  How the parts interact. \<open>run_wrapper\<close> parses environment file, environment and flags and makes
  the start and exit events; \<open>whole_session\<close> is the life of the upload between them; the upload
  is \<open>encode_lines event_json\<close>; \<open>decode_body\<close> is what the relay decodes from it; \<open>handle_stream\<close>
  relays the decoded events through the batcher and \<open>discord_send\<close>; \<open>write_reply\<close> is the answer,
  which \<open>relay_result\<close> reads. This theory holds the properties of the whole path.

  Theories, from the bottom up.
  \<open>Prelude\<close>: Go strings as byte strings, prefixes, errors as sums.
  \<open>Go_Strings\<close>, \<open>Go_Strconv\<close>, \<open>Go_Utf8\<close>, \<open>Go_Float\<close>, \<open>Go_Time\<close>, \<open>Go_Duration\<close>, \<open>Go_Date\<close>,
  \<open>Go_Os\<close>, \<open>Go_Json\<close>, \<open>Json_Prefix\<close>, \<open>Json_Codec\<close>, \<open>Json_Decode\<close>: what the code uses of Go's
  standard library. \<open>Go_Float\<close> has 64-bit floats as rationals with rounding to the nearest and
  \<open>ParseFloat\<close>, with bounds on the rounding error; \<open>Go_Duration\<close> and \<open>Go_Date\<close> prove that a
  printed duration and a printed RFC 3339 time are parsed back; \<open>Go_Json\<close> has the parser of
  \<open>encoding/json\<close>, \<open>Json_Prefix\<close> that more input does not change a value whose end was seen,
  \<open>Json_Codec\<close> the printer, its round trip, the stream decoder and the locale \<open>json_lines\<close> (an
  encoder and a decoder that fit together), \<open>Json_Decode\<close> decoding into structs.
  \<open>Lossy_Queue\<close>: the abstract bounded queue that both bounded channels refine, as a locale.
  \<open>Protocol\<close>, \<open>Wire\<close>: \<open>internal/protocol/event.go\<close>, its records and their JSON; two
  interpretations of \<open>json_lines\<close>.
  \<open>Text_Util\<close>: \<open>internal/textutil/text.go\<close>.
  \<open>Msg_Sender\<close>, \<open>Batcher\<close>: the sender interface (locale \<open>message_sender\<close>) and
  \<open>internal/daemon/batcher.go\<close>; state \<open>batcher\<close>, one operation per action of the goroutines.
  \<open>Daemon_Config\<close>: \<open>internal/daemon/config.go\<close>. \<open>Daemon_Format\<close>, \<open>Daemon_Server\<close>, \<open>Daemon_Body\<close>,
  \<open>Daemon_Http\<close>: \<open>internal/daemon/server.go\<close>: validation and message texts, the stream handler
  over decoded events, the handler over the bytes of the body, routes and health endpoint.
  \<open>Shared_Sender\<close>: the handlers of several runs calling one \<open>Sender\<close>, which its mutex serializes.
  \<open>Daemon_Main\<close>: \<open>cmd/wrapping-botd/main.go\<close>.
  \<open>Discord_Sender\<close>, \<open>Discord_Json\<close>: \<open>internal/discord/sender.go\<close> with its retries, clock and
  rate-limit window, and the JSON it posts. \<open>Gateway_Payload\<close>,
  \<open>Gateway\<close>, \<open>Gateway_Wire\<close>: \<open>internal/discord/gateway.go\<close>: the payloads of Discord, the session
  with its connections, read loop and heartbeat goroutine, and the same over the octets of the
  WebSocket client, which refines it.
  \<open>Ws_Frame\<close>, \<open>Ws_Conn\<close>, \<open>Ws_Dial\<close>, \<open>Ws_Upgrade\<close>: \<open>internal/wsclient/wsclient.go\<close>: frames on words,
  messages on a connection with its deadlines, dialling, and the handshake with a server.
  \<open>Client_Env\<close>, \<open>Client_Session\<close>, \<open>Client_Main\<close>: the environment file, \<open>internal/clientstream\<close>
  and \<open>cmd/wrapping-bot/main.go\<close>.

  Concurrency. Goroutines that share state are interleavings: one operation of the model is what
  happens under one hold of a lock, one receive, one tick or one call, and a run is a list of
  operations. Theorems quantify over all lists, so over all schedules. Runs share the sender,
  whose mutex makes their calls a sequence (\<open>shared_send\<close>). The outside (network,
  clock, random bytes, child process, environment) is an argument: an arbitrary sequence of
  outcomes.

  What the groups of lemmas show. Each component has an invariant or frame lemmas for its steps,
  the effect of a run by induction over its operations, and its properties, which follow from
  these in a few lines. The batcher and the session are shown to be lossy queues; the relay to
  post nothing but its own run's messages and to accept only runs it relayed completely; the
  wire format to read back exactly, also when an upload is cut anywhere.

  Bounds and fuel. The parser's budget of nesting levels is Go's 10000, and what the program
  writes has at most five. The loop of \<open>Send\<close> counts its own attempts. Every other recursion
  ends because its input shrinks; the guards on lengths in \<open>json_value\<close> and its companions never
  fail (\<open>json_value_length_all\<close>), nor does that in \<open>client_frames\<close> on frames as the client
  writes them (\<open>client_frames_wire\<close>). Bytes are \<open>char\<close> or \<open>8 word\<close>, frame lengths words;
  Go's \<open>int\<close> is taken to have 64 bits, and a decoded integer is checked against that range.
  Counters of bytes are natural numbers.

  Parameters, for what is not in the repository: SHA-256 and SHA-1, \<open>strconv.Quote\<close>, the tables
  of package \<open>unicode\<close>, \<open>net/url\<close>, the lax \<open>time.Parse\<close> behind \<open>Time.UnmarshalJSON\<close>, what the
  machine makes of a float that does not fit an integer, the texts of decoding errors and of
  the errors of a connection.

  Time. The clocks of the sender, of a run and of a connection count nanoseconds. A read of a
  connection takes until its octets have arrived (\<open>arrival\<close>, an arbitrary function), or until its
  deadline; a write that finds its deadline passed fails. A write that blocks until its deadline
  is a network that takes no more octets (\<open>capacity\<close>).

  Not modelled. TCP, TLS and HTTP themselves with the timeouts of the dialer and of the HTTP
  clients and servers (a timeout is an error that they report), logging, the random delays of
  the gateway, and the texts that only go to a log or to the terminal. In the gateway clearing
  the acknowledgement, reading the sequence number and writing the heartbeat are separate
  steps; handling one message, with the answer it asks for, is one step. The container image
  and the installation script are not Go code. What the map leaves out of the Go files is
  imports, the usage text and one-line accessors.
\<close>

section \<open>From the wrapper to Discord\<close>

text \<open>What the wire makes of the fields that the relay looks at.\<close>

definition from_writer :: "gostring \<Rightarrow> event \<Rightarrow> bool" where
  "from_writer run_id e \<longleftrightarrow> (\<exists>stream now i p. e \<in> set (write_events run_id stream now i p))"

lemma graphic_ascii:
  assumes "\<And>c. c \<in> set s \<Longrightarrow> graphic c"
  shows "is_ascii s"
proof -
  have "byte c < 0x80" if "c \<in> set s" for c
    using assms [OF that] by (simp add: graphic_def)
  then show ?thesis by (simp add: is_ascii_def list_all_iff)
qed

lemma event_names_ascii: "is_ascii event_start" "is_ascii event_output" "is_ascii event_exit" "is_ascii []"
  by (simp_all add: is_ascii_def protocol_names)

lemma channel_id_ascii: "isDiscordChannelID ch \<Longrightarrow> is_ascii ch"
  by (rule graphic_ascii) (auto simp: isDiscordChannelID_iff list_all_iff is_digit_graphic)

lemma length_wire_map: "length (wire_map m) \<le> length m"
proof -
  have up: "length (AList.update k v xs) \<le> length xs + 1" for k v and xs :: "(gostring \<times> gostring) list"
    by (induction xs) auto
  have "length (fold (\<lambda>(k, v). AList.update (to_valid k) (to_valid v)) es xs) \<le> length xs + length es"
    for es and xs :: "(gostring \<times> gostring) list"
  proof (induction es arbitrary: xs)
    case (Cons e es)
    obtain k v where e: "e = (k, v)" by (cases e)
    show ?case using Cons.IH [of "AList.update (to_valid k) (to_valid v) xs"] up [of "to_valid k" "to_valid v" xs] by (simp add: e)
  qed simp
  from this [of "sort_key fst m" "[]"] show ?thesis by (simp add: wire_map_def)
qed

lemma wire_event_fields:
  assumes "is_ascii (ev_type e)" "is_ascii (ev_run_id e)" "is_ascii (ev_channel_id e)"
  shows "ev_version (wire_event e) = ev_version e" "ev_type (wire_event e) = ev_type e"
    "ev_run_id (wire_event e) = ev_run_id e" "ev_channel_id (wire_event e) = ev_channel_id e"
    "length (ev_command (wire_event e)) = length (ev_command e)"
    "length (ev_environment (wire_event e)) \<le> length (ev_environment e)"
  using assms length_wire_map by (simp_all add: wire_event_def)

lemma validate_start_wire:
  assumes "validate_start e = None" "is_ascii (ev_run_id e)"
  shows "validate_start (wire_event e) = None"
proof -
  have v: "ev_version e = protocol_version" "ev_type e = event_start" "trim_space (ev_run_id e) \<noteq> []"
    "length (ev_run_id e) \<le> 128" "isDiscordChannelID (ev_channel_id e)" "length (ev_command e) \<noteq> 0"
    "length (ev_environment e) \<le> 128"
    using assms(1) by (auto simp: validate_start_def not_less split: if_splits)
  have "is_ascii (ev_type e)" "is_ascii (ev_channel_id e)"
    using v(2,5) by (simp_all add: event_names_ascii channel_id_ascii)
  from wire_event_fields [OF this(1) assms(2) this(2)] v show ?thesis
    by (simp add: validate_start_def)
qed

text \<open>The events that a wrapper uploads after the start event.\<close>

lemma from_writer_shape:
  assumes "from_writer run_id e"
  shows "ev_version e = protocol_version" "ev_type e = event_output" "ev_run_id e = run_id" "ev_channel_id e = []"
    "length (ev_data e) \<le> 8192"
proof -
  obtain t st d where e: "e = output_event run_id t st d" "length d \<le> max_output_event_bytes"
    using assms write_events_shape unfolding from_writer_def by metis
  then show "ev_version e = protocol_version" "ev_type e = event_output" "ev_run_id e = run_id" "ev_channel_id e = []"
    "length (ev_data e) \<le> 8192"
    by (simp_all add: max_output_event_bytes_def) (simp add: output_event_def zero_event_def)
qed

lemma belongs_wire:
  assumes "belongs_to start e" "is_ascii (ev_run_id start)" "ev_channel_id e = []"
    "ev_run_id start' = ev_run_id start"
  shows "belongs_to start' (wire_event e)" "ev_type (wire_event e) = ev_type e"
proof -
  have "is_ascii (ev_type e)" "is_ascii (ev_run_id e)" "is_ascii (ev_channel_id e)"
    using assms(1-3) by (auto simp: belongs_to_def event_names_ascii)
  from wire_event_fields [OF this] assms(1,4)
  show "belongs_to start' (wire_event e)" "ev_type (wire_event e) = ev_type e" by (simp_all add: belongs_to_def)
qed

lemma stream_of_events:
  assumes "map snd items = map (Inr \<circ> f) es"
  shows "stream_events items = map f es"
    "well_formed_stream start items \<longleftrightarrow> list_all (\<lambda>e. belongs_to start (f e)) es"
proof -
  have "stream_events items = map f es \<and>
    (well_formed_stream start items \<longleftrightarrow> list_all (\<lambda>e. belongs_to start (f e)) es)"
    using assms
  proof (induction items arbitrary: es)
    case (Cons i items)
    then obtain e es' where es: "es = e # es'" "snd i = Inr (f e)" "map snd items = map (Inr \<circ> f) es'"
      by (cases es) auto
    obtain bg where "i = (bg, Inr (f e))" using es(2) by (cases i) auto
    then show ?case using Cons.IH [OF es(3)] es(1)
      by (simp add: stream_events_def well_formed_stream_def)
  qed (simp add: stream_events_def well_formed_stream_def)
  then show "stream_events items = map f es"
    "well_formed_stream start items \<longleftrightarrow> list_all (\<lambda>e. belongs_to start (f e)) es" by simp_all
qed

lemma exit_event_simps:
  "ev_version (exit_event w r) = protocol_version" "ev_type (exit_event w r) = event_exit"
  "ev_run_id (exit_event w r) = r" "ev_channel_id (exit_event w r) = []"
  by (simp_all add: exit_event_def zero_event_def split: prod.split)

lemma chunk_events_relays: "list_all (from_writer r) (chunk_events mid) \<Longrightarrow> subseq outs (chunk_events mid) \<Longrightarrow>
    list_all (from_writer r) outs"
  by (rule list_all_subseq)

lemma belongs_events:
  "from_writer (ev_run_id start) e \<Longrightarrow> belongs_to start e \<and> ev_channel_id e = [] \<and> ev_type e = event_output"
  using from_writer_shape [of "ev_run_id start" e] by (simp add: belongs_to_def)

text \<open>
  The request that a wrapper's session makes: a valid start event, then a well-formed stream
  that ends with its exit event.
\<close>

lemma wrapper_request:
  assumes run: "run_wrapper ut wd = Ran ccfg s0 start cmd ex code" "w_random wd = Some bytes" "length bytes = 16"
    and mid: "list_all relays mid" "list_all (from_writer (ev_run_id start)) (chunk_events mid)"
    and up: "\<And>n. enc n = None" "0 < waiting"
      "whole_session (nat (events_capacity ccfg)) enc s0 start mid ex now waiting = t"
    and rq: "rq_start rq = Some (Inr (wire_event start))"
      "map snd (rq_items rq) = map (Inr \<circ> wire_event) (tl (encoded t))"
  obtains outs notice n where "validate_start (wire_event start) = None" "ev_channel_id (wire_event start) = ev_channel_id start"
    "well_formed_stream (wire_event start) (rq_items rq)" "exits_of (rq_items rq) = [wire_event ex]"
    "outputs_of (rq_items rq) = map wire_event (outs @ notice)" "encoded t = start # outs @ notice @ [ex]"
    "subseq outs (chunk_events mid)" "event_bytes outs + n = event_bytes (chunk_events mid)"
    "notice = [] \<or> 0 < n \<and> notice = [output_event (ev_run_id ex) now stream_system (client_notice n)]"
proof -
  obtain env opts command_args where p: "parse_options env (w_args wd) = Inr (opts, command_args)"
    and new: "new_session \<lparr>endpoint = o_endpoint opts, token = o_token opts, events_capacity = o_queue_size opts,
       finish_timeout = o_finish_timeout opts\<rparr> = Inr (ccfg, s0)"
    and st: "start = start_event ut wd env (hex_encode bytes) opts command_args"
    and ex: "ex = exit_event wd (hex_encode bytes)"
    using run_wrapper_Ran [OF run(1)] run(2) by (metis option.inject)
  obtain outs notice exits n where w: "encoded t = start # outs @ notice @ exits"
    "subseq outs (chunk_events mid)" "event_bytes outs + n = event_bytes (chunk_events mid)"
    "notice = [] \<or> notice = [output_event (ev_run_id ex) now stream_system (client_notice n)]"
    "n = 0 \<longrightarrow> notice = []" "0 < waiting \<longrightarrow> exits = [ex]"
    by (rule whole_session_effect [OF new refl mid(1) up(1,3)])
  have id: "ev_run_id start = hex_encode bytes" by (simp add: st start_event_def)
  have ascii: "is_ascii (ev_run_id start)"
    unfolding id by (rule graphic_ascii) (rule hex_encode_graphic)
  have valid: "validate_start start = None" unfolding st by (rule start_event_valid [OF p run(3)])
  have names: "is_ascii (ev_type start)" "is_ascii (ev_channel_id start)"
    using channel_id_ascii [OF validate_start_channel [OF valid]]
    by (simp_all add: st start_event_def event_names_ascii)
  note trs = wire_event_fields [OF names(1) ascii names(2)]
  let ?es = "outs @ notice @ [ex]"
  have items: "map snd (rq_items rq) = map (Inr \<circ> wire_event) ?es" using rq(2) w(1,6) up(2) by simp
  have outs: "belongs_to start e \<and> ev_channel_id e = [] \<and> ev_type e = event_output"
    if "e \<in> set (outs @ notice)" for e
  proof (cases "e \<in> set outs")
    case True
    then show ?thesis
      using chunk_events_relays [OF mid(2) w(2)] belongs_events by (auto simp: list_all_iff)
  next
    case False
    with that have "e \<in> set notice" by simp
    then have "e = output_event (ev_run_id ex) now stream_system (client_notice n)" using w(4) by auto
    then show ?thesis
      using id by (simp add: belongs_to_def ex exit_event_simps) (simp add: output_event_def zero_event_def)
  qed
  have exit: "belongs_to start ex" "ev_channel_id ex = []" "ev_type ex = event_exit"
    using id by (simp_all add: ex exit_event_simps belongs_to_def)
  note bt = belongs_wire [OF _ ascii _ trs(3)]
  note stream = stream_of_events [OF items]
  have wf: "well_formed_stream (wire_event start) (rq_items rq)"
    unfolding stream(2) using bt(1) outs exit by (auto simp: list_all_iff)
  have types: "ev_type (wire_event e) = event_output" if "e \<in> set (outs @ notice)" for e
    using bt(2) [of e] outs [OF that] by simp
  have type_ex: "ev_type (wire_event ex) = event_exit" using bt(2) [of ex] exit by simp
  have "exits_of (rq_items rq) = [wire_event ex]" "outputs_of (rq_items rq) = map wire_event (outs @ notice)"
    using types type_ex by (auto simp: exits_of_def outputs_of_def stream(1) filter_empty_conv filter_id_conv)
  moreover have "notice = [] \<or> 0 < n \<and> notice = [output_event (ev_run_id ex) now stream_system (client_notice n)]"
    using w(4,5) by auto
  ultimately show thesis
    using that [OF validate_start_wire [OF valid ascii] trs(4) wf] w up(2) by simp
qed

lemma session_starts:
  assumes "run_wrapper ut wd = Ran ccfg s0 start cmd ex code" "list_all relays mid" "0 < waiting"
    "whole_session (nat (events_capacity ccfg)) (\<lambda>_. None) s0 start mid ex now waiting = t"
  obtains es where "encoded t = start # es"
proof -
  obtain cfg where "new_session cfg = Inr (ccfg, s0)" using run_wrapper_Ran [OF assms(1)] by metis
  from whole_session_effect [OF this refl assms(2) refl assms(4)] that show thesis by metis
qed

lemma relay_authorized: "trim_space (token ccfg) = shared_token cfg \<Longrightarrow>
    authorized sha256 cfg (relay_authorization ccfg)"
  by (simp add: authorized_def relay_authorization_def has_prefix_iff trim_prefix_def del: append.simps)

text \<open>The events that the encoder accepts: a year of four digits, integers of 64 bits.\<close>

definition sendable :: "event \<Rightarrow> bool" where
  "sendable e \<longleftrightarrow> encode_line event_json e \<noteq> None \<and> event_int64 e"

lemma sendable_iff: "list_all sendable es \<longleftrightarrow> list_all (\<lambda>e. event_json e \<noteq> None \<and> event_int64 e) es"
  by (simp add: sendable_def [abs_def] encode_line_def)

lemma decode_whole_body:
  assumes "list_all sendable es" "int (length (encode_lines event_json es)) \<le> max_stream_bytes cfg"
  shows "decode_body lenient bad cfg (encode_lines event_json es, Closed) = map (Inr \<circ> wire_event) es"
  using assms event_lines.stream_reads_back [of es "[]" lenient bad]
  by (simp add: decode_body_def max_bytes_reader_def sendable_iff)

section \<open>Properties\<close>


definition sample_world :: world where
  "sample_world =
     \<lparr>w_args = [''--'', ''true''],
      w_env = [''WRAPPING_BOT_TOKEN'' \<mapsto> ''s'', ''WRAPPING_BOT_CHANNEL_ID'' \<mapsto> ''12345678901234567''],
      w_file = (\<lambda>_. Missing []), w_random = Some (replicate 16 CHR ''x''), w_hostname = [], w_cwd = [],
      w_entries = (\<lambda>_. []), w_started = 0, w_finished = 0, w_child = Finished\<rparr>"

lemma sample_world_env:
  "trimmed_env (w_env sample_world) k =
     (if k = ''WRAPPING_BOT_TOKEN'' then ''s''
      else if k = ''WRAPPING_BOT_CHANNEL_ID'' then ''12345678901234567'' else [])"
  by (simp add: trimmed_env_def getenv_def sample_world_def trim_space_all_graphic graphic_def)

lemma sample_options:
  obtains opts where "parse_options (w_env sample_world) (w_args sample_world) = Inr (opts, [''true''])"
    "o_channel_id opts = ''12345678901234567''" "o_queue_size opts = 1024" "o_token opts = ''s''"
    "o_endpoint opts = ''http://127.0.0.1:8080''"
proof -
  let ?opts = "default_options (w_env sample_world)"
  have o: "o_channel_id ?opts = ''12345678901234567''" "o_queue_size ?opts = 1024" "o_token ?opts = ''s''"
    "o_endpoint ?opts = ''http://127.0.0.1:8080''"
    by (simp_all add: default_options_def sample_world_env client_env_or_def client_env_int_def parse_int64_def Let_def)
  have "trim_space ''s'' = ''s''" by (rule trim_space_all_graphic) (simp add: graphic_def)
  then have "parse_options (w_env sample_world) (w_args sample_world) = Inr (?opts, [''true''])"
    using o sample_channel parse_flags_terminator [of "[''true'']" ?opts]
    by (simp add: parse_options_def client_isDiscordChannelID_same sample_world_def)
  with that o show thesis by blast
qed

lemma sample_run:
  obtains ccfg s0 start cmd ex where "run_wrapper (\<lambda>r. r) sample_world = Ran ccfg s0 start cmd ex 0"
    "ev_channel_id start = ''12345678901234567''" "token ccfg = ''s''"
proof -
  obtain opts where o: "parse_options (w_env sample_world) (w_args sample_world) = Inr (opts, [''true''])"
    "o_channel_id opts = ''12345678901234567''" "o_queue_size opts = 1024" "o_token opts = ''s''"
    "o_endpoint opts = ''http://127.0.0.1:8080''"
    by (rule sample_options)
  have path: "resolve_client_env_path (w_env sample_world) (w_args sample_world) = Inr (''client.env'', False)"
    using sample_world_env
    by (simp add: default_client_env_path_def client_env_path_from_environment_def sample_world_def)
  have "trim_space ''http://127.0.0.1:8080'' = ''http://127.0.0.1:8080''" "trim_space ''s'' = ''s''"
    by (rule trim_space_all_graphic; simp add: graphic_def)+
  then obtain ccfg s0 where "new_session \<lparr>endpoint = o_endpoint opts, token = o_token opts,
      events_capacity = o_queue_size opts, finish_timeout = o_finish_timeout opts\<rparr> = Inr (ccfg, s0)"
      "token ccfg = ''s''"
    using o by (simp add: new_session_def Let_def)
  moreover have "load_client_env (w_file sample_world ''client.env'') False (w_env sample_world) = (w_env sample_world, None)"
    by (simp add: load_client_env_def sample_world_def)
  moreover have "w_random sample_world = Some (replicate 16 CHR ''x'')" "w_child sample_world = Finished"
    by (simp_all add: sample_world_def)
  ultimately show thesis
    using that path o(1,2) by (simp add: run_wrapper_def Let_def child_exit_def start_event_def)
qed

text \<open>The upload of the sample run: its start and its exit event.\<close>

lemma sample_upload:
  assumes "run_wrapper (\<lambda>r. r) sample_world = Ran ccfg s0 start cmd ex 0"
    "t = whole_session (nat (events_capacity ccfg)) (\<lambda>_. None) s0 start [] ex 0 1"
  shows "list_all sendable (encoded t)"
proof -
  obtain env opts command_args bytes where
    new: "new_session \<lparr>endpoint = o_endpoint opts, token = o_token opts, events_capacity = o_queue_size opts,
       finish_timeout = o_finish_timeout opts\<rparr> = Inr (ccfg, s0)"
    and ev: "start = start_event (\<lambda>r. r) sample_world env (hex_encode bytes) opts command_args"
      "ex = exit_event sample_world (hex_encode bytes)"
    by (rule run_wrapper_Ran [OF assms(1)]) blast
  obtain outs notice exits n where w: "encoded t = start # outs @ notice @ exits" "subseq outs (chunk_events [])"
    "event_bytes outs + n = event_bytes (chunk_events [])" "n = 0 \<longrightarrow> notice = []" "exits = [] \<or> exits = [ex]"
    by (rule whole_session_effect [OF new refl _ _ assms(2) [symmetric]]) auto
  have "sendable e" if "ev_timestamp e = 0" "event_int64 e" for e
  proof -
    have "format_time 0 \<noteq> None" by code_simp
    then show ?thesis using that by (simp add: sendable_def encode_line_def event_json_def time_json_def)
  qed
  moreover have "ev_timestamp start = 0" "event_int64 start" "ev_timestamp ex = 0" "event_int64 ex"
    by (simp_all add: ev start_event_def exit_event_def sample_world_def child_exit_def event_int64_def int64_def
        protocol_version_def)
  moreover have "outs = []" "n = 0" using w(2,3) by (simp_all add: event_bytes_def)
  ultimately show ?thesis using w(1,4,5) by auto
qed


text \<open>C16: The reply arrives. The wrapper reads from the daemon's reply the response that was sent,
  reports an error exactly when the status is not 2xx, with the daemon's error text, and warns
  of the bytes that the daemon omitted. The reply must not exceed the 1 MiB that the wrapper reads.\<close>

theorem reply_reaches_wrapper:
  assumes "int64 (rs_dropped_bytes resp)" "write_reply (status, resp) = (code, body)"
    "length body \<le> 1048576" "relay_result (unmarshal decode_response bad) (Replied code line body) = r"
  shows "r_response r = wire_response resp
    \<and> r_err r = (if 200 \<le> status \<and> status < 300 then None
        else Some (''relay returned '' @ line @ '': ''
          @ (if rs_error resp = [] then trim_space body else to_valid (rs_error resp))))
    \<and> (200 \<le> status \<and> status < 300 \<longrightarrow> relay_warning r = (if 0 < rs_dropped_bytes resp
        then Some (''wrapping-bot: daemon omitted '' @ format_int (rs_dropped_bytes resp) @ '' log bytes'')
        else None))"
proof -
  obtain l where l: "encode_line response_json resp = Some l" "l \<noteq> []"
    by (simp add: encode_line_def response_json_def)
  then have body: "code = status" "body = l" using assms(2) by (simp_all add: write_reply_def)
  have "unmarshal decode_response bad body = Inr (wire_response resp)"
    unfolding body by (rule response_lines.line_unmarshals [OF l(1) assms(1)])
  moreover have "rs_error (wire_response resp) = to_valid (rs_error resp)"
    "rs_dropped_bytes (wire_response resp) = rs_dropped_bytes resp" by (simp_all add: wire_response_def)
  ultimately show ?thesis
    using assms(3,4) l(2) body by (auto simp: relay_result_def relay_warning_def Let_def)
qed

lemma reply_reaches_wrapper_witness:
  "\<exists>code body. write_reply (429, reject [] ''maximum concurrent runs reached'') = (code, body)
     \<and> r_err (relay_result (unmarshal decode_response (\<lambda>_. [])) (Replied code ''429'' body))
         = Some (''relay returned 429: maximum concurrent runs reached'')"
proof -
  let ?r = "reject [] ''maximum concurrent runs reached''"
  obtain code body where w: "write_reply (429, ?r) = (code, body)" by (cases "write_reply (429, ?r)")
  have int: "int64 (rs_dropped_bytes ?r)" by (simp add: reject_def zero_response_def int64_def)
  have "length (snd (write_reply (429, ?r))) \<le> 1048576"
    by (simp add: write_reply_def encode_line_def response_json_def response_members_def reject_def zero_response_def
        omit_str_def json_string_def json_escape_safe html_safe_def)
  then have "length body \<le> 1048576" by (simp add: w)
  from reply_reaches_wrapper [OF int w this refl, of "\<lambda>_. []" "''429''"] w
  show ?thesis by (simp add: reject_def is_ascii_def)
qed

text \<open>The daemon never truncates what the wrapper sends: a chunk is at most 8192 bytes, and even
  when every byte of it becomes a replacement character it stays below the daemon's limit.\<close>

lemma wrapper_output_not_truncated:
  "list_all (\<lambda>e. event_data (wire_event e) = to_valid (ev_data e)) (write_events run_id stream now i p)"
proof -
  have "event_data (wire_event e) = to_valid (ev_data e)" if "e \<in> set (write_events run_id stream now i p)" for e
  proof -
    have f: "from_writer run_id e" using that unfolding from_writer_def by blast
    have "length (to_valid (ev_data e)) \<le> 3 * 8192"
      using to_valid_length [of "ev_data e"] from_writer_shape(5) [OF f] by linarith
    then show ?thesis by (simp add: event_data_def max_output_event_data_bytes_def wire_event_def)
  qed
  then show ?thesis by (simp add: list_all_iff)
qed

end
